(* ===== verification/Chrono_Prelude.thy ===== *)
theory Chrono_Prelude
  imports Main "HOL-Library.Word" "HOL-Library.Multiset" "HOL-Library.AList"
begin

text \<open>
  The prelude of the development: the rule collections of the components, the type names
  they share and the generic facts on lists, multisets and association lists that more
  than one component uses.

  A Go function that can raise a run-time panic returns an \<open>option\<close>: \<open>None\<close> is the
  panic, \<open>Some\<close> the ordinary return. A Go \<open>error\<close> result is the left summand of a
  sum type.
\<close>

named_theorems time_simps \<open>comparisons and arithmetic of Go time values\<close>
named_theorems queue_simps \<open>what the queue operations leave unchanged\<close>
named_theorems spoke_simps \<open>what the spoke operations leave unchanged\<close>
named_theorems hub_simps \<open>what the hub operations leave unchanged\<close>

type_synonym addr = nat
type_synonym bytes = "8 word list"

section \<open>Lists\<close>

lemma mset_list_swap [simp]:
  "i < length xs \<Longrightarrow> j < length xs \<Longrightarrow> mset (xs[i := xs ! j, j := xs ! i]) = mset xs"
  by (rule mset_swap)

lemma distinct_list_swap [simp]:
  assumes "i < length xs" and "j < length xs"
  shows "distinct (xs[i := xs ! j, j := xs ! i]) = distinct xs"
  using mset_list_swap [OF assms] by (metis mset_eq_imp_distinct_iff)

lemma set_list_swap [simp]:
  assumes "i < length xs" and "j < length xs"
  shows "set (xs[i := xs ! j, j := xs ! i]) = set xs"
  using mset_list_swap [OF assms] by (metis mset_eq_setD)

lemma nth_list_swap:
  "i < length xs \<Longrightarrow> j < length xs \<Longrightarrow> k < length xs \<Longrightarrow>
   xs[i := xs ! j, j := xs ! i] ! k = (if k = j then xs ! i else if k = i then xs ! j else xs ! k)"
  by (auto simp: nth_list_update)

text \<open>Reading an updated list at any position, in range or not.\<close>

lemma nth_list_update_total:
  "xs[a := v] ! b = (if b = a \<and> a < length xs then v else xs ! b)"
  by (cases "a < length xs") (simp_all add: nth_list_update list_update_beyond)

lemma mset_exchange:
  assumes "add_mset x S' = add_mset y S" and "C' + S = C + S'"
  shows "add_mset x C' = add_mset y C"
proof -
  have "add_mset x C' + S = C + add_mset x S'" using assms(2) by simp
  also have "\<dots> = add_mset y C + S" by (simp add: assms(1))
  finally show ?thesis by simp
qed

lemma mset_map_cong:
  "mset xs = mset ys \<Longrightarrow> (\<And>x. x \<in> set ys \<Longrightarrow> f x = g x) \<Longrightarrow> mset (map f xs) = mset (map g ys)"
proof -
  assume m: "mset xs = mset ys" and fg: "\<And>x. x \<in> set ys \<Longrightarrow> f x = g x"
  have "mset (map f xs) = image_mset f (mset ys)" by (simp add: m)
  also have "\<dots> = image_mset g (mset ys)" by (rule image_mset_cong) (simp add: fg)
  finally show ?thesis by simp
qed

section \<open>Association lists\<close>

lemma alist_update_new: "k \<notin> fst ` set m \<Longrightarrow> AList.update k v m = m @ [(k, v)]"
  by (induction m) auto

lemma alist_delete_split:
  "distinct (map fst m) \<Longrightarrow> (k, v) \<in> set m \<Longrightarrow>
   mset m = add_mset (k, v) (mset (AList.delete k m))"
proof (induction m)
  case (Cons p m)
  obtain k' v' where p: "p = (k', v')" by (cases p)
  show ?case
  proof (cases "k' = k")
    case True
    then have "k \<notin> fst ` set m" using Cons.prems(1) p by auto
    moreover from this have "v' = v" using Cons.prems(2) p True by force
    ultimately show ?thesis using True p by (simp add: AList.delete_id)
  next
    case False
    then show ?thesis using Cons p by auto
  qed
qed simp

section \<open>Strings and bytes\<close>

text \<open>A Go string is a sequence of bytes: \<open>[]byte(s)\<close> and \<open>string(b)\<close>.\<close>

definition bytes_of :: "string \<Rightarrow> bytes" where
  "bytes_of s = map of_char s"

definition string_of :: "bytes \<Rightarrow> string" where
  "string_of b = map (\<lambda>w. char_of (unat w)) b"

lemma char_of_byte [simp]: "char_of (unat (of_char c :: 8 word)) = c"
proof -
  have "(of_char c :: nat) < 256" by (rule nat_of_char_less_256)
  moreover have "(of_char c :: 8 word) = word_of_nat (of_char c)" by (simp add: of_nat_of_char)
  ultimately have "unat (of_char c :: 8 word) = of_char c"
    by (simp add: unsigned_of_nat take_bit_nat_eq_self)
  then show ?thesis by simp
qed

lemma string_of_bytes_of [simp]: "string_of (bytes_of s) = s"
  by (simp add: string_of_def bytes_of_def comp_def)

lemma length_bytes_of [simp]: "length (bytes_of s) = length s"
  by (simp add: bytes_of_def)

end
