(* ===== verification/Go_Time.thy ===== *)
theory Go_Time
  imports Chrono_Prelude
begin

unbundle bit_operations_syntax

text \<open>
  What the program uses of the Go package \<open>time\<close>.

  An instant is the number of nanoseconds since the zero \<open>time.Time\<close> (January 1 of
  year 1, UTC), so the methods below are the ones of \<open>time.Time\<close> on the instant it
  denotes. A \<open>time.Duration\<close> is a signed 64-bit number of nanoseconds, read with
  \<open>sint\<close>. The monotonic reading and the location that a \<open>time.Time\<close> carries beside
  its instant are not modelled: \<open>Truncate\<close> strips the first, and the second changes no
  comparison.
\<close>

type_synonym instant = int
type_synonym duration = "64 word"

definition max_duration :: int where
  "max_duration = 2 ^ 63 - 1"

definition min_duration :: int where
  "min_duration = - (2 ^ 63)"

definition t_after :: "instant \<Rightarrow> instant \<Rightarrow> bool" where
  "t_after t u \<longleftrightarrow> u < t"

definition t_before :: "instant \<Rightarrow> instant \<Rightarrow> bool" where
  "t_before t u \<longleftrightarrow> t < u"

text \<open>\<open>t.Sub(u)\<close> saturates at the largest and the smallest duration.\<close>

definition t_sub :: "instant \<Rightarrow> instant \<Rightarrow> duration" where
  "t_sub t u = word_of_int (max min_duration (min max_duration (t - u)))"

definition t_add :: "instant \<Rightarrow> duration \<Rightarrow> instant" where
  "t_add t d = t + sint d"

text \<open>
  \<open>t.Truncate(d)\<close> rounds down to a multiple of \<open>d\<close> since the zero time and leaves
  \<open>t\<close> alone when \<open>d\<close> is not positive.
\<close>

definition t_truncate :: "instant \<Rightarrow> duration \<Rightarrow> instant" where
  "t_truncate t d = (if sint d \<le> 0 then t else t - t mod sint d)"

text \<open>Nanoseconds from the zero time to the Unix epoch.\<close>

definition unix_epoch :: instant where
  "unix_epoch = 62135596800 * 1000000000"

text \<open>\<open>t.UnixNano()\<close> wraps outside the years 1678 to 2262; \<open>time.Unix(0, n)\<close> does not.\<close>

definition unix_nano :: "instant \<Rightarrow> 64 word" where
  "unix_nano t = word_of_int (t - unix_epoch)"

definition time_unix0 :: "64 word \<Rightarrow> instant" where
  "time_unix0 n = unix_epoch + sint n"

definition nanosecond :: duration where "nanosecond = 1"
definition millisecond :: duration where "millisecond = 1000000"
definition second :: duration where "second = 1000000000"
definition hour :: duration where "hour = 3600000000000"

section \<open>Facts\<close>

lemmas [time_simps] = t_after_def t_before_def

lemma sint_word_of_int_in_range:
  "- (2 ^ 63) \<le> x \<Longrightarrow> x < 2 ^ 63 \<Longrightarrow> sint (word_of_int x :: 64 word) = x"
  unfolding sint_sbintrunc' by (rule signed_take_bit_int_eq_self) simp_all

lemma sint_t_sub:
  "sint (t_sub t u) = max min_duration (min max_duration (t - u))"
  unfolding t_sub_def
  by (rule sint_word_of_int_in_range) (auto simp: min_duration_def max_duration_def)

lemma t_sub_le_0 [time_simps]: "sint (t_sub t u) \<le> 0 \<longleftrightarrow> t \<le> u"
  unfolding sint_t_sub by (auto simp: min_duration_def max_duration_def)

lemma t_truncate_le: "t_truncate t d \<le> t"
  by (simp add: t_truncate_def)

lemma t_truncate_gt: "0 < sint d \<Longrightarrow> t < t_truncate t d + sint d"
  using pos_mod_bound [of "sint d" t] by (simp add: t_truncate_def)

lemma t_truncate_multiple: "0 < sint d \<Longrightarrow> t_truncate t d = (t div sint d) * sint d"
  by (simp add: t_truncate_def minus_mod_eq_div_mult)

lemma time_unix0_unix_nano:
  "- (2 ^ 63) \<le> t - unix_epoch \<Longrightarrow> t - unix_epoch < 2 ^ 63 \<Longrightarrow> time_unix0 (unix_nano t) = t"
  unfolding time_unix0_def unix_nano_def by (subst sint_word_of_int_in_range) simp_all

end
