(* ===== verification/Item_Queue.thy ===== *)
theory Item_Queue
  imports Go_Time
begin

text \<open>
  \<open>internal/queue/priorityQueue.go\<close> and what it uses of the Go package
  \<open>container/heap\<close>.

  Items are heap objects that a queue and a map share, and the queue's methods write the
  \<open>index\<close> field through the shared pointer. So a queue carries the store of its items
  (the address of an item is its position in \<open>pq_store\<close>; nothing is ever freed) and the
  slice \<open>pq_arr\<close> of item addresses, which is the \<open>PriorityQueue\<close> itself.
\<close>

record 'v item =
  item_value :: 'v
  item_priority :: instant
  item_index :: int

record 'v pqueue =
  pq_store :: "'v item list"
  pq_arr :: "addr list"

definition new_item :: "'v \<Rightarrow> instant \<Rightarrow> 'v item" where
  "new_item v p = \<lparr>item_value = v, item_priority = p, item_index = 0\<rparr>"

definition empty_pq :: "'v pqueue" where
  "empty_pq = \<lparr>pq_store = [], pq_arr = []\<rparr>"

text \<open>Allocating an item: the address it gets and the store with the item in it.\<close>

definition pq_alloc :: "'v item \<Rightarrow> 'v pqueue \<Rightarrow> addr \<times> 'v pqueue" where
  "pq_alloc it q = (length (pq_store q), q\<lparr>pq_store := pq_store q @ [it]\<rparr>)"

definition set_index :: "addr \<Rightarrow> int \<Rightarrow> 'v pqueue \<Rightarrow> 'v pqueue" where
  "set_index a k q = q\<lparr>pq_store := (pq_store q)[a := (pq_store q ! a)\<lparr>item_index := k\<rparr>]\<rparr>"

definition pq_len :: "'v pqueue \<Rightarrow> nat" where
  "pq_len q = length (pq_arr q)"

text \<open>\<open>AtIdx\<close>; reading out of range panics.\<close>

definition pq_at :: "'v pqueue \<Rightarrow> nat \<Rightarrow> 'v item option" where
  "pq_at q i = (if i < pq_len q then Some (pq_store q ! (pq_arr q ! i)) else None)"

text \<open>
  The \<open>heap.Interface\<close> methods. \<open>Less\<close> and \<open>Swap\<close> index the slice;
  \<open>container/heap\<close> calls them in range except where \<open>heap_pop\<close> and
  \<open>heap_remove\<close> below have their guards.
\<close>

definition pq_prio :: "'v pqueue \<Rightarrow> nat \<Rightarrow> instant" where
  "pq_prio q i = item_priority (pq_store q ! (pq_arr q ! i))"

definition pq_less :: "'v pqueue \<Rightarrow> nat \<Rightarrow> nat \<Rightarrow> bool" where
  "pq_less q i j = t_before (pq_prio q i) (pq_prio q j)"

definition pq_swap :: "nat \<Rightarrow> nat \<Rightarrow> 'v pqueue \<Rightarrow> 'v pqueue" where
  "pq_swap i j q =
     (let arr = (pq_arr q)[i := pq_arr q ! j, j := pq_arr q ! i];
          q1 = q\<lparr>pq_arr := arr\<rparr>;
          q2 = set_index (arr ! i) (int i) q1
      in set_index (arr ! j) (int j) q2)"

definition pq_push :: "addr \<Rightarrow> 'v pqueue \<Rightarrow> 'v pqueue" where
  "pq_push a q =
     (let q1 = set_index a (int (pq_len q)) q in q1\<lparr>pq_arr := pq_arr q @ [a]\<rparr>)"

text \<open>\<open>Pop\<close> of the slice: removes its last item. On an empty slice \<open>old[-1]\<close> panics.\<close>

definition pq_pop :: "'v pqueue \<Rightarrow> (addr \<times> 'v pqueue) option" where
  "pq_pop q =
     (if pq_len q = 0 then None
      else let n = pq_len q - 1; a = pq_arr q ! n;
               q1 = q\<lparr>pq_arr := take n (pq_arr q)\<rparr>
           in Some (a, set_index a (-1) q1))"

section \<open>container/heap\<close>

function heap_up :: "nat \<Rightarrow> 'v pqueue \<Rightarrow> 'v pqueue" where
  "heap_up j q =
     (let i = (j - 1) div 2
      in if i = j \<or> \<not> pq_less q j i then q else heap_up i (pq_swap i j q))"
  by pat_completeness auto
termination
  by (relation "measure (\<lambda>(j, q). j)") auto

text \<open>The loop of \<open>down\<close>: where the item ends and the queue then.\<close>

function heap_down_loop :: "nat \<Rightarrow> nat \<Rightarrow> 'v pqueue \<Rightarrow> nat \<times> 'v pqueue" where
  "heap_down_loop i n q =
     (let j1 = 2 * i + 1
      in if n \<le> j1 then (i, q)
         else let j2 = j1 + 1;
                  j = (if j2 < n \<and> pq_less q j2 j1 then j2 else j1)
              in if \<not> pq_less q j i then (i, q)
                 else heap_down_loop j n (pq_swap i j q))"
  by pat_completeness auto
termination
  by (relation "measure (\<lambda>(i, n, q). n - i)") (auto simp: Let_def)

declare heap_up.simps [simp del] heap_down_loop.simps [simp del]

text \<open>\<open>down\<close> also reports whether the item moved.\<close>

definition heap_down :: "nat \<Rightarrow> nat \<Rightarrow> 'v pqueue \<Rightarrow> bool \<times> 'v pqueue" where
  "heap_down i0 n q = (let (i, q') = heap_down_loop i0 n q in (i0 < i, q'))"

text \<open>\<open>heap.Init\<close>: \<open>down\<close> from the last inner node to the root.\<close>

fun heap_init_loop :: "nat \<Rightarrow> nat \<Rightarrow> 'v pqueue \<Rightarrow> 'v pqueue" where
  "heap_init_loop 0 n q = q"
| "heap_init_loop (Suc i) n q = heap_init_loop i n (snd (heap_down i n q))"

definition heap_init :: "'v pqueue \<Rightarrow> 'v pqueue" where
  "heap_init q = heap_init_loop (pq_len q div 2) (pq_len q) q"

definition heap_push :: "addr \<Rightarrow> 'v pqueue \<Rightarrow> 'v pqueue" where
  "heap_push a q = (let q1 = pq_push a q in heap_up (pq_len q1 - 1) q1)"

text \<open>\<open>heap.Pop\<close>: on an empty queue \<open>Swap(0, -1)\<close> panics.\<close>

definition heap_pop :: "'v pqueue \<Rightarrow> (addr \<times> 'v pqueue) option" where
  "heap_pop q =
     (if pq_len q = 0 then None
      else let n = pq_len q - 1; q1 = pq_swap 0 n q; (_, q2) = heap_down 0 n q1
           in pq_pop q2)"

text \<open>\<open>heap.Remove\<close>: an index outside the slice panics in \<open>Swap\<close> or in \<open>Pop\<close>.\<close>

definition heap_remove :: "int \<Rightarrow> 'v pqueue \<Rightarrow> (addr \<times> 'v pqueue) option" where
  "heap_remove idx q =
     (if idx < 0 \<or> int (pq_len q) \<le> idx then None
      else let n = pq_len q - 1; i = nat idx
           in if n \<noteq> i
              then let q1 = pq_swap i n q; (moved, q2) = heap_down i n q1;
                       q3 = (if \<not> moved then heap_up i q2 else q2)
                   in pq_pop q3
              else pq_pop q)"

section \<open>Views of a queue\<close>

text \<open>The items in slice order: their values and their priorities.\<close>

definition pq_values :: "'v pqueue \<Rightarrow> 'v list" where
  "pq_values q = map (\<lambda>a. item_value (pq_store q ! a)) (pq_arr q)"

definition pq_keys :: "'v pqueue \<Rightarrow> instant list" where
  "pq_keys q = map (\<lambda>a. item_priority (pq_store q ! a)) (pq_arr q)"

text \<open>
  Well formed: the slice holds allocated items, each once, and each item's \<open>index\<close> is
  its position.
\<close>

definition pq_wf :: "'v pqueue \<Rightarrow> bool" where
  "pq_wf q \<longleftrightarrow> distinct (pq_arr q) \<and> set (pq_arr q) \<subseteq> {..<length (pq_store q)} \<and>
     (\<forall>i<pq_len q. item_index (pq_store q ! (pq_arr q ! i)) = int i)"

text \<open>The heap order of the first \<open>n\<close> keys, between nodes at or below \<open>m\<close>.\<close>

definition hpar :: "nat \<Rightarrow> nat" where
  "hpar x = (x - 1) div 2"

definition heap_from :: "nat \<Rightarrow> nat \<Rightarrow> instant list \<Rightarrow> bool" where
  "heap_from m n ks \<longleftrightarrow>
     (\<forall>x<n. 0 < x \<longrightarrow> m \<le> hpar x \<longrightarrow> ks ! hpar x \<le> ks ! x)"

definition pq_heap :: "'v pqueue \<Rightarrow> bool" where
  "pq_heap q \<longleftrightarrow> heap_from 0 (pq_len q) (pq_keys q)"

definition pq_inv :: "'v pqueue \<Rightarrow> bool" where
  "pq_inv q \<longleftrightarrow> pq_wf q \<and> pq_heap q"


section \<open>The store\<close>

lemma set_index_sel [simp]:
  "pq_arr (set_index a k q) = pq_arr q"
  "length (pq_store (set_index a k q)) = length (pq_store q)"
  "item_value (pq_store (set_index a k q) ! b) = item_value (pq_store q ! b)"
  "item_priority (pq_store (set_index a k q) ! b) = item_priority (pq_store q ! b)"
  by (simp_all add: set_index_def nth_list_update_total)

lemma set_index_index:
  "item_index (pq_store (set_index a k q) ! b) =
     (if b = a \<and> a < length (pq_store q) then k else item_index (pq_store q ! b))"
  by (simp add: set_index_def nth_list_update_total)

text \<open>Two queues over the same items, in any order and with any indices.\<close>

definition pq_same :: "'v pqueue \<Rightarrow> 'v pqueue \<Rightarrow> bool" where
  "pq_same q q' \<longleftrightarrow> mset (pq_arr q') = mset (pq_arr q) \<and>
     length (pq_store q') = length (pq_store q) \<and>
     (\<forall>a. item_value (pq_store q' ! a) = item_value (pq_store q ! a) \<and>
          item_priority (pq_store q' ! a) = item_priority (pq_store q ! a))"

lemma pq_same_refl [simp]: "pq_same q q"
  by (simp add: pq_same_def)

lemma pq_same_trans [trans]: "pq_same q r \<Longrightarrow> pq_same r s \<Longrightarrow> pq_same q s"
  by (simp add: pq_same_def)

lemma pq_sameD:
  assumes "pq_same q q'"
  shows pq_same_len: "pq_len q' = pq_len q"
    and pq_same_set: "set (pq_arr q') = set (pq_arr q)"
    and pq_same_store: "length (pq_store q') = length (pq_store q)"
    and pq_same_value: "item_value (pq_store q' ! a) = item_value (pq_store q ! a)"
    and pq_same_priority: "item_priority (pq_store q' ! a) = item_priority (pq_store q ! a)"
    and pq_same_values: "mset (pq_values q') = mset (pq_values q)"
proof -
  from assms have m: "mset (pq_arr q') = mset (pq_arr q)"
    and "length (pq_store q') = length (pq_store q)"
    and v: "\<And>a. item_value (pq_store q' ! a) = item_value (pq_store q ! a)"
    and p: "\<And>a. item_priority (pq_store q' ! a) = item_priority (pq_store q ! a)"
    by (simp_all add: pq_same_def)
  then show "length (pq_store q') = length (pq_store q)"
    "item_value (pq_store q' ! a) = item_value (pq_store q ! a)"
    "item_priority (pq_store q' ! a) = item_priority (pq_store q ! a)" by simp_all
  show "pq_len q' = pq_len q" using m by (metis pq_len_def mset_eq_length)
  show "set (pq_arr q') = set (pq_arr q)" using m by (rule mset_eq_setD)
  show "mset (pq_values q') = mset (pq_values q)"
    unfolding pq_values_def by (rule mset_map_cong [OF m]) (rule v)
qed

lemma length_pq_keys [simp]: "length (pq_keys q) = pq_len q"
  by (simp add: pq_keys_def pq_len_def)

lemma length_pq_values [simp]: "length (pq_values q) = pq_len q"
  by (simp add: pq_values_def pq_len_def)

lemma pq_prio_key: "i < pq_len q \<Longrightarrow> pq_prio q i = pq_keys q ! i"
  by (simp add: pq_prio_def pq_keys_def pq_len_def)

lemma pq_less_keys:
  "i < pq_len q \<Longrightarrow> j < pq_len q \<Longrightarrow> pq_less q i j \<longleftrightarrow> pq_keys q ! i < pq_keys q ! j"
  by (simp add: pq_less_def pq_prio_key time_simps)

section \<open>Swap\<close>

lemma pq_swap_sel [simp]:
  "pq_arr (pq_swap i j q) = (pq_arr q)[i := pq_arr q ! j, j := pq_arr q ! i]"
  "length (pq_store (pq_swap i j q)) = length (pq_store q)"
  "item_value (pq_store (pq_swap i j q) ! a) = item_value (pq_store q ! a)"
  "item_priority (pq_store (pq_swap i j q) ! a) = item_priority (pq_store q ! a)"
  by (simp_all add: pq_swap_def Let_def)

lemma pq_len_swap [simp]: "pq_len (pq_swap i j q) = pq_len q"
  by (simp add: pq_len_def)

lemma pq_same_swap: "i < pq_len q \<Longrightarrow> j < pq_len q \<Longrightarrow> pq_same q (pq_swap i j q)"
  by (simp add: pq_same_def pq_len_def)

lemma pq_keys_swap:
  "i < pq_len q \<Longrightarrow> j < pq_len q \<Longrightarrow>
   pq_keys (pq_swap i j q) = (pq_keys q)[i := pq_keys q ! j, j := pq_keys q ! i]"
  by (simp add: pq_keys_def pq_len_def map_update)

lemma pq_wf_swap:
  assumes wf: "pq_wf q" and i: "i < pq_len q" and j: "j < pq_len q"
  shows "pq_wf (pq_swap i j q)"
proof -
  let ?arr = "(pq_arr q)[i := pq_arr q ! j, j := pq_arr q ! i]"
  have len: "i < length (pq_arr q)" "j < length (pq_arr q)" using i j by (simp_all add: pq_len_def)
  have d: "distinct ?arr" and s: "set ?arr = set (pq_arr q)"
    using wf len by (simp_all add: pq_wf_def)
  have rng: "set ?arr \<subseteq> {..<length (pq_store q)}"
    unfolding s using wf by (simp add: pq_wf_def)
  have "item_index (pq_store (pq_swap i j q) ! (?arr ! k)) = int k" if k: "k < length (pq_arr q)" for k
  proof -
    have in_store: "?arr ! k < length (pq_store q)" if "k < length (pq_arr q)" for k
      using subsetD [OF rng nth_mem [of k ?arr]] that by simp
    have eq: "?arr ! k = ?arr ! l \<longleftrightarrow> k = l" if "l < length (pq_arr q)" for l
      using d k that by (simp add: nth_eq_iff_index_eq)
    have old: "k \<noteq> i \<Longrightarrow> k \<noteq> j \<Longrightarrow> item_index (pq_store q ! (?arr ! k)) = int k"
      using wf k len by (simp add: pq_wf_def pq_len_def)
    show ?thesis
      unfolding pq_swap_def Let_def set_index_index
      using in_store [OF k] eq [OF len(1)] eq [OF len(2)] old by auto
  qed
  then show ?thesis
    using d rng by (simp add: pq_wf_def pq_len_def)
qed

end
