(* ===== verification/Heap_Order.thy ===== *)
theory Heap_Order
  imports Item_Queue
begin

text \<open>
  The correctness of \<open>container/heap\<close> on the queue of items: every operation keeps the
  items, keeps each item's index equal to its position and restores the heap order, so the
  item at index 0 has a least priority. The section on key lists holds the one-step facts;
  the loops follow by computation induction.
\<close>

section \<open>Key lists: the heap order with one node out of place\<close>

lemma hpar_less: "0 < x \<Longrightarrow> hpar x < x"
  by (simp add: hpar_def)

lemma hpar_le: "hpar x \<le> x"
  by (simp add: hpar_def)

lemma hpar_child [simp]: "hpar (Suc (2 * i)) = i" "hpar (Suc (Suc (2 * i))) = i"
  by (simp_all add: hpar_def)

lemma hpar_eq_iff: "0 < x \<Longrightarrow> hpar x = i \<longleftrightarrow> x = Suc (2 * i) \<or> x = Suc (Suc (2 * i))"
  unfolding hpar_def by presburger

text \<open>Only the node \<open>i\<close> may be smaller than its parent.\<close>

definition heap_except_up :: "nat \<Rightarrow> instant list \<Rightarrow> nat \<Rightarrow> bool" where
  "heap_except_up n ks i \<longleftrightarrow> (\<forall>x<n. 0 < x \<longrightarrow>
     (x \<noteq> i \<longrightarrow> ks ! hpar x \<le> ks ! x) \<and>
     (hpar x = i \<longrightarrow> 0 < i \<longrightarrow> ks ! hpar i \<le> ks ! x))"

text \<open>The node \<open>i\<close> may be smaller than its parent or larger than its children.\<close>

definition heap_except :: "nat \<Rightarrow> nat \<Rightarrow> instant list \<Rightarrow> nat \<Rightarrow> bool" where
  "heap_except m n ks i \<longleftrightarrow> (\<forall>x<n. 0 < x \<longrightarrow>
     (m \<le> hpar x \<longrightarrow> x \<noteq> i \<longrightarrow> hpar x \<noteq> i \<longrightarrow> ks ! hpar x \<le> ks ! x) \<and>
     (hpar x = i \<longrightarrow> 0 < i \<longrightarrow> m \<le> hpar i \<longrightarrow> ks ! hpar i \<le> ks ! x))"

text \<open>Only the node \<open>i\<close> may be larger than its children.\<close>

definition heap_except_down :: "nat \<Rightarrow> nat \<Rightarrow> instant list \<Rightarrow> nat \<Rightarrow> bool" where
  "heap_except_down m n ks i \<longleftrightarrow> heap_except m n ks i \<and>
     (0 < i \<longrightarrow> i < n \<longrightarrow> m \<le> hpar i \<longrightarrow> ks ! hpar i \<le> ks ! i)"

lemma up_step:
  assumes h: "heap_except_up n ks j" and j: "0 < j" "j < n" and n: "n \<le> length ks"
    and less: "ks ! j < ks ! hpar j"
  shows "heap_except_up n (ks[hpar j := ks ! j, j := ks ! hpar j]) (hpar j)"
    (is "heap_except_up n ?swapped ?i")
proof -
  define K where "K = ?swapped"
  have ij: "?i < j" using j hpar_less by blast
  have val: "K ! k = (if k = j then ks ! ?i else if k = ?i then ks ! j else ks ! k)"
    if "k < n" for k
    using that j n ij by (simp add: K_def nth_list_swap)
  have ok: "ks ! hpar x \<le> ks ! x" if "x < n" "0 < x" "x \<noteq> j" for x
    using h that by (simp add: heap_except_up_def)
  have gp: "ks ! ?i \<le> ks ! x" if "x < n" "0 < x" "hpar x = j" for x
    using h that j by (simp add: heap_except_up_def)
  have 1: "K ! hpar x \<le> K ! x" if x: "x < n" "0 < x" "x \<noteq> ?i" for x
  proof -
    have px: "hpar x < n" "hpar x \<noteq> x" using hpar_less [of x] x by auto
    show ?thesis
      using ok [of x] gp [of x] less x px ij by (auto simp: val)
  qed
  have 2: "K ! hpar ?i \<le> K ! x" if x: "x < n" "0 < x" "hpar x = ?i" "0 < ?i" for x
  proof -
    have lt: "hpar ?i < ?i" using x hpar_less by blast
    then have "hpar ?i < n" "hpar ?i \<noteq> j" "hpar ?i \<noteq> ?i" "x \<noteq> ?i"
      using ij j x hpar_less [of x] by auto
    moreover have "ks ! hpar ?i \<le> ks ! ?i" using ok [of ?i] x ij j by auto
    moreover have "x \<noteq> j \<Longrightarrow> ks ! ?i \<le> ks ! x" using ok [of x] x by simp
    ultimately show ?thesis using x ij by (auto simp: val)
  qed
  show ?thesis unfolding K_def [symmetric] heap_except_up_def using 1 2 by blast
qed

lemma down_step:
  assumes h: "heap_except m n ks i" and m: "m \<le> i" and n: "n \<le> length ks"
    and j: "j < n" "0 < j" "hpar j = i"
    and least: "\<And>x. x < n \<Longrightarrow> 0 < x \<Longrightarrow> hpar x = i \<Longrightarrow> ks ! j \<le> ks ! x"
    and less: "ks ! j < ks ! i"
  shows "heap_except_down m n (ks[i := ks ! j, j := ks ! i]) j" (is "heap_except_down m n ?swapped j")
proof -
  define K where "K = ?swapped"
  have ij: "i < j" using j hpar_less by blast
  have val: "K ! k = (if k = j then ks ! i else if k = i then ks ! j else ks ! k)"
    if "k < n" for k
    using that j n ij by (simp add: K_def nth_list_swap)
  have ok: "ks ! hpar x \<le> ks ! x"
    if "x < n" "0 < x" "m \<le> hpar x" "x \<noteq> i" "hpar x \<noteq> i" for x
    using h that by (simp add: heap_except_def)
  have gp: "ks ! hpar i \<le> ks ! j" if "0 < i" "m \<le> hpar i"
    using h that j by (simp add: heap_except_def)
  have 1: "K ! hpar x \<le> K ! x" if x: "x < n" "0 < x" "m \<le> hpar x" "hpar x \<noteq> j" for x
  proof -
    have px: "hpar x < n" "hpar x \<noteq> x" using hpar_less [of x] x by auto
    show ?thesis
      using ok [of x] gp least [of x] less x px ij j by (auto simp: val)
  qed
  have 2: "K ! hpar j \<le> K ! x" if x: "x < n" "0 < x" "hpar x = j" for x
  proof -
    have "j < x" using x hpar_less [of x] by simp
    moreover have "ks ! j \<le> ks ! x" using ok [of x] x m ij \<open>j < x\<close> by auto
    ultimately show ?thesis using x ij j by (auto simp: val)
  qed
  have 3: "K ! hpar j \<le> K ! j" using less j ij by (simp add: val)
  show ?thesis
    unfolding K_def [symmetric] heap_except_down_def heap_except_def using 1 2 3 by blast
qed

lemma heap_except_down_done:
  assumes h: "heap_except_down m n ks i"
    and ch: "\<And>x. x < n \<Longrightarrow> 0 < x \<Longrightarrow> hpar x = i \<Longrightarrow> ks ! i \<le> ks ! x"
  shows "heap_from m n ks"
  unfolding heap_from_def
proof (intro allI impI)
  fix x assume x: "x < n" "0 < x" "m \<le> hpar x"
  show "ks ! hpar x \<le> ks ! x"
    using h ch [of x] x by (cases "hpar x = i"; cases "x = i")
      (auto simp: heap_except_down_def heap_except_def)
qed

lemma heap_except_up_doneI:
  assumes h: "heap_except 0 n ks i"
    and ch: "\<And>x. x < n \<Longrightarrow> 0 < x \<Longrightarrow> hpar x = i \<Longrightarrow> ks ! i \<le> ks ! x"
  shows "heap_except_up n ks i"
  using h ch by (auto simp: heap_except_up_def heap_except_def)

lemma heap_except_up_done:
  "heap_except_up n ks j \<Longrightarrow> j = 0 \<or> ks ! hpar j \<le> ks ! j \<Longrightarrow> heap_from 0 n ks"
  by (auto simp: heap_except_up_def heap_from_def)

lemma heap_from_root_least:
  assumes h: "heap_from 0 n ks" and x: "x < n"
  shows "ks ! 0 \<le> ks ! x"
  using x
proof (induction x rule: less_induct)
  case (less x)
  show ?case
  proof (cases "x = 0")
    case False
    then have "hpar x < x" by (simp add: hpar_less)
    with less have "ks ! 0 \<le> ks ! hpar x" by simp
    also have "\<dots> \<le> ks ! x" using h less.prems False by (simp add: heap_from_def)
    finally show ?thesis .
  qed simp
qed


section \<open>up\<close>

text \<open>What \<open>up\<close> from inside the first \<open>n\<close> positions leaves alone.\<close>

definition pq_frame :: "nat \<Rightarrow> 'v pqueue \<Rightarrow> 'v pqueue \<Rightarrow> bool" where
  "pq_frame n q q' \<longleftrightarrow> pq_same q q' \<and> (pq_wf q \<longrightarrow> pq_wf q') \<and>
     (\<forall>k. n \<le> k \<longrightarrow> pq_arr q' ! k = pq_arr q ! k)"

lemma pq_frame_refl [simp]: "pq_frame n q q"
  by (simp add: pq_frame_def)

lemma pq_frame_trans: "pq_frame n q r \<Longrightarrow> pq_frame n r s \<Longrightarrow> pq_frame n q s"
  unfolding pq_frame_def by (metis pq_same_trans)

lemma pq_frame_same: "pq_frame n q q' \<Longrightarrow> pq_same q q'"
  by (simp add: pq_frame_def)

lemma pq_frame_len: "pq_frame n q q' \<Longrightarrow> pq_len q' = pq_len q"
  by (blast dest: pq_frame_same pq_same_len)

lemma pq_frame_swap: "i < n \<Longrightarrow> j < n \<Longrightarrow> n \<le> pq_len q \<Longrightarrow> pq_frame n q (pq_swap i j q)"
  by (simp add: pq_frame_def pq_same_swap pq_wf_swap nth_list_update_total)

lemma heap_up_unfold:
  "heap_up j q = (if hpar j = j \<or> \<not> pq_less q j (hpar j) then q
                  else heap_up (hpar j) (pq_swap (hpar j) j q))"
  unfolding hpar_def by (subst heap_up.simps) (simp add: Let_def)

lemma heap_up_frame: "j < n \<Longrightarrow> n \<le> pq_len q \<Longrightarrow> pq_frame n q (heap_up j q)"
proof (induction j q rule: heap_up.induct)
  case (1 j q)
  define i where "i = hpar j"
  have i: "i = (j - 1) div 2" by (simp add: i_def hpar_def)
  show ?case
  proof (cases "i = j \<or> \<not> pq_less q j i")
    case True
    then show ?thesis by (simp add: heap_up_unfold [of j q] i_def [symmetric])
  next
    case False
    then have "i < n" using "1.prems" hpar_le [of j] by (simp add: i_def)
    with "1.prems" have "pq_frame n q (pq_swap i j q)" by (simp add: pq_frame_swap)
    moreover have "pq_frame n (pq_swap i j q) (heap_up i (pq_swap i j q))"
      by (rule "1.IH" [OF i False]) (use \<open>i < n\<close> "1.prems" in simp_all)
    ultimately show ?thesis
      using False by (simp add: heap_up_unfold [of j q] i_def [symmetric])
        (rule pq_frame_trans)
  qed
qed

lemma heap_up_order:
  "j < n \<Longrightarrow> n \<le> pq_len q \<Longrightarrow> heap_except_up n (pq_keys q) j \<Longrightarrow>
   heap_from 0 n (pq_keys (heap_up j q))"
proof (induction j q rule: heap_up.induct)
  case (1 j q)
  define i where "i = hpar j"
  have i: "i = (j - 1) div 2" and ip: "i = hpar j" by (simp_all add: i_def hpar_def)
  have len: "j < pq_len q" "i < pq_len q" using "1.prems" hpar_le [of j] ip by auto
  note less = pq_less_keys [OF len]
  show ?case
  proof (cases "i = j \<or> \<not> pq_less q j i")
    case True
    have "j = 0 \<or> pq_keys q ! hpar j \<le> pq_keys q ! j"
      using True less ip hpar_less [of j] by (cases "j = 0") auto
    with "1.prems" have "heap_from 0 n (pq_keys q)" by (blast intro: heap_except_up_done)
    with True show ?thesis by (simp add: heap_up_unfold [of j q] i_def [symmetric])
  next
    case False
    then have j0: "0 < j" by (cases "j = 0") (auto simp: i)
    have "heap_except_up n (pq_keys (pq_swap i j q)) i"
      using up_step [of n "pq_keys q" j] False "1.prems" j0 less ip len
      by (simp add: pq_keys_swap)
    then have "heap_from 0 n (pq_keys (heap_up i (pq_swap i j q)))"
      by (intro "1.IH" [OF i False]) (use "1.prems" hpar_le [of j] ip in simp_all)
    with False show ?thesis by (simp add: heap_up_unfold [of j q] i_def [symmetric])
  qed
qed

section \<open>down\<close>

text \<open>
  One iteration of \<open>down\<close>: either the loop stops with no smaller child, or it swaps the
  node with a least child that is smaller and goes on from there.
\<close>

lemma heap_down_loop_cases:
  assumes i: "i < n" and n: "n \<le> pq_len q"
  obtains (stop) "heap_down_loop i n q = (i, q)"
      "\<And>x. x < n \<Longrightarrow> 0 < x \<Longrightarrow> hpar x = i \<Longrightarrow> pq_keys q ! i \<le> pq_keys q ! x"
  | (move) j where "heap_down_loop i n q = heap_down_loop j n (pq_swap i j q)"
      "i < j" "j < n" "hpar j = i" "pq_keys q ! j < pq_keys q ! i"
      "\<And>x. x < n \<Longrightarrow> 0 < x \<Longrightarrow> hpar x = i \<Longrightarrow> pq_keys q ! j \<le> pq_keys q ! x"
proof (cases "n \<le> 2 * i + 1")
  case True
  then have "heap_down_loop i n q = (i, q)" by (simp add: heap_down_loop.simps Let_def)
  moreover have "\<not> (x < n \<and> 0 < x \<and> hpar x = i)" for x
    using True hpar_eq_iff [of x i] by auto
  ultimately show ?thesis using stop by blast
next
  case False
  define j where "j = (if 2 * i + 2 < n \<and> pq_less q (2 * i + 2) (2 * i + 1)
                       then 2 * i + 2 else 2 * i + 1)"
  have j: "i < j" "j < n" "hpar j = i" using False by (auto simp: j_def)
  have less: "pq_less q x y \<longleftrightarrow> pq_keys q ! x < pq_keys q ! y" if "x < n" "y < n" for x y
    using that n by (intro pq_less_keys) auto
  have least: "pq_keys q ! j \<le> pq_keys q ! x" if x: "x < n" "0 < x" "hpar x = i" for x
    using x False by (auto simp: j_def less hpar_eq_iff)
  have eq: "heap_down_loop i n q =
      (if \<not> pq_less q j i then (i, q) else heap_down_loop j n (pq_swap i j q))"
    using False by (simp add: heap_down_loop.simps [of i n q] j_def Let_def)
  show ?thesis
  proof (cases "pq_less q j i")
    case True
    with eq j least less i show ?thesis by (intro move [of j]) auto
  next
    case stays: False
    then have "pq_keys q ! i \<le> pq_keys q ! j" using less j i by auto
    with stays eq least show ?thesis by (intro stop) (auto intro: order.trans)
  qed
qed

lemma heap_down_loop_induct [consumes 2, case_names stop move]:
  assumes "i < n" and "n \<le> pq_len q"
    and "\<And>i q. \<lbrakk>i < n; n \<le> pq_len q; heap_down_loop i n q = (i, q);
           \<And>x. x < n \<Longrightarrow> 0 < x \<Longrightarrow> hpar x = i \<Longrightarrow> pq_keys q ! i \<le> pq_keys q ! x\<rbrakk> \<Longrightarrow> P i q"
    and "\<And>i j q. \<lbrakk>i < n; n \<le> pq_len q;
           heap_down_loop i n q = heap_down_loop j n (pq_swap i j q);
           i < j; j < n; hpar j = i; pq_keys q ! j < pq_keys q ! i;
           \<And>x. x < n \<Longrightarrow> 0 < x \<Longrightarrow> hpar x = i \<Longrightarrow> pq_keys q ! j \<le> pq_keys q ! x;
           P j (pq_swap i j q)\<rbrakk> \<Longrightarrow> P i q"
  shows "P i q"
  using assms(1,2)
proof (induction "n - i" arbitrary: i q rule: less_induct)
  case less
  show ?case
  proof (cases rule: heap_down_loop_cases [OF less.prems])
    case 1
    then show ?thesis using less.prems by (intro assms(3))
  next
    case (2 j)
    have "P j (pq_swap i j q)" by (rule less.hyps) (use 2 less.prems in auto)
    then show ?thesis by (intro assms(4) [OF less.prems 2])
  qed
qed

lemma heap_down_loop_frame:
  assumes "i < n" and "n \<le> pq_len q"
  shows "i \<le> fst (heap_down_loop i n q) \<and> pq_frame n q (snd (heap_down_loop i n q))"
  using assms
proof (induction rule: heap_down_loop_induct)
  case (move i j q)
  then have "pq_frame n q (pq_swap i j q)" by (intro pq_frame_swap) auto
  with move show ?case by (auto intro: pq_frame_trans)
qed simp

lemma heap_down_loop_order:
  assumes "i < n" and "n \<le> pq_len q"
  shows "m \<le> i \<Longrightarrow> heap_except_down m n (pq_keys q) i \<Longrightarrow>
     heap_from m n (pq_keys (snd (heap_down_loop i n q)))"
  using assms
proof (induction rule: heap_down_loop_induct)
  case (stop i q)
  then show ?case by (auto intro: heap_except_down_done)
next
  case (move i j q)
  have "heap_except_down m n (pq_keys (pq_swap i j q)) j"
    using down_step [of m n "pq_keys q" i j] move by (auto simp: pq_keys_swap heap_except_down_def)
  with move show ?case by simp
qed

text \<open>\<open>down\<close> says it moved the item exactly when it did.\<close>

lemma heap_down_order:
  assumes "i < n" and "n \<le> pq_len q" and "heap_except 0 n (pq_keys q) i"
  shows "case heap_down i n q of (moved, q') \<Rightarrow>
     if moved then heap_from 0 n (pq_keys q') else q' = q \<and> heap_except_up n (pq_keys q) i"
proof (cases rule: heap_down_loop_cases [OF assms(1,2)])
  case 1
  then show ?thesis
    using heap_except_up_doneI [OF assms(3)] by (auto simp: heap_down_def Let_def)
next
  case (2 j)
  let ?q = "pq_swap i j q"
  have "heap_except_down 0 n (pq_keys ?q) j"
    using down_step [of 0 n "pq_keys q" i j] 2 assms by (auto simp: pq_keys_swap)
  then have "heap_from 0 n (pq_keys (snd (heap_down_loop j n ?q)))"
    using 2 assms by (intro heap_down_loop_order) auto
  moreover have "j \<le> fst (heap_down_loop j n ?q)"
    using heap_down_loop_frame [of j n ?q] 2 assms by simp
  ultimately show ?thesis
    using 2 by (auto simp: heap_down_def split: prod.splits)
qed

lemma heap_down_frame:
  "i < n \<Longrightarrow> n \<le> pq_len q \<Longrightarrow> pq_frame n q (snd (heap_down i n q))"
  using heap_down_loop_frame [of i n q] by (auto simp: heap_down_def split: prod.splits)


section \<open>Init\<close>

lemma heap_from_leaves: "heap_from (n div 2) n ks"
  unfolding heap_from_def hpar_def by presburger

lemma heap_from_except_down: "heap_from (Suc i) n ks \<Longrightarrow> heap_except_down i n ks i"
  using hpar_less [of i] by (auto simp: heap_from_def heap_except_down_def heap_except_def)

lemma heap_init_loop_correct:
  "n = pq_len q \<Longrightarrow> i \<le> n \<Longrightarrow> heap_from i n (pq_keys q) \<Longrightarrow>
   pq_frame n q (heap_init_loop i n q) \<and> heap_from 0 n (pq_keys (heap_init_loop i n q))"
proof (induction i arbitrary: q)
  case (Suc i)
  let ?q = "snd (heap_down i n q)"
  have i: "i < n" using Suc.prems by simp
  have frame: "pq_frame n q ?q" using i Suc.prems by (intro heap_down_frame) simp_all
  then have "pq_len ?q = n" using Suc.prems by (simp add: pq_same_len [OF pq_frame_same])
  moreover have "heap_from i n (pq_keys ?q)"
    using heap_down_loop_order [of i n q i] heap_from_except_down [OF Suc.prems(3)] i Suc.prems
    by (auto simp: heap_down_def split: prod.splits)
  ultimately have "pq_frame n ?q (heap_init_loop i n ?q) \<and>
      heap_from 0 n (pq_keys (heap_init_loop i n ?q))"
    using Suc.IH [of ?q] i by simp
  with frame show ?case by (auto intro: pq_frame_trans)
qed simp

lemma heap_init_correct:
  assumes "pq_wf q"
  shows "pq_inv (heap_init q)" and "pq_same q (heap_init q)"
proof -
  have "pq_frame (pq_len q) q (heap_init q) \<and> heap_from 0 (pq_len q) (pq_keys (heap_init q))"
    unfolding heap_init_def by (intro heap_init_loop_correct) (simp_all add: heap_from_leaves)
  then show "pq_inv (heap_init q)" and "pq_same q (heap_init q)"
    using assms by (auto simp: pq_inv_def pq_heap_def pq_frame_def dest: pq_same_len)
qed

section \<open>Push\<close>

lemma pq_alloc_eq: "pq_alloc it q = (a, q') \<longleftrightarrow>
    a = length (pq_store q) \<and> q' = q\<lparr>pq_store := pq_store q @ [it]\<rparr>"
  by (auto simp: pq_alloc_def)

lemma pq_alloc_wf:
  assumes "pq_wf q" and "pq_alloc it q = (a, q')"
  shows "pq_wf q'"
proof -
  have "x < length (pq_store q)" if "x \<in> set (pq_arr q)" for x
    using assms that by (auto simp: pq_wf_def)
  then show ?thesis
    using assms by (force simp: pq_alloc_eq pq_wf_def pq_len_def nth_append)
qed

lemma pq_alloc_keys:
  assumes "pq_wf q" and "pq_alloc it q = (a, q')"
  shows "pq_keys q' = pq_keys q" and "pq_values q' = pq_values q"
proof -
  have "x < length (pq_store q)" if "x \<in> set (pq_arr q)" for x
    using assms that by (auto simp: pq_wf_def)
  then show "pq_keys q' = pq_keys q" and "pq_values q' = pq_values q"
    using assms by (auto simp: pq_alloc_eq pq_keys_def pq_values_def nth_append)
qed

lemma pq_push_sel [simp]:
  "pq_arr (pq_push a q) = pq_arr q @ [a]"
  "length (pq_store (pq_push a q)) = length (pq_store q)"
  "item_value (pq_store (pq_push a q) ! b) = item_value (pq_store q ! b)"
  "item_priority (pq_store (pq_push a q) ! b) = item_priority (pq_store q ! b)"
  by (simp_all add: pq_push_def Let_def)

lemma pq_push_wf:
  assumes wf: "pq_wf q" and a: "a < length (pq_store q)" "a \<notin> set (pq_arr q)"
  shows "pq_wf (pq_push a q)"
proof -
  have "item_index (pq_store (pq_push a q) ! ((pq_arr q @ [a]) ! i)) = int i"
    if i: "i < Suc (pq_len q)" for i
  proof (cases "i = pq_len q")
    case True
    then show ?thesis using a by (simp add: pq_push_def Let_def set_index_index pq_len_def)
  next
    case False
    then have "i < length (pq_arr q)" using i by (simp add: pq_len_def)
    moreover from this have "pq_arr q ! i \<noteq> a" using a by auto
    ultimately show ?thesis
      using wf by (simp add: pq_push_def Let_def set_index_index nth_append pq_wf_def pq_len_def)
  qed
  then show ?thesis using wf a by (simp add: pq_wf_def pq_len_def)
qed

lemma heap_push_correct:
  assumes inv: "pq_inv q" and a: "a < length (pq_store q)" "a \<notin> set (pq_arr q)"
  shows "pq_inv (heap_push a q)" and "pq_same (pq_push a q) (heap_push a q)"
proof -
  let ?q = "pq_push a q"
  have wf: "pq_wf ?q" using inv a by (simp add: pq_push_wf pq_inv_def)
  have len: "pq_len ?q = Suc (pq_len q)" by (simp add: pq_len_def)
  have keys: "pq_keys ?q = pq_keys q @ [item_priority (pq_store q ! a)]"
    by (simp add: pq_keys_def)
  have h: "heap_from 0 (pq_len q) (pq_keys q)" using inv by (simp add: pq_inv_def pq_heap_def)
  have "pq_keys ?q ! hpar x \<le> pq_keys ?q ! x" if "0 < x" "x < pq_len q" for x
    using h that hpar_less [of x] by (simp add: keys nth_append heap_from_def)
  moreover have "hpar x \<noteq> pq_len q" if "0 < x" "x < Suc (pq_len q)" for x
    using hpar_less [OF that(1)] that by simp
  ultimately have "heap_except_up (Suc (pq_len q)) (pq_keys ?q) (pq_len q)"
    by (auto simp: heap_except_up_def less_Suc_eq)
  then have "heap_from 0 (Suc (pq_len q)) (pq_keys (heap_up (pq_len q) ?q))"
    by (intro heap_up_order) (simp_all add: len)
  moreover have "pq_frame (Suc (pq_len q)) ?q (heap_up (pq_len q) ?q)"
    by (intro heap_up_frame) (simp_all add: len)
  moreover have "heap_push a q = heap_up (pq_len q) ?q"
    by (simp add: heap_push_def len)
  ultimately show "pq_inv (heap_push a q)" and "pq_same ?q (heap_push a q)"
    using wf by (auto simp: pq_inv_def pq_heap_def pq_frame_def len dest: pq_same_len)
qed

section \<open>Pop and Remove\<close>

text \<open>The slice \<open>Pop\<close> after the loops have put the victim last.\<close>

lemma pq_pop_correct:
  assumes wf: "pq_wf q" and len: "pq_len q \<noteq> 0"
    and heap: "heap_from 0 (pq_len q - 1) (pq_keys q)"
  obtains q' where "pq_pop q = Some (pq_arr q ! (pq_len q - 1), q')" and "pq_inv q'"
    and "mset (pq_arr q) = add_mset (pq_arr q ! (pq_len q - 1)) (mset (pq_arr q'))"
    and "length (pq_store q') = length (pq_store q)"
    and "\<And>b. item_value (pq_store q' ! b) = item_value (pq_store q ! b)"
    and "\<And>b. item_priority (pq_store q' ! b) = item_priority (pq_store q ! b)"
proof -
  define n a where "n = pq_len q - 1" and "a = pq_arr q ! n"
  define q' where "q' = set_index a (-1) (q\<lparr>pq_arr := take n (pq_arr q)\<rparr>)"
  have n: "length (pq_arr q) = Suc n" using len by (simp add: n_def pq_len_def)
  have arr: "pq_arr q = take n (pq_arr q) @ [a]"
    using n take_Suc_conv_app_nth [of n "pq_arr q"] by (simp add: a_def)
  have arr': "pq_arr q' = take n (pq_arr q)" by (simp add: q'_def)
  have "a \<notin> set (pq_arr q')" and "distinct (pq_arr q')" and "set (pq_arr q') \<subseteq> set (pq_arr q)"
    using wf arr by (simp_all add: pq_wf_def arr' distinct_append set_take_subset)
      (metis distinct_append disjoint_iff list.set_intros(1))+
  moreover have "item_index (pq_store q' ! (pq_arr q' ! i)) = int i" if "i < n" for i
  proof -
    have "pq_arr q' ! i \<in> set (pq_arr q')" using that n by (intro nth_mem) (simp add: arr')
    with \<open>a \<notin> set (pq_arr q')\<close> have "pq_arr q' ! i \<noteq> a" by blast
    then show ?thesis
      using wf that n by (simp add: q'_def set_index_index pq_wf_def pq_len_def)
  qed
  ultimately have "pq_wf q'"
    using wf n by (auto simp: pq_wf_def pq_len_def arr' q'_def)
  moreover have "pq_keys q' = take n (pq_keys q)"
    by (simp add: pq_keys_def q'_def take_map)
  then have "pq_heap q'"
    using heap n by (auto simp: pq_heap_def heap_from_def pq_len_def arr' hpar_def)
  ultimately have inv: "pq_inv q'" by (simp add: pq_inv_def)
  show ?thesis
  proof (rule that [OF _ inv])
    show "pq_pop q = Some (pq_arr q ! (pq_len q - 1), q')"
      using len by (simp add: pq_pop_def Let_def q'_def a_def n_def)
    show "mset (pq_arr q) = add_mset (pq_arr q ! (pq_len q - 1)) (mset (pq_arr q'))"
      unfolding arr' using arr by (metis a_def n_def mset_append mset.simps union_commute add_mset_add_single)
  qed (simp_all add: q'_def)
qed


text \<open>
  What taking one address out of a queue means: the address \<open>a\<close> leaves the slice, every
  item keeps its value and priority, and the queue is in order again.
\<close>

definition pq_taken :: "'v pqueue \<Rightarrow> addr \<Rightarrow> 'v pqueue \<Rightarrow> bool" where
  "pq_taken q a q' \<longleftrightarrow> pq_inv q' \<and> mset (pq_arr q) = add_mset a (mset (pq_arr q')) \<and>
     length (pq_store q') = length (pq_store q) \<and>
     (\<forall>b. item_value (pq_store q' ! b) = item_value (pq_store q ! b) \<and>
          item_priority (pq_store q' ! b) = item_priority (pq_store q ! b))"

lemma pq_takenI_same:
  "pq_same q q1 \<Longrightarrow> pq_taken q1 a q' \<Longrightarrow> pq_taken q a q'"
  by (simp add: pq_taken_def pq_same_def)

lemma pq_pop_taken:
  assumes "pq_wf q" and "pq_len q \<noteq> 0" and "heap_from 0 (pq_len q - 1) (pq_keys q)"
  shows "\<exists>q'. pq_pop q = Some (pq_arr q ! (pq_len q - 1), q') \<and>
              pq_taken q (pq_arr q ! (pq_len q - 1)) q'"
  using assms by (elim pq_pop_correct) (auto simp: pq_taken_def)

text \<open>
  After an item has been swapped to the end, the others are a heap but for the position
  the last one came to.
\<close>

lemma heap_except_after_swap:
  assumes h: "heap_from 0 (Suc n) ks" and i: "i < n" and len: "length ks = Suc n"
  shows "heap_except 0 n (ks[i := ks ! n, n := ks ! i]) i"
proof -
  define K where "K = ks[i := ks ! n, n := ks ! i]"
  have val: "K ! k = (if k = i then ks ! n else ks ! k)" if "k < n" for k
    using that i len by (simp add: K_def nth_list_swap)
  have ok: "ks ! hpar x \<le> ks ! x" if "0 < x" "x < n" for x
    using h that by (simp add: heap_from_def)
  have 1: "K ! hpar x \<le> K ! x" if "x < n" "0 < x" "x \<noteq> i" "hpar x \<noteq> i" for x
    using that ok [of x] hpar_less [of x] by (simp add: val)
  have 2: "K ! hpar i \<le> K ! x" if "x < n" "0 < x" "hpar x = i" "0 < i" for x
  proof -
    have "ks ! hpar i \<le> ks ! i" and "ks ! i \<le> ks ! x"
      using ok [of i] ok [of x] that i by simp_all
    moreover have "hpar i < i" and "i < x" using that hpar_less by auto
    ultimately show ?thesis using that i by (simp add: val)
  qed
  show ?thesis unfolding heap_except_def K_def [symmetric] using 1 2 by blast
qed

lemma pq_swap_last_order:
  assumes inv: "pq_inv q" and i: "i < pq_len q - 1"
  shows "heap_except 0 (pq_len q - 1) (pq_keys (pq_swap i (pq_len q - 1) q)) i"
  using heap_except_after_swap [of "pq_len q - 1" "pq_keys q" i] inv i
  by (simp add: pq_inv_def pq_heap_def pq_keys_swap)

text \<open>\<open>heap.Remove\<close> takes exactly the item at the given position out of the queue.\<close>

lemma heap_remove_correct:
  assumes inv: "pq_inv q" and i: "i < pq_len q"
  shows "\<exists>q'. heap_remove (int i) q = Some (pq_arr q ! i, q') \<and> pq_taken q (pq_arr q ! i) q'"
proof -
  define n where "n = pq_len q - 1"
  have wf: "pq_wf q" and heap: "heap_from 0 (pq_len q) (pq_keys q)"
    using inv by (simp_all add: pq_inv_def pq_heap_def)
  have len: "pq_len q = Suc n" using i by (simp add: n_def)
  show ?thesis
  proof (cases "i = n")
    case True
    have "heap_from 0 (pq_len q - 1) (pq_keys q)" using heap by (auto simp: heap_from_def)
    from pq_pop_taken [OF wf _ this] True i show ?thesis
      by (simp add: heap_remove_def len)
  next
    case False
    then have i': "i < n" using i len by simp
    define q1 where "q1 = pq_swap i n q"
    obtain moved q2 where down: "heap_down i n q1 = (moved, q2)" by fastforce
    define q3 where "q3 = (if \<not> moved then heap_up i q2 else q2)"
    have len1: "pq_len q1 = Suc n" by (simp add: q1_def len)
    have "heap_except 0 n (pq_keys q1) i"
      using pq_swap_last_order [OF inv, of i] i' by (simp add: q1_def n_def)
    from heap_down_order [OF i' _ this] have
      order: "if moved then heap_from 0 n (pq_keys q2)
              else q2 = q1 \<and> heap_except_up n (pq_keys q1) i"
      by (simp add: down len1)
    have frame2: "pq_frame n q1 q2" using heap_down_frame [OF i', of q1] by (simp add: down len1)
    then have len2: "pq_len q2 = Suc n" using len1 by (simp add: pq_frame_len)
    have frame3: "pq_frame n q1 q3"
      using frame2 heap_up_frame [OF i', of q2] len2 by (auto simp: q3_def intro: pq_frame_trans)
    have heap3: "heap_from 0 n (pq_keys q3)"
      using order heap_up_order [OF i', of q2] len2 by (auto simp: q3_def split: if_splits)
    have same1: "pq_same q q1" using i len by (simp add: q1_def pq_same_swap)
    have wf3: "pq_wf q3" using frame3 wf i len by (simp add: pq_frame_def q1_def pq_wf_swap)
    have len3: "pq_len q3 = Suc n" using frame3 len1 by (simp add: pq_frame_len)
    have last: "pq_arr q3 ! n = pq_arr q ! i"
      using frame3 i' len by (simp add: pq_frame_def q1_def nth_list_swap pq_len_def)
    from pq_pop_taken [OF wf3] heap3 len3 last obtain q' where
      "pq_pop q3 = Some (pq_arr q ! i, q')" "pq_taken q3 (pq_arr q ! i) q'" by auto
    moreover have "pq_same q q3" using same1 frame3 pq_frame_same pq_same_trans by blast
    moreover have "heap_remove (int i) q = pq_pop q3"
      using i' by (simp add: heap_remove_def len Let_def q1_def [symmetric] down q3_def)
    ultimately show ?thesis using pq_takenI_same by auto
  qed
qed

text \<open>\<open>heap.Pop\<close> is \<open>heap.Remove\<close> of the root, whose priority is least.\<close>

lemma heap_pop_correct:
  assumes inv: "pq_inv q" and len: "pq_len q \<noteq> 0"
  shows "\<exists>q'. heap_pop q = Some (pq_arr q ! 0, q') \<and> pq_taken q (pq_arr q ! 0) q'"
proof -
  define n where "n = pq_len q - 1"
  have n: "pq_len q = Suc n" using len by (simp add: n_def)
  have wf: "pq_wf q" using inv by (simp add: pq_inv_def)
  define q1 where "q1 = pq_swap 0 n q"
  obtain moved q2 where down: "heap_down 0 n q1 = (moved, q2)" by fastforce
  have len1: "pq_len q1 = Suc n" by (simp add: q1_def n)
  have "pq_frame n q1 q2 \<and> heap_from 0 n (pq_keys q2)"
  proof (cases "n = 0")
    case True
    then show ?thesis
      using down by (simp add: heap_down_def heap_down_loop.simps heap_from_def Let_def)
  next
    case False
    then have "heap_except 0 n (pq_keys q1) 0"
      using pq_swap_last_order [OF inv, of 0] by (simp add: q1_def n)
    then have "heap_except_down 0 n (pq_keys q1) 0" by (simp add: heap_except_down_def)
    then show ?thesis
      using heap_down_loop_order [of 0 n q1 0] heap_down_frame [of 0 n q1] False len1 down
      by (auto simp: heap_down_def split: prod.splits)
  qed
  then have frame: "pq_frame n q1 q2" and heap: "heap_from 0 n (pq_keys q2)" by blast+
  have len2: "pq_len q2 = Suc n" using frame len1 by (simp add: pq_frame_len)
  have wf2: "pq_wf q2" using frame wf n by (simp add: pq_frame_def q1_def pq_wf_swap)
  have last: "pq_arr q2 ! n = pq_arr q ! 0"
    using frame n by (simp add: pq_frame_def q1_def nth_list_swap pq_len_def)
  from pq_pop_taken [OF wf2] heap len2 last obtain q' where
    "pq_pop q2 = Some (pq_arr q ! 0, q')" "pq_taken q2 (pq_arr q ! 0) q'" by auto
  moreover have "pq_same q q1" using n by (simp add: q1_def pq_same_swap)
  then have "pq_same q q2" using frame pq_frame_same pq_same_trans by blast
  moreover have "heap_pop q = pq_pop q2"
    by (simp add: heap_pop_def n q1_def [symmetric] down)
  ultimately show ?thesis using pq_takenI_same by auto
qed

lemma pq_root_least:
  assumes "pq_inv q" and "a \<in> set (pq_arr q)"
  shows "item_priority (pq_store q ! (pq_arr q ! 0)) \<le> item_priority (pq_store q ! a)"
proof -
  from assms(2) obtain i where i: "i < pq_len q" "pq_arr q ! i = a"
    by (auto simp: in_set_conv_nth pq_len_def)
  have "pq_keys q ! 0 \<le> pq_keys q ! i"
    using heap_from_root_least [of "pq_len q" "pq_keys q" i] assms(1) i
    by (simp add: pq_inv_def pq_heap_def)
  moreover have "0 < pq_len q" using i by simp
  ultimately show ?thesis using i by (simp add: pq_keys_def pq_len_def)
qed

section \<open>What clients use\<close>

text \<open>Allocating an item and pushing it: the other items stay as they are.\<close>

definition pq_added :: "'v pqueue \<Rightarrow> addr \<Rightarrow> 'v item \<Rightarrow> 'v pqueue \<Rightarrow> bool" where
  "pq_added q a it q' \<longleftrightarrow> pq_inv q' \<and> a \<notin> set (pq_arr q) \<and>
     mset (pq_arr q') = add_mset a (mset (pq_arr q)) \<and>
     item_value (pq_store q' ! a) = item_value it \<and>
     item_priority (pq_store q' ! a) = item_priority it \<and>
     (\<forall>b \<in> set (pq_arr q). item_value (pq_store q' ! b) = item_value (pq_store q ! b) \<and>
          item_priority (pq_store q' ! b) = item_priority (pq_store q ! b))"

lemma heap_insert_correct:
  assumes inv: "pq_inv q" and alloc: "pq_alloc it q = (a, q1)"
  shows "pq_added q a it (heap_push a q1)"
proof -
  have a: "a = length (pq_store q)" and q1: "q1 = q\<lparr>pq_store := pq_store q @ [it]\<rparr>"
    using alloc by (simp_all add: pq_alloc_eq)
  have wf: "pq_wf q" using inv by (simp add: pq_inv_def)
  have bd: "b < length (pq_store q)" if "b \<in> set (pq_arr q)" for b
    using wf that by (auto simp: pq_wf_def)
  have inv1: "pq_inv q1"
    using inv pq_alloc_wf [OF wf alloc] pq_alloc_keys [OF wf alloc] q1
    by (simp add: pq_inv_def pq_heap_def pq_len_def)
  have fresh: "a < length (pq_store q1)" "a \<notin> set (pq_arr q1)" using bd by (auto simp: a q1)
  note push = heap_push_correct [OF inv1 fresh]
  from push(2) have "mset (pq_arr (heap_push a q1)) = add_mset a (mset (pq_arr q))"
    and "\<And>b. item_value (pq_store (heap_push a q1) ! b) = item_value (pq_store q1 ! b)"
    and "\<And>b. item_priority (pq_store (heap_push a q1) ! b) = item_priority (pq_store q1 ! b)"
    by (simp_all add: pq_same_def q1)
  then show ?thesis
    using push(1) fresh bd by (auto simp: pq_added_def q1 a nth_append)
qed

lemma pq_added_set: "pq_added q a it q' \<Longrightarrow> set (pq_arr q') = insert a (set (pq_arr q))"
  unfolding pq_added_def by (metis set_mset_mset set_mset_add_mset_insert)

lemma pq_taken_set:
  assumes "pq_inv q" and "pq_taken q a q'"
  shows "set (pq_arr q) = insert a (set (pq_arr q'))" and "a \<notin> set (pq_arr q')"
proof -
  have m: "mset (pq_arr q) = add_mset a (mset (pq_arr q'))" using assms(2) by (simp add: pq_taken_def)
  then show "set (pq_arr q) = insert a (set (pq_arr q'))"
    by (metis set_mset_mset set_mset_add_mset_insert)
  have "distinct (pq_arr q)" using assms(1) by (simp add: pq_inv_def pq_wf_def)
  moreover have "mset (pq_arr q) = mset (a # pq_arr q')" using m by simp
  ultimately have "distinct (a # pq_arr q')" by (metis mset_eq_imp_distinct_iff)
  then show "a \<notin> set (pq_arr q')" by simp
qed

lemma pq_index_arr:
  assumes "pq_inv q" and "a \<in> set (pq_arr q)"
  obtains i where "item_index (pq_store q ! a) = int i" and "i < pq_len q" and "pq_arr q ! i = a"
  using assms by (auto simp: in_set_conv_nth pq_len_def pq_inv_def pq_wf_def)

lemma pq_inv_empty [simp]: "pq_inv empty_pq"
  by (simp add: pq_inv_def pq_wf_def pq_heap_def heap_from_def empty_pq_def pq_len_def)

lemma heap_init_empty [simp]: "heap_init empty_pq = (empty_pq :: 'v pqueue)"
  by (simp add: heap_init_def empty_pq_def pq_len_def)

end
