(* ===== verification/Min_Queue.thy ===== *)
theory Min_Queue
  imports Heap_Order
begin

text \<open>
  The contract of a queue that hands out its least element first, as an interface: what the
  clients of the heap rely on. The order in which elements come out is proved once from the
  contract; the heap of items (here) and a spoke (theory \<open>Spoke\<close>) provide it.
\<close>

text \<open>Taking up to \<open>n\<close> elements out, until the queue is empty.\<close>

fun drain_with :: "('q \<Rightarrow> ('a \<times> 'q) option) \<Rightarrow> nat \<Rightarrow> 'q \<Rightarrow> 'a list \<times> 'q" where
  "drain_with pop 0 q = ([], q)"
| "drain_with pop (Suc n) q =
     (case pop q of None \<Rightarrow> ([], q)
      | Some (a, q1) \<Rightarrow> (let (as, q2) = drain_with pop n q1 in (a # as, q2)))"

lemma drain_with_Suc_cases:
  assumes "drain_with pop (Suc n) q = (as, q')"
  obtains (none) "pop q = None" "as = []" "q' = q"
  | (some) a q1 bs where "pop q = Some (a, q1)" "drain_with pop n q1 = (bs, q')" "as = a # bs"
  using assms that by (auto split: option.splits prod.splits)

locale pop_queue =
  fixes pop :: "'q \<Rightarrow> ('a \<times> 'q) option"
    and inv :: "'q \<Rightarrow> bool"
    and content :: "'q \<Rightarrow> 'a multiset"
  assumes pop_None: "inv q \<Longrightarrow> pop q = None \<longleftrightarrow> content q = {#}"
    and pop_inv: "inv q \<Longrightarrow> pop q = Some (a, q') \<Longrightarrow> inv q'"
    and pop_content: "inv q \<Longrightarrow> pop q = Some (a, q') \<Longrightarrow> content q = add_mset a (content q')"
begin

lemma drain_content:
  "inv q \<Longrightarrow> drain_with pop n q = (as, q') \<Longrightarrow> inv q' \<and> content q = mset as + content q'"
proof (induction n arbitrary: q as)
  case (Suc n)
  from Suc.prems(2) show ?case
  proof (cases rule: drain_with_Suc_cases)
    case none
    then show ?thesis using Suc.prems by simp
  next
    case (some a q1 bs)
    then show ?thesis
      using Suc.IH [of q1 bs] pop_inv [OF Suc.prems(1)] pop_content [OF Suc.prems(1)] by simp
  qed
qed simp

lemma drain_length:
  "inv q \<Longrightarrow> drain_with pop n q = (as, q') \<Longrightarrow> length as = min n (size (content q))"
proof (induction n arbitrary: q as)
  case (Suc n)
  from Suc.prems(2) show ?case
  proof (cases rule: drain_with_Suc_cases)
    case none
    then show ?thesis using pop_None [OF Suc.prems(1)] by simp
  next
    case (some a q1 bs)
    then show ?thesis
      using Suc.IH [of q1 bs] pop_inv [OF Suc.prems(1)] pop_content [OF Suc.prems(1)] by simp
  qed
qed simp

text \<open>As many attempts as there are elements empty the queue.\<close>

lemma drain_all:
  assumes "inv q" and "size (content q) \<le> n" and "drain_with pop n q = (as, q')"
  shows "mset as = content q \<and> content q' = {#}"
proof -
  from drain_content [OF assms(1,3)] have c: "content q = mset as + content q'" by simp
  have "length as = size (content q)" using drain_length [OF assms(1,3)] assms(2) by simp
  then have "size (content q') = 0" by (simp add: c)
  then show ?thesis using c by simp
qed

end

text \<open>A queue that hands out an element with the least key.\<close>

locale min_queue = pop_queue +
  fixes key :: "'b \<Rightarrow> int"
  assumes pop_least: "inv q \<Longrightarrow> pop q = Some (a, q') \<Longrightarrow> b \<in># content q \<Longrightarrow> key a \<le> key b"
begin

text \<open>Everything comes out before anything with a larger key, and in order.\<close>

lemma drain_sorted:
  "inv q \<Longrightarrow> drain_with pop n q = (as, q') \<Longrightarrow>
   sorted (map key as) \<and> (\<forall>a \<in> set as. \<forall>b \<in># content q'. key a \<le> key b)"
proof (induction n arbitrary: q as)
  case (Suc n)
  from Suc.prems(2) show ?case
  proof (cases rule: drain_with_Suc_cases)
    case none
    then show ?thesis by simp
  next
    case (some a q1 bs)
    have q1: "inv q1" using Suc.prems(1) some pop_inv by blast
    have "content q = add_mset a (content q1)" using Suc.prems(1) some pop_content by blast
    moreover have "content q1 = mset bs + content q'" using drain_content [OF q1] some by simp
    ultimately have "\<forall>b \<in> set bs. key a \<le> key b" and "\<forall>b \<in># content q'. key a \<le> key b"
      using pop_least [OF Suc.prems(1) some(1)] by auto
    with Suc.IH [OF q1] some show ?thesis by auto
  qed
qed simp

end

section \<open>The heap of items provides the contract\<close>

text \<open>\<open>heap.Pop(q).(*Item)\<close>, seen through the item's value and priority.\<close>

definition heap_pop_entry :: "'v pqueue \<Rightarrow> (('v \<times> instant) \<times> 'v pqueue) option" where
  "heap_pop_entry q =
     (case heap_pop q of None \<Rightarrow> None
      | Some (a, q') \<Rightarrow>
          Some ((item_value (pq_store q' ! a), item_priority (pq_store q' ! a)), q'))"

definition pq_entry :: "'v pqueue \<Rightarrow> addr \<Rightarrow> 'v \<times> instant" where
  "pq_entry q a = (item_value (pq_store q ! a), item_priority (pq_store q ! a))"

definition pq_entries :: "'v pqueue \<Rightarrow> ('v \<times> instant) multiset" where
  "pq_entries q = image_mset (pq_entry q) (mset (pq_arr q))"

lemma pq_taken_entries:
  assumes "pq_taken q a q'"
  shows "pq_entry q' = pq_entry q" and "pq_entries q = add_mset (pq_entry q a) (pq_entries q')"
proof -
  show e: "pq_entry q' = pq_entry q"
    using assms by (auto simp: pq_taken_def pq_entry_def)
  show "pq_entries q = add_mset (pq_entry q a) (pq_entries q')"
    using assms by (simp add: pq_entries_def e pq_taken_def)
qed

lemma pq_added_entries:
  assumes "pq_added q a it q'"
  shows "pq_entries q' = add_mset (item_value it, item_priority it) (pq_entries q)"
proof -
  have "image_mset (pq_entry q') (mset (pq_arr q)) = image_mset (pq_entry q) (mset (pq_arr q))"
    using assms by (intro image_mset_cong) (auto simp: pq_added_def pq_entry_def)
  then show ?thesis using assms by (simp add: pq_added_def pq_entries_def) (simp add: pq_entry_def)
qed

lemma pq_entries_same: "pq_same q q' \<Longrightarrow> pq_entries q' = pq_entries q"
  unfolding pq_same_def pq_entries_def by (auto simp: pq_entry_def intro: image_mset_cong)

lemma pq_entries_empty: "pq_entries q = {#} \<longleftrightarrow> pq_len q = 0"
  by (simp add: pq_entries_def pq_len_def)

lemma size_pq_entries [simp]: "size (pq_entries q) = pq_len q"
  by (simp add: pq_entries_def pq_len_def)

lemma heap_pop_entry_cases:
  assumes "pq_inv q"
  shows "heap_pop_entry q = None \<longleftrightarrow> pq_entries q = {#}"
    and "heap_pop_entry q = Some (e, q') \<Longrightarrow>
         pq_inv q' \<and> pq_entries q = add_mset e (pq_entries q') \<and> (\<forall>b \<in># pq_entries q. snd e \<le> snd b)"
proof -
  show none: "heap_pop_entry q = None \<longleftrightarrow> pq_entries q = {#}"
    using heap_pop_correct [OF assms]
    by (cases "pq_len q = 0") (auto simp: heap_pop_entry_def heap_pop_def pq_entries_empty)
  assume some: "heap_pop_entry q = Some (e, q')"
  then have "pq_len q \<noteq> 0" using none pq_entries_empty [of q] by force
  from heap_pop_correct [OF assms this] some have e: "e = pq_entry q' (pq_arr q ! 0)"
    and t: "pq_taken q (pq_arr q ! 0) q'"
    by (auto simp: heap_pop_entry_def pq_entry_def)
  have "\<forall>b \<in># pq_entries q. snd e \<le> snd b"
    using pq_root_least [OF assms] unfolding e pq_taken_entries(1) [OF t]
    by (auto simp: pq_entries_def pq_entry_def)
  with t pq_taken_entries [OF t] e
  show "pq_inv q' \<and> pq_entries q = add_mset e (pq_entries q') \<and> (\<forall>b \<in># pq_entries q. snd e \<le> snd b)"
    by (simp add: pq_taken_def)
qed

interpretation heapq: min_queue heap_pop_entry pq_inv pq_entries snd
  by unfold_locales (use heap_pop_entry_cases in blast)+

section \<open>Properties\<close>

text \<open>Inserting a list of values with their priorities.\<close>

fun heap_push_all :: "('v \<times> instant) list \<Rightarrow> 'v pqueue \<Rightarrow> 'v pqueue" where
  "heap_push_all [] q = q"
| "heap_push_all ((v, p) # xs) q =
     (let (a, q1) = pq_alloc (new_item v p) q in heap_push_all xs (heap_push a q1))"

lemma heap_push_all_inv:
  "pq_inv q \<Longrightarrow> pq_inv (heap_push_all xs q) \<and> pq_entries (heap_push_all xs q) = mset xs + pq_entries q"
proof (induction xs q rule: heap_push_all.induct)
  case (2 v p xs q)
  obtain a q1 where a: "pq_alloc (new_item v p) q = (a, q1)" by fastforce
  from heap_insert_correct [OF 2(2) a] have added: "pq_added q a (new_item v p) (heap_push a q1)" .
  then have "pq_inv (heap_push a q1)" by (simp add: pq_added_def)
  with 2(1) [OF a [symmetric] refl] pq_added_entries [OF added] a show ?case
    by (simp add: new_item_def)
qed simp

lemma pq_entries_empty_pq: "pq_entries empty_pq = {#}"
  by (simp add: pq_entries_def empty_pq_def)

text \<open>
  C25: The heap sorts: whatever values with priorities are pushed onto an empty queue, popping
  as many times gives exactly these values, in the order of their priorities, and empties it.
\<close>

theorem heap_sorts:
  "let (es, q) = drain_with heap_pop_entry (length xs) (heap_push_all xs (empty_pq :: 'v pqueue))
   in sorted (map snd es) \<and> mset es = mset xs \<and> pq_len q = 0"
proof -
  let ?q = "heap_push_all xs (empty_pq :: 'v pqueue)"
  have inv: "pq_inv ?q" and c: "pq_entries ?q = mset xs"
    using heap_push_all_inv [OF pq_inv_empty, of xs] by (simp_all add: pq_entries_empty_pq)
  obtain es q where d: "drain_with heap_pop_entry (length xs) ?q = (es, q)" by fastforce
  have "mset es = mset xs \<and> pq_entries q = {#}"
    using heapq.drain_all [OF inv _ d] by (simp add: c)
  moreover have "sorted (map snd es)" using heapq.drain_sorted [OF inv d] by simp
  ultimately show ?thesis using d by (simp add: pq_entries_empty)
qed

text \<open>
  C26: An item of the heap can be taken out through the index it carries: \<open>heap.Remove\<close>
  with this index does not panic, takes exactly this item and keeps the heap in order, the
  indices of all others included.
\<close>

theorem heap_remove_by_index:
  assumes "pq_inv q" and "a \<in> set (pq_arr q)"
  shows "\<exists>q'. heap_remove (item_index (pq_store q ! a)) q = Some (a, q') \<and> pq_inv q' \<and>
    mset (pq_arr q) = add_mset a (mset (pq_arr q')) \<and>
    (\<forall>i < pq_len q'. item_index (pq_store q' ! (pq_arr q' ! i)) = int i)"
proof -
  obtain i where i: "item_index (pq_store q ! a) = int i" "i < pq_len q" "pq_arr q ! i = a"
    using pq_index_arr [OF assms] by blast
  then show ?thesis
    using heap_remove_correct [OF assms(1) i(2)] by (auto simp: pq_taken_def pq_inv_def pq_wf_def)
qed

theorem heap_remove_by_index_witness:
  "let q = heap_push_all [(''x'', 5), (''y'', 3)] empty_pq
   in \<exists>q'. heap_remove (item_index (pq_store q ! 1)) q = Some (1, q') \<and> pq_inv q' \<and>
      mset (pq_arr q) = add_mset 1 (mset (pq_arr q')) \<and>
      (\<forall>i < pq_len q'. item_index (pq_store q' ! (pq_arr q' ! i)) = int i)"
proof -
  let ?q = "heap_push_all [(''x'', 5), (''y'', 3)] empty_pq"
  have "pq_inv ?q" using heap_push_all_inv [OF pq_inv_empty] by blast
  moreover have "1 \<in> set (pq_arr ?q)" by code_simp
  ultimately show ?thesis unfolding Let_def by (rule heap_remove_by_index)
qed

end
