(* ===== verification/Temporal_Bound.thy ===== *)
theory Temporal_Bound
  imports Go_Time
begin

text \<open>
  \<open>internal/temporal\<close>: the classification of an object in time (\<open>state.go\<close>) and the
  half-open time interval of a spoke (\<open>bound.go\<close>). Methods that read the clock take the
  reading as an argument \<open>now\<close>.
\<close>

datatype temporal_state = Past | Current | Future

record bound =
  b_start :: instant
  b_end :: instant

definition new_bound :: "instant \<Rightarrow> instant \<Rightarrow> bound" where
  "new_bound s e = \<lparr>b_start = s, b_end = e\<rparr>"

definition bound_contains :: "bound \<Rightarrow> bound \<Rightarrow> bool" where
  "bound_contains sb ob \<longleftrightarrow>
     sint (t_sub (b_start sb) (b_start ob)) \<le> 0 \<and> t_after (b_end sb) (b_end ob)"

definition contains_time :: "bound \<Rightarrow> instant \<Rightarrow> bool" where
  "contains_time sb t \<longleftrightarrow> sint (t_sub (b_start sb) t) \<le> 0 \<and> t_after (b_end sb) t"

definition is_started :: "instant \<Rightarrow> bound \<Rightarrow> bool" where
  "is_started now sb \<longleftrightarrow> t_after now (b_start sb)"

definition is_expired :: "instant \<Rightarrow> bound \<Rightarrow> bool" where
  "is_expired now sb \<longleftrightarrow> t_after now (b_end sb)"

section \<open>Facts\<close>

lemma new_bound_sel [simp]: "b_start (new_bound s e) = s" "b_end (new_bound s e) = e"
  by (simp_all add: new_bound_def)

text \<open>The saturating subtraction of the code decides the order of the instants exactly.\<close>

lemma contains_time_iff [time_simps]: "contains_time sb t \<longleftrightarrow> b_start sb \<le> t \<and> t < b_end sb"
  by (simp add: contains_time_def time_simps)

lemma bound_contains_iff [time_simps]:
  "bound_contains sb ob \<longleftrightarrow> b_start sb \<le> b_start ob \<and> b_end ob < b_end sb"
  by (simp add: bound_contains_def time_simps)

lemma is_expired_iff [time_simps]: "is_expired now sb \<longleftrightarrow> b_end sb < now"
  by (simp add: is_expired_def time_simps)

lemma is_started_iff [time_simps]: "is_started now sb \<longleftrightarrow> b_start sb < now"
  by (simp add: is_started_def time_simps)

lemma contains_time_not_expired_later:
  "contains_time sb t \<Longrightarrow> is_expired now sb \<Longrightarrow> t < now"
  by (simp add: time_simps)

end
