(* ===== verification/Job.thy ===== *)
theory Job
  imports Min_Queue Temporal_Bound
begin

text \<open>
  \<open>pkg/chronomq/job.go\<close> and \<open>globalid.go\<close>: the unit of work, its classification in
  time, the bound of the spoke that should hold it, and the identifiers the server makes up.
\<close>

record job =
  job_id :: string
  trigger_at :: instant
  body :: bytes
  pri :: "32 word"
  ttr :: duration

definition new_job :: "string \<Rightarrow> instant \<Rightarrow> bytes \<Rightarrow> job" where
  "new_job jid t b = \<lparr>job_id = jid, trigger_at = t, body = b, pri = 0, ttr = 0\<rparr>"

text \<open>\<open>atomic.AddUint64(&globalIDCtr, 1)\<close>: the new value of the counter, twice.\<close>

definition next_id :: "64 word \<Rightarrow> 64 word \<times> 64 word" where
  "next_id ctr = (ctr + 1, ctr + 1)"

text \<open>\<open>fmt.Sprintf("%d", n)\<close> of an unsigned number.\<close>

definition digit_char :: "nat \<Rightarrow> char" where
  "digit_char d = (char_of (48 + d) :: char)"

fun sprintf_d :: "nat \<Rightarrow> string" where
  "sprintf_d n =
     (if n < 10 then [digit_char n] else sprintf_d (n div 10) @ [digit_char (n mod 10)])"

declare sprintf_d.simps [simp del]

definition new_job_auto_id :: "64 word \<Rightarrow> instant \<Rightarrow> bytes \<Rightarrow> job \<times> 64 word" where
  "new_job_auto_id ctr t b =
     (let (n, ctr') = next_id ctr
      in (\<lparr>job_id = sprintf_d (unat n), trigger_at = t, body = b, pri = 0, ttr = 0\<rparr>, ctr'))"

text \<open>
  \<open>unsafe.Sizeof(Job{})\<close> on a 64-bit platform: a string (16 bytes), a \<open>time.Time\<close>
  (24), a slice (24), an \<open>int32\<close> padded to 8 and a \<open>time.Duration\<close> (8).
\<close>

definition size_overhead :: "64 word" where
  "size_overhead = 80"

definition size_of :: "job \<Rightarrow> 64 word" where
  "size_of j = size_overhead + word_of_nat (length (body j) + length (job_id j))"

definition job_temporal_state :: "instant \<Rightarrow> job \<Rightarrow> temporal_state" where
  "job_temporal_state now j =
     (if t_after now (trigger_at j) then Past
      else if t_after (trigger_at j) now then Future
      else Past)"

definition set_opts :: "32 word \<Rightarrow> duration \<Rightarrow> job \<Rightarrow> job" where
  "set_opts p d j = j\<lparr>pri := p, ttr := d\<rparr>"

definition is_ready :: "instant \<Rightarrow> job \<Rightarrow> bool" where
  "is_ready now j = t_after now (trigger_at j)"

definition as_bound :: "duration \<Rightarrow> job \<Rightarrow> bound" where
  "as_bound span j =
     (let s = t_truncate (trigger_at j) span; e = t_add s span in new_bound s e)"

definition job_priority_item :: "job \<Rightarrow> job item" where
  "job_priority_item j = new_item j (trigger_at j)"

section \<open>Facts\<close>

lemma job_temporal_state_eq [time_simps]:
  "job_temporal_state now j = Past \<longleftrightarrow> trigger_at j \<le> now"
  "job_temporal_state now j = Future \<longleftrightarrow> now < trigger_at j"
  "job_temporal_state now j \<noteq> Current"
  by (auto simp: job_temporal_state_def time_simps)

lemma job_priority_item_sel [simp]:
  "item_value (job_priority_item j) = j" "item_priority (job_priority_item j) = trigger_at j"
  by (simp_all add: job_priority_item_def new_item_def)

lemma as_bound_sel:
  "b_start (as_bound span j) = t_truncate (trigger_at j) span"
  "b_end (as_bound span j) = t_truncate (trigger_at j) span + sint span"
  by (simp_all add: as_bound_def Let_def t_add_def)

lemma as_bound_contains_iff:
  "contains_time (as_bound span j) (trigger_at j) \<longleftrightarrow> 0 < sint span"
  using t_truncate_gt [of span "trigger_at j"]
  by (auto simp: contains_time_iff as_bound_sel t_truncate_le) (simp add: t_truncate_def split: if_splits)

text \<open>Two jobs of one bound lie in one slot of the grid; jobs of later slots trigger later.\<close>

definition aligned :: "duration \<Rightarrow> bound \<Rightarrow> bool" where
  "aligned span b \<longleftrightarrow> 0 < sint span \<and> b_start b mod sint span = 0 \<and>
     b_end b = b_start b + sint span"

lemma as_bound_aligned: "0 < sint span \<Longrightarrow> aligned span (as_bound span j)"
  by (simp add: aligned_def as_bound_sel t_truncate_multiple)

lemma aligned_determined:
  assumes "aligned span b" and "aligned span c" and "contains_time b t" and "contains_time c t"
  shows "b = c"
proof -
  have "b_start x = (t div sint span) * sint span" if x: "aligned span x" "contains_time x t" for x
  proof -
    from x obtain k where k: "b_start x = k * sint span"
      by (metis aligned_def dvdE mod_0_imp_dvd mult.commute)
    have "t div sint span = k"
      using x k by (intro int_div_pos_eq [of t "sint span" k "t - k * sint span"])
        (auto simp: aligned_def contains_time_iff)
    then show ?thesis by (simp add: k)
  qed
  with assms have "b_start b = b_start c" by simp
  with assms show ?thesis by (simp add: aligned_def bound.equality)
qed

lemma aligned_before:
  assumes "aligned span b" and "aligned span c" and "b_start b < b_start c"
  shows "b_end b \<le> b_start c"
proof -
  from assms obtain k l where k: "b_start b = k * sint span" and l: "b_start c = l * sint span"
    by (metis aligned_def dvdE mod_0_imp_dvd mult.commute)
  have "0 < sint span" using assms by (simp add: aligned_def)
  then have "k < l" using assms(3) k l by simp
  then have "(k + 1) * sint span \<le> l * sint span"
    using \<open>0 < sint span\<close> by (intro mult_right_mono) auto
  then show ?thesis using assms k l by (simp add: aligned_def algebra_simps)
qed

section \<open>Properties\<close>

text \<open>
  C29: The bound of a job is the one cell of the grid of the span that holds its trigger
  time, and no other.
\<close>

theorem job_bound_unique:
  assumes "0 < sint span"
  shows "contains_time (as_bound span j) (trigger_at j) \<and>
    b_end (as_bound span j) - b_start (as_bound span j) = sint span \<and>
    (\<forall>b. aligned span b \<and> contains_time b (trigger_at j) \<longrightarrow> b = as_bound span j)"
  using assms aligned_determined as_bound_aligned [OF assms]
  by (auto simp: as_bound_contains_iff as_bound_sel)

theorem job_bound_unique_witness:
  "contains_time (as_bound 10 (new_job ''a'' 1015 [])) (trigger_at (new_job ''a'' 1015 [])) \<and>
   b_start (as_bound 10 (new_job ''a'' 1015 [])) = 1010"
  using job_bound_unique [of 10 "new_job ''a'' 1015 []"]
  by (simp add: as_bound_sel t_truncate_def new_job_def)

end
