(* ===== verification/Spoke.thy ===== *)
theory Spoke
  imports Job
begin

text \<open>
  \<open>pkg/chronomq/spoke.go\<close>: a time-bounded chain of jobs, kept twice: in a heap ordered by
  trigger time and in a map from job id to the heap item of that job. The uuid of a spoke
  only appears in log lines and is left out; the mutex is held for the whole of each
  operation, so an operation is one step.
\<close>

datatype go_error =
    ErrJobOutOfSpokeBounds
  | ErrCannotFindJob
  | ErrNoOwnerSpoke
  | ErrDuplicateJob string
  | ErrNoSpokeForJob

record spoke =
  spoke_bound :: bound
  job_map :: "string \<rightharpoonup> addr"
  job_queue :: "job pqueue"

definition new_spoke :: "instant \<Rightarrow> instant \<Rightarrow> spoke" where
  "new_spoke s e =
     \<lparr>spoke_bound = new_bound s e, job_map = Map.empty, job_queue = heap_init empty_pq\<rparr>"

definition new_spoke_from_now :: "instant \<Rightarrow> duration \<Rightarrow> spoke" where
  "new_spoke_from_now now d = new_spoke now (t_add now d)"

definition is_job_in_bounds :: "job \<Rightarrow> spoke \<Rightarrow> bool" where
  "is_job_in_bounds j s = contains_time (spoke_bound s) (trigger_at j)"

definition job_at_idx :: "nat \<Rightarrow> spoke \<Rightarrow> job option" where
  "job_at_idx i s = map_option item_value (pq_at (job_queue s) i)"

text \<open>
  The two clock readings of \<open>AsTemporalState\<close>. Both of its last branches return
  \<open>Current\<close>.
\<close>

definition spoke_temporal_state :: "instant \<Rightarrow> instant \<Rightarrow> spoke \<Rightarrow> temporal_state" where
  "spoke_temporal_state now1 now2 s =
     (if is_expired now1 (spoke_bound s) then Past
      else if is_started now2 (spoke_bound s) then Current
      else Current)"

definition spoke_add :: "job \<Rightarrow> spoke \<Rightarrow> go_error + spoke" where
  "spoke_add j s =
     (if \<not> is_job_in_bounds j s then Inl ErrJobOutOfSpokeBounds
      else let (a, q1) = pq_alloc (job_priority_item j) (job_queue s);
               s1 = s\<lparr>job_map := (job_map s)(job_id j \<mapsto> a)\<rparr>
           in Inr (s1\<lparr>job_queue := heap_push a q1\<rparr>))"

definition pending_jobs_len :: "spoke \<Rightarrow> nat" where
  "pending_jobs_len s = pq_len (job_queue s)"

definition spoke_next :: "instant \<Rightarrow> spoke \<Rightarrow> (job option \<times> spoke) option" where
  "spoke_next now s =
     (if pq_len (job_queue s) = 0 then Some (None, s)
      else case pq_at (job_queue s) 0 of
        None \<Rightarrow> None
      | Some i \<Rightarrow>
          (let j = item_value i
           in case job_temporal_state now j of
                Future \<Rightarrow> Some (None, s)
              | _ \<Rightarrow>
                (let s1 = s\<lparr>job_map := (job_map s)(job_id j := None)\<rparr>
                 in case heap_pop (job_queue s1) of
                      None \<Rightarrow> None
                    | Some (_, q) \<Rightarrow> Some (Some j, s1\<lparr>job_queue := q\<rparr>))))"

definition spoke_cancel :: "string \<Rightarrow> spoke \<Rightarrow> ((go_error + job) \<times> spoke) option" where
  "spoke_cancel jid s =
     (case job_map s jid of
        Some a \<Rightarrow>
          (let s1 = s\<lparr>job_map := (job_map s)(jid := None)\<rparr>
           in case heap_remove (item_index (pq_store (job_queue s) ! a)) (job_queue s1) of
                None \<Rightarrow> None
              | Some (_, q) \<Rightarrow>
                  Some (Inr (item_value (pq_store q ! a)), s1\<lparr>job_queue := q\<rparr>))
      | None \<Rightarrow> Some (Inl ErrCannotFindJob, s))"

definition owns_job :: "string \<Rightarrow> spoke \<Rightarrow> bool" where
  "owns_job jid s \<longleftrightarrow> job_map s jid \<noteq> None"

definition spoke_priority_item :: "addr \<Rightarrow> spoke \<Rightarrow> addr item" where
  "spoke_priority_item a s = new_item a (b_start (spoke_bound s))"

section \<open>Invariant\<close>

text \<open>The jobs a spoke holds.\<close>

definition queue_job :: "spoke \<Rightarrow> addr \<Rightarrow> job" where
  "queue_job s a = item_value (pq_store (job_queue s) ! a)"

definition spoke_jobs :: "spoke \<Rightarrow> job multiset" where
  "spoke_jobs s = image_mset (queue_job s) (mset (pq_arr (job_queue s)))"

text \<open>
  What every operation keeps, whatever ids the jobs have: the heap is in order with the
  trigger times as priorities, every job lies in the bound, and the map only points at
  queued items of that id.
\<close>

definition spoke_inv :: "spoke \<Rightarrow> bool" where
  "spoke_inv s \<longleftrightarrow> pq_inv (job_queue s) \<and>
     (\<forall>a \<in> set (pq_arr (job_queue s)).
        item_priority (pq_store (job_queue s) ! a) = trigger_at (queue_job s a) \<and>
        contains_time (spoke_bound s) (trigger_at (queue_job s a))) \<and>
     (\<forall>jid a. job_map s jid = Some a \<longrightarrow>
        a \<in> set (pq_arr (job_queue s)) \<and> job_id (queue_job s a) = jid)"

text \<open>
  What holds besides as long as no two jobs of the spoke share an id: the map knows every
  queued item.
\<close>

definition spoke_mapped :: "spoke \<Rightarrow> bool" where
  "spoke_mapped s \<longleftrightarrow> (\<forall>a \<in> set (pq_arr (job_queue s)). job_map s (job_id (queue_job s a)) = Some a)"

definition spoke_ids :: "spoke \<Rightarrow> string set" where
  "spoke_ids s = job_id ` set_mset (spoke_jobs s)"


section \<open>The operations keep the invariant\<close>

lemma new_spoke_sel [spoke_simps]:
  "spoke_bound (new_spoke b e) = new_bound b e"
  "spoke_jobs (new_spoke b e) = {#}"
  "spoke_inv (new_spoke b e)"
  "spoke_mapped (new_spoke b e)"
  "pending_jobs_len (new_spoke b e) = 0"
  by (simp_all add: new_spoke_def spoke_jobs_def spoke_inv_def spoke_mapped_def
      pending_jobs_len_def pq_len_def) (simp_all add: empty_pq_def)

lemma spoke_temporal_state_never_future:
  "spoke_temporal_state now1 now2 s = (if is_expired now1 (spoke_bound s) then Past else Current)"
  by (simp add: spoke_temporal_state_def)

lemma pending_jobs_len_size: "pending_jobs_len s = size (spoke_jobs s)"
  by (simp add: pending_jobs_len_def spoke_jobs_def pq_len_def)

lemma pending_jobs_len_0 [spoke_simps]: "pending_jobs_len s = 0 \<longleftrightarrow> spoke_jobs s = {#}"
  by (simp add: pending_jobs_len_size)

lemma spoke_jobs_in_bounds:
  "spoke_inv s \<Longrightarrow> j \<in># spoke_jobs s \<Longrightarrow> contains_time (spoke_bound s) (trigger_at j)"
  by (auto simp: spoke_inv_def spoke_jobs_def)

lemma spoke_ids_iff: "jid \<in> spoke_ids s \<longleftrightarrow>
    (\<exists>a \<in> set (pq_arr (job_queue s)). job_id (queue_job s a) = jid)"
  by (auto simp: spoke_ids_def spoke_jobs_def)

lemma spoke_invD:
  assumes "spoke_inv s"
  shows spoke_inv_pq: "pq_inv (job_queue s)"
    and spoke_inv_prio: "a \<in> set (pq_arr (job_queue s)) \<Longrightarrow>
      item_priority (pq_store (job_queue s) ! a) = trigger_at (queue_job s a)"
    and spoke_inv_bound: "a \<in> set (pq_arr (job_queue s)) \<Longrightarrow>
      contains_time (spoke_bound s) (trigger_at (queue_job s a))"
    and spoke_inv_map: "job_map s jid = Some a \<Longrightarrow>
      a \<in> set (pq_arr (job_queue s)) \<and> job_id (queue_job s a) = jid"
  using assms by (auto simp: spoke_inv_def)

lemma owns_job_ids: "spoke_inv s \<Longrightarrow> owns_job jid s \<Longrightarrow> jid \<in> spoke_ids s"
  by (auto simp: owns_job_def spoke_ids_iff dest: spoke_inv_map)

lemma spoke_mapped_owns:
  "spoke_inv s \<Longrightarrow> spoke_mapped s \<Longrightarrow> owns_job jid s \<longleftrightarrow> jid \<in> spoke_ids s"
  by (auto simp: spoke_ids_iff spoke_mapped_def owns_job_def dest: owns_job_ids [unfolded spoke_ids_iff owns_job_def])

lemma spoke_add_cases:
  assumes inv: "spoke_inv s"
  obtains (reject) "\<not> is_job_in_bounds j s" "spoke_add j s = Inl ErrJobOutOfSpokeBounds"
  | (accept) s' where "is_job_in_bounds j s" "spoke_add j s = Inr s'" "spoke_inv s'"
      "spoke_bound s' = spoke_bound s" "spoke_jobs s' = add_mset j (spoke_jobs s)"
      "spoke_mapped s \<Longrightarrow> job_id j \<notin> spoke_ids s \<Longrightarrow> spoke_mapped s'"
proof (cases "is_job_in_bounds j s")
  case False
  then show ?thesis using reject by (simp add: spoke_add_def)
next
  case True
  obtain a q1 where alloc: "pq_alloc (job_priority_item j) (job_queue s) = (a, q1)" by fastforce
  let ?q = "heap_push a q1"
  have "pq_inv (job_queue s)" using inv by (simp add: spoke_inv_def)
  from heap_insert_correct [OF this alloc]
  have added: "pq_added (job_queue s) a (job_priority_item j) ?q" .
  note set_q = pq_added_set [OF added]
  define t where "t = s\<lparr>job_map := (job_map s)(job_id j \<mapsto> a), job_queue := ?q\<rparr>"
  have t: "job_queue t = ?q" "job_map t = (job_map s)(job_id j \<mapsto> a)"
    "spoke_bound t = spoke_bound s" by (simp_all add: t_def)
  have new: "queue_job t a = j" and a: "a \<notin> set (pq_arr (job_queue s))"
    using added by (simp_all add: queue_job_def pq_added_def t)
  have old: "queue_job t b = queue_job s b" if "b \<in> set (pq_arr (job_queue s))" for b
    using added that by (simp add: queue_job_def pq_added_def t)
  have prio: "item_priority (pq_store ?q ! b) = trigger_at (queue_job t b)"
    if "b \<in> set (pq_arr ?q)" for b
    using that added new old spoke_inv_prio [OF inv] unfolding set_q pq_added_def by auto
  show ?thesis
  proof (rule accept [OF True])
    show "spoke_add j s = Inr t" using True by (simp add: spoke_add_def alloc t_def)
    show "spoke_jobs t = add_mset j (spoke_jobs s)"
      using added new old by (auto simp: spoke_jobs_def pq_added_def t intro: image_mset_cong)
    show "spoke_inv t"
      unfolding spoke_inv_def t set_q
    proof (intro conjI ballI allI impI)
      show "pq_inv ?q" using added by (simp add: pq_added_def)
    next
      fix b assume b: "b \<in> insert a (set (pq_arr (job_queue s)))"
      then show "item_priority (pq_store ?q ! b) = trigger_at (queue_job t b)"
        using prio set_q by blast
      show "contains_time (spoke_bound s) (trigger_at (queue_job t b))"
        using b new old True spoke_inv_bound [OF inv] by (auto simp: is_job_in_bounds_def)
    next
      fix jid b assume "((job_map s)(job_id j \<mapsto> a)) jid = Some b"
      then show "b \<in> insert a (set (pq_arr (job_queue s)))" and "job_id (queue_job t b) = jid"
        using new old spoke_inv_map [OF inv] by (auto split: if_splits)
    qed
    show "spoke_mapped t" if "spoke_mapped s" "job_id j \<notin> spoke_ids s"
      using that new old unfolding spoke_mapped_def t set_q spoke_ids_iff by auto
    show "spoke_bound t = spoke_bound s" by (simp add: t)
  qed
qed

text \<open>Taking one queued item out, together with its entry of the map.\<close>

lemma spoke_remove:
  assumes inv: "spoke_inv s" and a: "a \<in> set (pq_arr (job_queue s))"
    and taken: "pq_taken (job_queue s) a q" and jid: "jid = job_id (queue_job s a)"
  defines "s' \<equiv> s\<lparr>job_map := (job_map s)(jid := None), job_queue := q\<rparr>"
  shows "spoke_inv s'" and "spoke_bound s' = spoke_bound s"
    and "spoke_jobs s = add_mset (queue_job s a) (spoke_jobs s')"
    and "spoke_mapped s \<Longrightarrow> spoke_mapped s'"
proof -
  have s': "job_queue s' = q" "job_map s' = (job_map s)(jid := None)" by (simp_all add: s'_def)
  show bound: "spoke_bound s' = spoke_bound s" by (simp add: s'_def)
  note set_q = pq_taken_set [OF spoke_inv_pq [OF inv] taken]
  have qj: "queue_job s' = queue_job s"
    using taken by (auto simp: s' queue_job_def pq_taken_def)
  show "spoke_jobs s = add_mset (queue_job s a) (spoke_jobs s')"
    using taken by (simp add: spoke_jobs_def qj pq_taken_def s')
  show "spoke_inv s'"
    unfolding spoke_inv_def bound qj s'
  proof (intro conjI ballI allI impI)
    show "pq_inv q" using taken by (simp add: pq_taken_def)
  next
    fix b assume "b \<in> set (pq_arr q)"
    then have b: "b \<in> set (pq_arr (job_queue s))" by (simp add: set_q)
    show "item_priority (pq_store q ! b) = trigger_at (queue_job s b)"
      using taken spoke_inv_prio [OF inv b] by (simp add: pq_taken_def)
    show "contains_time (spoke_bound s) (trigger_at (queue_job s b))"
      by (rule spoke_inv_bound [OF inv b])
  next
    fix jid' b assume m: "((job_map s)(jid := None)) jid' = Some b"
    then have "job_map s jid' = Some b" and "jid' \<noteq> jid" by (auto split: if_splits)
    then have "b \<in> set (pq_arr (job_queue s))" and id: "job_id (queue_job s b) = jid'"
      and "b \<noteq> a" using spoke_inv_map [OF inv] jid by blast+
    then show "b \<in> set (pq_arr q)" and "job_id (queue_job s b) = jid'"
      using set_q(1) by auto
  qed
  show "spoke_mapped s'" if m: "spoke_mapped s"
    unfolding spoke_mapped_def qj s'
  proof
    fix b assume b: "b \<in> set (pq_arr q)"
    then have "b \<in> set (pq_arr (job_queue s))" and "b \<noteq> a" using set_q by auto
    moreover from this m have "job_map s (job_id (queue_job s b)) = Some b"
      by (simp add: spoke_mapped_def)
    moreover have "job_map s jid = Some a" using m a jid by (simp add: spoke_mapped_def)
    ultimately show "((job_map s)(jid := None)) (job_id (queue_job s b)) = Some b" by auto
  qed
qed

lemma spoke_next_cases:
  assumes inv: "spoke_inv s"
  obtains (none) "spoke_next now s = Some (None, s)"
      "\<And>j. j \<in># spoke_jobs s \<Longrightarrow> now < trigger_at j"
  | (some) j s' where "spoke_next now s = Some (Some j, s')" "trigger_at j \<le> now"
      "spoke_inv s'" "spoke_bound s' = spoke_bound s"
      "spoke_jobs s = add_mset j (spoke_jobs s')"
      "\<And>k. k \<in># spoke_jobs s \<Longrightarrow> trigger_at j \<le> trigger_at k"
      "spoke_mapped s \<Longrightarrow> spoke_mapped s'"
proof -
  let ?q = "job_queue s"
  have pq: "pq_inv ?q" using inv by (simp add: spoke_inv_def)
  show ?thesis
  proof (cases "pq_len ?q = 0")
    case True
    then show ?thesis using none by (simp add: spoke_next_def spoke_jobs_def pq_len_def)
  next
    case False
    define a where "a = pq_arr ?q ! 0"
    have a: "a \<in> set (pq_arr ?q)" using False by (simp add: a_def pq_len_def)
    define j where "j = queue_job s a"
    have at0: "pq_at ?q 0 = Some (pq_store ?q ! a)" using False by (simp add: pq_at_def a_def)
    have least: "trigger_at j \<le> trigger_at k" if "k \<in># spoke_jobs s" for k
    proof -
      from that obtain b where "b \<in> set (pq_arr ?q)" "k = queue_job s b"
        by (auto simp: spoke_jobs_def)
      then show ?thesis
        using pq_root_least [OF pq, of b] inv a by (simp add: spoke_inv_def a_def j_def)
    qed
    show ?thesis
    proof (cases "trigger_at j \<le> now")
      case False
      then have "job_temporal_state now j = Future" by (simp add: time_simps)
      then have "spoke_next now s = Some (None, s)"
        using \<open>pq_len ?q \<noteq> 0\<close> at0 by (simp add: spoke_next_def j_def queue_job_def)
      then show ?thesis using none False least by force
    next
      case True
      then have "job_temporal_state now j = Past" by (simp add: time_simps)
      moreover obtain q' where q': "heap_pop ?q = Some (a, q')" "pq_taken ?q a q'"
        using heap_pop_correct [OF pq False] by (auto simp: a_def)
      ultimately have eq: "spoke_next now s =
          Some (Some j, s\<lparr>job_map := (job_map s)(job_id j := None), job_queue := q'\<rparr>)"
        using False at0 by (simp add: spoke_next_def j_def queue_job_def Let_def)
      note rem = spoke_remove [OF inv a q'(2) refl, folded j_def]
      show ?thesis by (rule some [OF eq True rem(1-3) least rem(4)]) assumption+
    qed
  qed
qed

lemma spoke_cancel_cases:
  assumes inv: "spoke_inv s"
  obtains (none) "\<not> owns_job jid s" "spoke_cancel jid s = Some (Inl ErrCannotFindJob, s)"
  | (some) j s' where "owns_job jid s" "spoke_cancel jid s = Some (Inr j, s')" "job_id j = jid"
      "spoke_inv s'" "spoke_bound s' = spoke_bound s"
      "spoke_jobs s = add_mset j (spoke_jobs s')" "spoke_mapped s \<Longrightarrow> spoke_mapped s'"
proof (cases "job_map s jid")
  case None
  then show ?thesis using none by (simp add: owns_job_def spoke_cancel_def)
next
  case (Some a)
  let ?q = "job_queue s"
  have pq: "pq_inv ?q" and a: "a \<in> set (pq_arr ?q)" and jid: "jid = job_id (queue_job s a)"
    using inv Some by (auto simp: spoke_inv_def)
  obtain i where i: "item_index (pq_store ?q ! a) = int i" "i < pq_len ?q" "pq_arr ?q ! i = a"
    using pq_index_arr [OF pq a] by blast
  obtain q' where q': "heap_remove (int i) ?q = Some (a, q')" "pq_taken ?q a q'"
    using heap_remove_correct [OF pq i(2)] i(3) by auto
  have eq: "spoke_cancel jid s =
      Some (Inr (queue_job s a), s\<lparr>job_map := (job_map s)(jid := None), job_queue := q'\<rparr>)"
    using Some i q' by (simp add: spoke_cancel_def queue_job_def pq_taken_def)
  note rem = spoke_remove [OF inv a q'(2) jid]
  have "owns_job jid s" using Some by (simp add: owns_job_def)
  then show ?thesis by (rule some [OF _ eq jid [symmetric] rem(1-4)])
qed

section \<open>Draining an expired spoke\<close>

text \<open>
  Once every job of a spoke is ready, \<open>NextLocked\<close> takes jobs out until the spoke is
  empty: a least-first queue of jobs by trigger time.
\<close>

definition spoke_take :: "instant \<Rightarrow> spoke \<Rightarrow> (job \<times> spoke) option" where
  "spoke_take now s =
     (case spoke_next now s of Some (Some j, s') \<Rightarrow> Some (j, s') | _ \<Rightarrow> None)"

definition all_ready :: "instant \<Rightarrow> spoke \<Rightarrow> bool" where
  "all_ready now s \<longleftrightarrow> spoke_inv s \<and> (\<forall>j \<in># spoke_jobs s. trigger_at j \<le> now)"

lemma spoke_take_None:
  assumes "all_ready now s"
  shows "spoke_take now s = None \<longleftrightarrow> spoke_jobs s = {#}"
proof -
  from assms have inv: "spoke_inv s" by (simp add: all_ready_def)
  then show ?thesis
  proof (cases rule: spoke_next_cases [where now = now])
    case none
    then have "j \<notin># spoke_jobs s" for j using assms by (force simp: all_ready_def)
    then show ?thesis using none by (auto simp: spoke_take_def)
  next
    case (some k t)
    then show ?thesis by (simp add: spoke_take_def)
  qed
qed

lemma spoke_take_Some:
  assumes "all_ready now s" and "spoke_take now s = Some (j, s')"
  shows "all_ready now s' \<and> spoke_jobs s = add_mset j (spoke_jobs s') \<and>
    (\<forall>k \<in># spoke_jobs s. trigger_at j \<le> trigger_at k)"
proof -
  from assms(1) have inv: "spoke_inv s" by (simp add: all_ready_def)
  then show ?thesis
  proof (cases rule: spoke_next_cases [where now = now])
    case none
    then show ?thesis using assms(2) by (simp add: spoke_take_def)
  next
    case (some k t)
    then show ?thesis using assms by (auto simp: spoke_take_def all_ready_def)
  qed
qed

interpretation spokeq: min_queue "spoke_take now" "all_ready now" spoke_jobs trigger_at for now
  by unfold_locales (use spoke_take_None spoke_take_Some in blast)+

section \<open>Properties\<close>

text \<open>Adding a list of jobs to a spoke; rejected jobs are left out.\<close>

fun spoke_add_all :: "job list \<Rightarrow> spoke \<Rightarrow> spoke" where
  "spoke_add_all [] s = s"
| "spoke_add_all (j # js) s =
     (case spoke_add j s of Inl _ \<Rightarrow> spoke_add_all js s | Inr s1 \<Rightarrow> spoke_add_all js s1)"

lemma spoke_add_all_inv:
  "spoke_inv s \<Longrightarrow> spoke_inv (spoke_add_all js s) \<and> spoke_bound (spoke_add_all js s) = spoke_bound s \<and>
   spoke_jobs (spoke_add_all js s) =
     mset (filter (\<lambda>j. contains_time (spoke_bound s) (trigger_at j)) js) + spoke_jobs s"
proof (induction js arbitrary: s)
  case (Cons j js)
  from Cons.prems show ?case
  proof (cases rule: spoke_add_cases [where j = j])
    case reject
    then show ?thesis using Cons by (simp add: is_job_in_bounds_def)
  next
    case (accept s')
    then show ?thesis using Cons.IH [of s'] by (simp add: is_job_in_bounds_def)
  qed
qed simp

text \<open>
  C27: A spoke hands out its jobs in order: whatever jobs are offered to a new spoke, it
  takes exactly those whose trigger time lies in its bound, and once all of these are ready,
  \<open>NextLocked\<close> gives each of them once, sorted by trigger time.
\<close>

theorem spoke_delivers_in_order:
  assumes "e \<le> now"
  shows "let (js', s') = drain_with (spoke_take now) (length js) (spoke_add_all js (new_spoke b e))
     in sorted (map trigger_at js') \<and> spoke_jobs s' = {#} \<and>
        mset js' = mset (filter (\<lambda>j. b \<le> trigger_at j \<and> trigger_at j < e) js)"
proof -
  let ?s = "spoke_add_all js (new_spoke b e)"
  have s: "spoke_inv ?s"
    "spoke_jobs ?s = mset (filter (\<lambda>j. b \<le> trigger_at j \<and> trigger_at j < e) js)"
    using spoke_add_all_inv [OF new_spoke_sel(3) [of b e], of js]
    by (simp_all add: spoke_simps contains_time_iff)
  have ready: "all_ready now ?s" using s assms by (auto simp: all_ready_def)
  obtain js' s' where d: "drain_with (spoke_take now) (length js) ?s = (js', s')" by fastforce
  have "mset js' = spoke_jobs ?s \<and> spoke_jobs s' = {#}"
    by (rule spokeq.drain_all [OF ready _ d]) (metis length_filter_le s(2) size_mset)
  then show ?thesis using spokeq.drain_sorted [OF ready d] s(2) d by simp
qed

theorem spoke_delivers_in_order_witness:
  "let (js', s') = drain_with (spoke_take 20) 3
       (spoke_add_all [new_job ''a'' 15 [], new_job ''b'' 12 [], new_job ''c'' 30 []] (new_spoke 10 20))
   in sorted (map trigger_at js') \<and> spoke_jobs s' = {#} \<and>
      mset js' = {#new_job ''a'' 15 [], new_job ''b'' 12 []#}"
proof -
  let ?js = "[new_job ''a'' 15 [], new_job ''b'' 12 [], new_job ''c'' 30 []]"
  have f: "filter (\<lambda>j. 10 \<le> trigger_at j \<and> trigger_at j < 20) ?js =
      [new_job ''a'' 15 [], new_job ''b'' 12 []]" by (simp add: new_job_def)
  have l: "length ?js = 3" by simp
  have m: "mset [new_job ''a'' 15 [], new_job ''b'' 12 []] =
      {#new_job ''a'' 15 [], new_job ''b'' 12 []#}" by simp
  from spoke_delivers_in_order [of 20 20 ?js 10, OF order_refl] show ?thesis unfolding f l m .
qed

text \<open>
  C28: A spoke whose jobs have different ids can cancel each of them by its id, and only
  these: exactly the named job leaves, and an unknown id is an error that changes nothing.
\<close>

theorem spoke_cancel_by_id:
  assumes "spoke_inv s" and "spoke_mapped s"
  shows "if jid \<in> spoke_ids s
    then \<exists>j s'. spoke_cancel jid s = Some (Inr j, s') \<and> job_id j = jid \<and>
           spoke_jobs s = add_mset j (spoke_jobs s') \<and> spoke_inv s' \<and> spoke_mapped s'
    else spoke_cancel jid s = Some (Inl ErrCannotFindJob, s)"
  using spoke_mapped_owns [OF assms, of jid] assms(2)
  by (cases rule: spoke_cancel_cases [OF assms(1), of jid]) auto

theorem spoke_cancel_by_id_witness:
  "let s = spoke_add_all [new_job ''a'' 15 []] (new_spoke 10 20)
   in (\<exists>j s'. spoke_cancel ''a'' s = Some (Inr j, s') \<and> job_id j = ''a'') \<and>
      spoke_cancel ''b'' s = Some (Inl ErrCannotFindJob, s)"
proof -
  let ?j = "new_job ''a'' 15 []" and ?s0 = "new_spoke 10 20"
  let ?s = "spoke_add_all [?j] ?s0"
  have "spoke_inv ?s \<and> spoke_mapped ?s \<and> spoke_ids ?s = {''a''}"
    by (cases rule: spoke_add_cases [OF new_spoke_sel(3) [of 10 20], of ?j])
      (auto simp: is_job_in_bounds_def contains_time_iff new_job_def spoke_simps spoke_ids_def)
  then have s: "spoke_inv ?s" "spoke_mapped ?s" "''a'' \<in> spoke_ids ?s" "''b'' \<notin> spoke_ids ?s" by auto
  show ?thesis
    using spoke_cancel_by_id [OF s(1,2), of "''a''"] spoke_cancel_by_id [OF s(1,2), of "''b''"] s(3,4)
    by (auto simp: Let_def)
qed

end
