(* ===== verification/Hub_Stats.thy ===== *)
theory Hub_Stats
  imports Chrono_Prelude
begin

text \<open>
  \<open>internal/stats/hubStats.go\<close>: the counters of a hub. Each is an \<open>int64\<close> that
  \<open>atomic.AddInt64\<close> wraps around, read with \<open>sint\<close>.
\<close>

record counters =
  current_jobs :: "64 word"
  removed_jobs :: "64 word"
  current_spokes :: "64 word"

definition zero_counters :: counters where
  "zero_counters = \<lparr>current_jobs = 0, removed_jobs = 0, current_spokes = 0\<rparr>"

text \<open>\<open>Read\<close> loads the three counters into a new snapshot.\<close>

definition read_counters :: "counters \<Rightarrow> counters" where
  "read_counters c = \<lparr>current_jobs = current_jobs c, removed_jobs = removed_jobs c,
     current_spokes = current_spokes c\<rparr>"

definition incr_job :: "counters \<Rightarrow> counters" where
  "incr_job c = c\<lparr>current_jobs := current_jobs c + 1\<rparr>"

definition decr_job :: "counters \<Rightarrow> counters" where
  "decr_job c = c\<lparr>current_jobs := current_jobs c + (- 1), removed_jobs := removed_jobs c + 1\<rparr>"

definition incr_spoke :: "counters \<Rightarrow> counters" where
  "incr_spoke c = c\<lparr>current_spokes := current_spokes c + 1\<rparr>"

definition decr_spoke :: "counters \<Rightarrow> counters" where
  "decr_spoke c = c\<lparr>current_spokes := current_spokes c + (- 1)\<rparr>"

lemmas counters_defs = incr_job_def decr_job_def incr_spoke_def decr_spoke_def

text \<open>The counters agree with the number of jobs held and of spokes in the map.\<close>

definition counters_ok :: "nat \<Rightarrow> nat \<Rightarrow> counters \<Rightarrow> bool" where
  "counters_ok nj ns c \<longleftrightarrow> current_jobs c = word_of_nat nj \<and> current_spokes c = word_of_nat ns"

lemma counters_ok_incr_job: "counters_ok nj ns c \<Longrightarrow> counters_ok (Suc nj) ns (incr_job c)"
  by (simp add: counters_ok_def counters_defs)

lemma counters_ok_decr_job: "counters_ok (Suc nj) ns c \<Longrightarrow> counters_ok nj ns (decr_job c)"
  by (simp add: counters_ok_def counters_defs)

lemma counters_ok_incr_spoke: "counters_ok nj ns c \<Longrightarrow> counters_ok nj (Suc ns) (incr_spoke c)"
  by (simp add: counters_ok_def counters_defs)

lemma counters_ok_decr_spoke: "counters_ok nj (Suc ns) c \<Longrightarrow> counters_ok nj ns (decr_spoke c)"
  by (simp add: counters_ok_def counters_defs)

end
