(* ===== verification/Job_Filter.thy ===== *)
theory Job_Filter
  imports Chrono_Prelude
begin

text \<open>
  The interface of the membership filter the hub keeps beside its spokes: the three methods
  of \<open>cuckoo.Filter\<close> that the hub calls. The contract says what a filter of
  fingerprints really promises: it holds one entry per inserted item, an entry is the class
  of the item (two items may share a class), \<open>Lookup\<close> finds any entry of the class and
  \<open>Delete\<close> removes one, whoever put it there. An \<open>Insert\<close> that fails has dropped
  one entry, which may belong to another item.
\<close>

record 'f filter_ops =
  f_lookup :: "string \<Rightarrow> 'f \<Rightarrow> bool"
  f_insert :: "string \<Rightarrow> 'f \<Rightarrow> bool \<times> 'f"
  f_delete :: "string \<Rightarrow> 'f \<Rightarrow> bool \<times> 'f"

text \<open>The filter covers a multiset of ids when each has an entry of its own.\<close>

definition filter_covers ::
  "('f \<Rightarrow> bool) \<Rightarrow> ('f \<Rightarrow> 'c multiset) \<Rightarrow> (string \<Rightarrow> 'c) \<Rightarrow> 'f \<Rightarrow> string multiset \<Rightarrow> bool" where
  "filter_covers valid content cls f ids \<longleftrightarrow>
     valid f \<and> image_mset cls ids \<subseteq># content f"

locale job_filter =
  fixes F :: "'f filter_ops"
    and valid :: "'f \<Rightarrow> bool"
    and content :: "'f \<Rightarrow> 'c multiset"
    and cls :: "string \<Rightarrow> 'c"
  assumes lookup_iff: "valid f \<Longrightarrow> f_lookup F d f \<longleftrightarrow> cls d \<in># content f"
    and insert_valid: "valid f \<Longrightarrow> f_insert F d f = (ok, f') \<Longrightarrow> valid f'"
    and insert_ok: "valid f \<Longrightarrow> f_insert F d f = (True, f') \<Longrightarrow>
          content f' = add_mset (cls d) (content f)"
    and insert_fails: "valid f \<Longrightarrow> f_insert F d f = (False, f') \<Longrightarrow>
          \<exists>c. add_mset c (content f') = add_mset (cls d) (content f)"
    and delete_valid: "valid f \<Longrightarrow> f_delete F d f = (ok, f') \<Longrightarrow> valid f'"
    and delete_ok: "valid f \<Longrightarrow> f_delete F d f = (ok, f') \<Longrightarrow> ok \<longleftrightarrow> cls d \<in># content f"
    and delete_content: "valid f \<Longrightarrow> f_delete F d f = (ok, f') \<Longrightarrow>
          content f' = content f - {#cls d#}"
begin

abbreviation covers :: "'f \<Rightarrow> string multiset \<Rightarrow> bool" where
  "covers \<equiv> filter_covers valid content cls"

lemma covers_lookup: "covers f ids \<Longrightarrow> d \<in># ids \<Longrightarrow> f_lookup F d f"
  unfolding filter_covers_def by (metis image_eqI lookup_iff mset_subset_eqD set_image_mset)

lemma covers_insert:
  "covers f ids \<Longrightarrow> f_insert F d f = (True, f') \<Longrightarrow> covers f' (add_mset d ids)"
  by (auto simp: filter_covers_def insert_ok intro: insert_valid)

lemma covers_delete:
  "covers f (add_mset d ids) \<Longrightarrow> f_delete F d f = (ok, f') \<Longrightarrow> ok \<and> covers f' ids"
  using delete_ok [of f d ok f'] delete_content [of f d ok f'] delete_valid [of f d ok f']
  by (auto simp: filter_covers_def insert_subset_eq_iff)

text \<open>
  Deleting an id that was never inserted, but whose class collides with the class of an id
  that was, takes that id's entry away when there is no other.
\<close>

lemma delete_collision:
  "valid f \<Longrightarrow> cls d = cls e \<Longrightarrow> count (content f) (cls e) = 1 \<Longrightarrow>
   f_delete F d f = (ok, f') \<Longrightarrow> ok \<and> \<not> f_lookup F e f'"
  using delete_ok [of f d ok f'] delete_content [of f d ok f'] delete_valid [of f d ok f']
  by (auto simp: lookup_iff count_eq_zero_iff [symmetric] simp flip: count_greater_zero_iff)

end

end
