(* ===== verification/Hub.thy ===== *)
theory Hub
  imports Spoke Hub_Stats Job_Filter
begin

text \<open>
  \<open>pkg/chronomq/hub.go\<close>: the time-ordered collection of spokes, and its operations
  under the hub's lock (each \<open>...Locked\<close> method runs with the lock held from start to
  end, so it is one step).

  Spokes are shared by pointer between the lookup map, the heap of waiting spokes and the
  field \<open>currentSpoke\<close>, and are mutated through any of them. So the hub carries the store
  of its spokes (the address of a spoke is its position), and the other fields hold
  addresses. The lookup map is an association list from bounds to addresses: Go ranges over
  a map in an unspecified order, and an operation that does takes a ranking of the bounds,
  by which the entries are visited; every order is the order of some ranking.

  A method that reads the clock takes its readings: one reading \<open>now\<close> where there is one,
  a function \<open>clk\<close> from the number of the reading to the instant read in \<open>next\<close>.
  The membership filter is reached through the operations \<open>F\<close> (theory
  \<open>Job_Filter\<close>). Log lines and metrics are left out.
\<close>

definition hundred_years :: duration where
  "hundred_years = hour * 24 * 365 * 100"

record 'f hub =
  job_filter_state :: 'f
  spoke_span :: duration
  spoke_map :: "(bound \<times> addr) list"
  spokes :: "addr pqueue"
  past_spoke :: addr
  current_spoke :: "addr option"
  hub_stats :: counters
  spoke_store :: "spoke list"

definition new_hub :: "'f \<Rightarrow> duration \<Rightarrow> instant \<Rightarrow> instant \<Rightarrow> 'f hub" where
  "new_hub f span now1 now2 =
     \<lparr>job_filter_state = f, spoke_span = span, spoke_map = [], spokes = heap_init empty_pq,
      past_spoke = 0, current_spoke = None, hub_stats = zero_counters,
      spoke_store = [new_spoke (t_add now1 (- 1 * hundred_years)) (t_add now2 hundred_years)]\<rparr>"

definition spoke_at :: "'f hub \<Rightarrow> addr \<Rightarrow> spoke" where
  "spoke_at h a = spoke_store h ! a"

definition set_spoke :: "addr \<Rightarrow> spoke \<Rightarrow> 'f hub \<Rightarrow> 'f hub" where
  "set_spoke a s h = h\<lparr>spoke_store := (spoke_store h)[a := s]\<rparr>"

text \<open>\<open>for _, s := range h.spokeMap\<close>\<close>

definition map_range :: "(bound \<Rightarrow> nat) \<Rightarrow> 'f hub \<Rightarrow> addr list" where
  "map_range rank h = map snd (sort_key (\<lambda>(b, a). rank b) (spoke_map h))"

section \<open>Finding, adding and dropping spokes\<close>

definition find_owner_spoke :: "(bound \<Rightarrow> nat) \<Rightarrow> string \<Rightarrow> 'f hub \<Rightarrow> go_error + addr" where
  "find_owner_spoke rank jid h =
     (if owns_job jid (spoke_at h (past_spoke h)) then Inr (past_spoke h)
      else case current_spoke h of
        Some c \<Rightarrow>
          (if owns_job jid (spoke_at h c) then Inr c
           else case List.find (\<lambda>a. owns_job jid (spoke_at h a)) (map_range rank h) of
             Some a \<Rightarrow> Inr a | None \<Rightarrow> Inl ErrNoOwnerSpoke)
      | None \<Rightarrow>
          (case List.find (\<lambda>a. owns_job jid (spoke_at h a)) (map_range rank h) of
             Some a \<Rightarrow> Inr a | None \<Rightarrow> Inl ErrNoOwnerSpoke))"

text \<open>The spoke is new: it gets its address here.\<close>

definition add_spoke :: "spoke \<Rightarrow> 'f hub \<Rightarrow> 'f hub" where
  "add_spoke s h =
     (let a = length (spoke_store h);
          h1 = h\<lparr>spoke_store := spoke_store h @ [s],
                 spoke_map := AList.update (spoke_bound s) a (spoke_map h)\<rparr>;
          (i, q) = pq_alloc (spoke_priority_item a s) (spokes h1);
          h2 = h1\<lparr>spokes := heap_push i q\<rparr>
      in h2\<lparr>hub_stats := incr_spoke (hub_stats h2)\<rparr>)"

definition delete_spoke_from_map :: "spoke \<Rightarrow> 'f hub \<Rightarrow> 'f hub" where
  "delete_spoke_from_map s h =
     (let h1 = h\<lparr>spoke_map := AList.delete (spoke_bound s) (spoke_map h)\<rparr>
      in h1\<lparr>hub_stats := decr_spoke (hub_stats h1)\<rparr>)"

section \<open>Cancel\<close>

text \<open>\<open>cancelJob\<close>: no owner is not an error, the call is idempotent.\<close>

definition cancel_job ::
  "(bound \<Rightarrow> nat) \<Rightarrow> string \<Rightarrow> 'f hub \<Rightarrow> ((go_error + job option) \<times> 'f hub) option" where
  "cancel_job rank jid h =
     (case find_owner_spoke rank jid h of
        Inl _ \<Rightarrow> Some (Inr None, h)
      | Inr a \<Rightarrow>
          (case spoke_cancel jid (spoke_at h a) of
             None \<Rightarrow> None
           | Some (Inl e, s) \<Rightarrow> Some (Inl e, set_spoke a s h)
           | Some (Inr j, s) \<Rightarrow>
               (let h1 = set_spoke a s h
                in Some (Inr (Some j), h1\<lparr>hub_stats := decr_job (hub_stats h1)\<rparr>))))"

definition hub_cancel ::
  "'f filter_ops \<Rightarrow> (bound \<Rightarrow> nat) \<Rightarrow> string \<Rightarrow> 'f hub \<Rightarrow>
   ((go_error + job option) \<times> 'f hub) option" where
  "hub_cancel F rank jid h =
     (if \<not> f_lookup F jid (job_filter_state h) then Some (Inr None, h)
      else case cancel_job rank jid h of
        None \<Rightarrow> None
      | Some (Inl e, h1) \<Rightarrow> Some (Inl e, h1)
      | Some (Inr r, h1) \<Rightarrow>
          (let (_, f) = f_delete F jid (job_filter_state h1)
           in Some (Inr r, h1\<lparr>job_filter_state := f\<rparr>)))"

section \<open>Add\<close>

text \<open>
  The second half of \<open>addJob\<close> for a future job: the spoke of the job's bound, if the map
  has it, else a new one.
\<close>

definition add_future_job :: "job \<Rightarrow> 'f hub \<Rightarrow> go_error + 'f hub" where
  "add_future_job j h =
     (let jb = as_bound (spoke_span h) j
      in case map_of (spoke_map h) jb of
           Some a \<Rightarrow>
             (case spoke_add j (spoke_at h a) of
                Inl e \<Rightarrow> Inl e
              | Inr s \<Rightarrow> Inr (set_spoke a s h))
         | None \<Rightarrow>
             (case spoke_add j (new_spoke (b_start jb) (b_end jb)) of
                Inl e \<Rightarrow> Inl e
              | Inr s \<Rightarrow> Inr (add_spoke s h)))"

text \<open>\<open>addJob\<close>; \<open>now\<close> is the reading of \<open>j.AsTemporalState()\<close>.\<close>

definition add_job :: "instant \<Rightarrow> job \<Rightarrow> 'f hub \<Rightarrow> go_error + 'f hub" where
  "add_job now j h =
     (case job_temporal_state now j of
        Past \<Rightarrow>
          (case spoke_add j (spoke_at h (past_spoke h)) of
             Inl e \<Rightarrow> Inl e
           | Inr s \<Rightarrow> Inr (set_spoke (past_spoke h) s h))
      | Future \<Rightarrow>
          (case current_spoke h of
             Some c \<Rightarrow>
               (if is_job_in_bounds j (spoke_at h c)
                then (case spoke_add j (spoke_at h c) of
                        Inl e \<Rightarrow> Inl e
                      | Inr s \<Rightarrow> Inr (set_spoke c s h))
                else add_future_job j h)
           | None \<Rightarrow> add_future_job j h)
      | Current \<Rightarrow> Inl ErrNoSpokeForJob)"

text \<open>
  \<open>AddJobLocked\<close>: a filter hit is checked by a full scan. A failed \<open>Insert\<close> into the
  filter is only logged.
\<close>

definition hub_add ::
  "'f filter_ops \<Rightarrow> (bound \<Rightarrow> nat) \<Rightarrow> instant \<Rightarrow> job \<Rightarrow> 'f hub \<Rightarrow> go_error option \<times> 'f hub" where
  "hub_add F rank now j h =
     (if f_lookup F (job_id j) (job_filter_state h) \<and>
         (case find_owner_spoke rank (job_id j) h of Inr _ \<Rightarrow> True | Inl _ \<Rightarrow> False)
      then (Some (ErrDuplicateJob (job_id j)), h)
      else case add_job now j h of
        Inl e \<Rightarrow> (Some e, h)
      | Inr h1 \<Rightarrow>
          (let (_, f) = f_insert F (job_id j) (job_filter_state h1);
               h2 = h1\<lparr>job_filter_state := f\<rparr>
           in (None, h2\<lparr>hub_stats := incr_job (hub_stats h2)\<rparr>)))"

section \<open>Next\<close>

text \<open>
  \<open>next\<close> in the order of the code: the past spoke; dropping an empty, expired current
  spoke; choosing a new current spoke; reading from it. The readings of the clock:
  \<open>clk 0\<close> in the past spoke, \<open>clk 1\<close> and \<open>clk 2\<close> for the state of the current
  spoke, \<open>clk 3\<close> and \<open>clk 4\<close> for the candidate's, \<open>clk 5\<close> in the current spoke.
\<close>

definition next_past :: "(nat \<Rightarrow> instant) \<Rightarrow> 'f hub \<Rightarrow> (job option \<times> 'f hub) option" where
  "next_past clk h =
     (case spoke_next (clk 0) (spoke_at h (past_spoke h)) of
        None \<Rightarrow> None
      | Some (None, s) \<Rightarrow> Some (None, set_spoke (past_spoke h) s h)
      | Some (Some j, s) \<Rightarrow>
          (let h1 = set_spoke (past_spoke h) s h
           in Some (Some j, h1\<lparr>hub_stats := decr_job (hub_stats h1)\<rparr>)))"

definition drop_current :: "(nat \<Rightarrow> instant) \<Rightarrow> 'f hub \<Rightarrow> 'f hub" where
  "drop_current clk h =
     (case current_spoke h of
        None \<Rightarrow> h
      | Some c \<Rightarrow>
          (if pending_jobs_len (spoke_at h c) = 0 \<and>
              spoke_temporal_state (clk 1) (clk 2) (spoke_at h c) = Past
           then (delete_spoke_from_map (spoke_at h c) h)\<lparr>current_spoke := None\<rparr>
           else h))"

text \<open>The Boolean says whether there is a current spoke to read from.\<close>

definition choose_current :: "(nat \<Rightarrow> instant) \<Rightarrow> 'f hub \<Rightarrow> (bool \<times> 'f hub) option" where
  "choose_current clk h =
     (if current_spoke h \<noteq> None then Some (True, h)
      else let h1 = h\<lparr>spokes := heap_init (spokes h)\<rparr>
           in if pq_len (spokes h1) = 0 then Some (False, h1)
              else case pq_at (spokes h1) 0 of
                None \<Rightarrow> None
              | Some item \<Rightarrow>
                  (let a = item_value item
                   in case spoke_temporal_state (clk 3) (clk 4) (spoke_at h1 a) of
                        Future \<Rightarrow> Some (False, h1)
                      | _ \<Rightarrow>
                          (let h2 = h1\<lparr>current_spoke := Some a\<rparr>
                           in case heap_pop (spokes h2) of
                                None \<Rightarrow> None
                              | Some (_, q) \<Rightarrow> Some (True, h2\<lparr>spokes := q\<rparr>))))"

definition read_current :: "(nat \<Rightarrow> instant) \<Rightarrow> 'f hub \<Rightarrow> (job option \<times> 'f hub) option" where
  "read_current clk h =
     (case current_spoke h of
        None \<Rightarrow> None
      | Some c \<Rightarrow>
          (case spoke_next (clk 5) (spoke_at h c) of
             None \<Rightarrow> None
           | Some (None, s) \<Rightarrow> Some (None, set_spoke c s h)
           | Some (Some j, s) \<Rightarrow>
               (let h1 = set_spoke c s h
                in Some (Some j, h1\<lparr>hub_stats := decr_job (hub_stats h1)\<rparr>))))"

definition next_job :: "(nat \<Rightarrow> instant) \<Rightarrow> 'f hub \<Rightarrow> (job option \<times> 'f hub) option" where
  "next_job clk h =
     (case next_past clk h of
        None \<Rightarrow> None
      | Some (Some j, h1) \<Rightarrow> Some (Some j, h1)
      | Some (None, h1) \<Rightarrow>
          (case choose_current clk (drop_current clk h1) of
             None \<Rightarrow> None
           | Some (False, h2) \<Rightarrow> Some (None, h2)
           | Some (True, h2) \<Rightarrow> read_current clk h2))"

text \<open>\<open>NextLocked\<close>\<close>

definition hub_next ::
  "'f filter_ops \<Rightarrow> (nat \<Rightarrow> instant) \<Rightarrow> 'f hub \<Rightarrow> (job option \<times> 'f hub) option" where
  "hub_next F clk h =
     (case next_job clk h of
        None \<Rightarrow> None
      | Some (None, h1) \<Rightarrow> Some (None, h1)
      | Some (Some j, h1) \<Rightarrow>
          (let (_, f) = f_delete F (job_id j) (job_filter_state h1)
           in Some (Some j, h1\<lparr>job_filter_state := f\<rparr>)))"

section \<open>Prune\<close>

text \<open>
  The counter of the code goes up for every spoke, inside the loop but outside the test.
  Only the map entry is dropped; the heap of waiting spokes and the current spoke keep the
  address. Deleting entries while ranging over a map is defined in Go.
\<close>

fun prune_loop :: "(nat \<Rightarrow> instant) \<Rightarrow> nat \<Rightarrow> addr list \<Rightarrow> 'f hub \<Rightarrow> nat \<times> 'f hub" where
  "prune_loop clk pruned [] h = (pruned, h)"
| "prune_loop clk pruned (a # as) h =
     prune_loop clk (Suc pruned) as
       (if is_expired (clk pruned) (spoke_bound (spoke_at h a)) \<and>
           pending_jobs_len (spoke_at h a) = 0
        then delete_spoke_from_map (spoke_at h a) h else h)"

definition hub_prune :: "(bound \<Rightarrow> nat) \<Rightarrow> (nat \<Rightarrow> instant) \<Rightarrow> 'f hub \<Rightarrow> nat \<times> 'f hub" where
  "hub_prune rank clk h = prune_loop clk 0 (map_range rank h) h"

end
