(* ===== verification/Hub_Invariant.thy ===== *)
theory Hub_Invariant
  imports Hub
begin

text \<open>
  The invariant of the hub and that every operation keeps it, whatever the membership
  filter does: the map, the heap of waiting spokes and the current spoke agree on the same
  spokes, every spoke keeps its own invariant, and the bounds lie on the grid of the span.
  On top of it, the multiset of jobs the hub holds is what each operation is described by.
\<close>

section \<open>Views\<close>

text \<open>The spokes that can hold jobs: the past spoke and those of the map.\<close>

definition live :: "'f hub \<Rightarrow> addr list" where
  "live h = past_spoke h # map snd (spoke_map h)"

definition hub_jobs :: "'f hub \<Rightarrow> job multiset" where
  "hub_jobs h = (\<Sum>a \<in># mset (live h). spoke_jobs (spoke_at h a))"

definition hub_ids :: "'f hub \<Rightarrow> string multiset" where
  "hub_ids h = image_mset job_id (hub_jobs h)"

definition current_mset :: "'f hub \<Rightarrow> addr multiset" where
  "current_mset h = (case current_spoke h of None \<Rightarrow> {#} | Some c \<Rightarrow> {#c#})"

definition waiting :: "'f hub \<Rightarrow> addr multiset" where
  "waiting h = image_mset fst (pq_entries (spokes h))"

definition spokes_wf :: "'f hub \<Rightarrow> bool" where
  "spokes_wf h \<longleftrightarrow> distinct (live h) \<and> (\<forall>a \<in> set (live h). a < length (spoke_store h)) \<and>
     (\<forall>a \<in> set (live h). spoke_inv (spoke_at h a)) \<and>
     distinct (map fst (spoke_map h)) \<and>
     (\<forall>(b, a) \<in> set (spoke_map h). spoke_bound (spoke_at h a) = b \<and> aligned (spoke_span h) b)"

definition heap_wf :: "'f hub \<Rightarrow> bool" where
  "heap_wf h \<longleftrightarrow> pq_inv (spokes h) \<and>
     (\<forall>(a, p) \<in># pq_entries (spokes h). p = b_start (spoke_bound (spoke_at h a))) \<and>
     mset (map snd (spoke_map h)) = waiting h + current_mset h"

definition hub_wf :: "'f hub \<Rightarrow> bool" where
  "hub_wf h \<longleftrightarrow> spokes_wf h \<and> heap_wf h"

definition hub_counted :: "'f hub \<Rightarrow> bool" where
  "hub_counted h \<longleftrightarrow> counters_ok (size (hub_jobs h)) (length (spoke_map h)) (hub_stats h)"

text \<open>Every live spoke's map knows all its jobs.\<close>

definition hub_mapped :: "'f hub \<Rightarrow> bool" where
  "hub_mapped h \<longleftrightarrow> (\<forall>a \<in> set (live h). spoke_mapped (spoke_at h a))"

section \<open>Frames\<close>

lemma set_spoke_sel [simp]:
  "job_filter_state (set_spoke a s h) = job_filter_state h"
  "spoke_span (set_spoke a s h) = spoke_span h"
  "spoke_map (set_spoke a s h) = spoke_map h"
  "spokes (set_spoke a s h) = spokes h"
  "past_spoke (set_spoke a s h) = past_spoke h"
  "current_spoke (set_spoke a s h) = current_spoke h"
  "hub_stats (set_spoke a s h) = hub_stats h"
  "length (spoke_store (set_spoke a s h)) = length (spoke_store h)"
  "live (set_spoke a s h) = live h"
  by (simp_all add: set_spoke_def live_def)

lemma spoke_at_set_spoke:
  "spoke_at (set_spoke a s h) b =
     (if b = a \<and> a < length (spoke_store h) then s else spoke_at h b)"
  by (simp add: spoke_at_def set_spoke_def nth_list_update_total)

lemma spoke_at_update [simp]:
  "spoke_at (h\<lparr>job_filter_state := f\<rparr>) a = spoke_at h a"
  "spoke_at (h\<lparr>hub_stats := c\<rparr>) a = spoke_at h a"
  "spoke_at (h\<lparr>spokes := q\<rparr>) a = spoke_at h a"
  "spoke_at (h\<lparr>current_spoke := co\<rparr>) a = spoke_at h a"
  "spoke_at (h\<lparr>spoke_map := m\<rparr>) a = spoke_at h a"
  by (simp_all add: spoke_at_def)

lemma live_update [simp]:
  "live (h\<lparr>job_filter_state := f\<rparr>) = live h"
  "live (h\<lparr>hub_stats := c\<rparr>) = live h"
  "live (h\<lparr>spokes := q\<rparr>) = live h"
  "live (h\<lparr>current_spoke := co\<rparr>) = live h"
  by (simp_all add: live_def)

lemma hub_jobs_update [simp]:
  "hub_jobs (h\<lparr>job_filter_state := f\<rparr>) = hub_jobs h"
  "hub_jobs (h\<lparr>hub_stats := c\<rparr>) = hub_jobs h"
  "hub_jobs (h\<lparr>spokes := q\<rparr>) = hub_jobs h"
  "hub_jobs (h\<lparr>current_spoke := co\<rparr>) = hub_jobs h"
  by (simp_all add: hub_jobs_def)

lemma hub_wf_update [simp]:
  "hub_wf (h\<lparr>job_filter_state := f\<rparr>) = hub_wf h"
  "hub_wf (h\<lparr>hub_stats := c\<rparr>) = hub_wf h"
  by (simp_all add: hub_wf_def spokes_wf_def heap_wf_def waiting_def current_mset_def)

lemma hub_mapped_update [simp]:
  "hub_mapped (h\<lparr>job_filter_state := f\<rparr>) = hub_mapped h"
  "hub_mapped (h\<lparr>hub_stats := c\<rparr>) = hub_mapped h"
  "hub_mapped (h\<lparr>spokes := q\<rparr>) = hub_mapped h"
  "hub_mapped (h\<lparr>current_spoke := co\<rparr>) = hub_mapped h"
  by (simp_all add: hub_mapped_def)

lemma hub_counted_update [simp]:
  "hub_counted (h\<lparr>job_filter_state := f\<rparr>) = hub_counted h"
  by (simp add: hub_counted_def)

lemma hub_ids_update [simp]:
  "hub_ids (h\<lparr>job_filter_state := f\<rparr>) = hub_ids h"
  "hub_ids (h\<lparr>hub_stats := c\<rparr>) = hub_ids h"
  by (simp_all add: hub_ids_def)

lemma hub_wfD:
  assumes "hub_wf h"
  shows live_distinct: "distinct (live h)"
    and live_alloc: "a \<in> set (live h) \<Longrightarrow> a < length (spoke_store h)"
    and live_inv: "a \<in> set (live h) \<Longrightarrow> spoke_inv (spoke_at h a)"
    and map_distinct: "distinct (map fst (spoke_map h))"
    and map_bound: "(b, a) \<in> set (spoke_map h) \<Longrightarrow> spoke_bound (spoke_at h a) = b"
    and map_aligned: "(b, a) \<in> set (spoke_map h) \<Longrightarrow> aligned (spoke_span h) b"
    and heap_inv: "pq_inv (spokes h)"
    and heap_prio: "(a, p) \<in># pq_entries (spokes h) \<Longrightarrow> p = b_start (spoke_bound (spoke_at h a))"
    and map_heap: "mset (map snd (spoke_map h)) = waiting h + current_mset h"
  using assms by (auto simp: hub_wf_def spokes_wf_def heap_wf_def)

lemma past_live [simp]: "past_spoke h \<in> set (live h)"
  by (simp add: live_def)

lemma map_live: "(b, a) \<in> set (spoke_map h) \<Longrightarrow> a \<in> set (live h)"
  by (force simp: live_def)

lemma map_range_set: "set (map_range rank h) = snd ` set (spoke_map h)"
  by (simp add: map_range_def)

lemma current_in_map:
  assumes "hub_wf h" and "current_spoke h = Some c"
  shows "c \<in> snd ` set (spoke_map h)"
proof -
  have "c \<in># mset (map snd (spoke_map h))"
    using map_heap [OF assms(1)] assms(2) by (simp add: current_mset_def)
  then show ?thesis by simp
qed

lemma current_live: "hub_wf h \<Longrightarrow> current_spoke h = Some c \<Longrightarrow> c \<in> set (live h)"
  by (drule (1) current_in_map) (auto simp: live_def)

lemma waiting_in_map:
  assumes "hub_wf h" and "a \<in># waiting h"
  shows "a \<in> snd ` set (spoke_map h)"
proof -
  have "a \<in># mset (map snd (spoke_map h))" using map_heap [OF assms(1)] assms(2) by simp
  then show ?thesis by simp
qed

text \<open>The jobs of one live spoke, and the others.\<close>

lemma hub_jobs_split:
  assumes "distinct (live h)" and "a \<in> set (live h)"
  obtains R where "hub_jobs h = spoke_jobs (spoke_at h a) + R"
    and "\<And>s. a < length (spoke_store h) \<Longrightarrow> hub_jobs (set_spoke a s h) = spoke_jobs s + R"
proof -
  from assms(2) obtain M where M: "mset (live h) = add_mset a M"
    by (metis mset_add set_mset_mset)
  moreover have "a \<notin># M"
  proof -
    have "count (mset (live h)) a = 1" using assms by (simp add: distinct_count_atmost_1)
    with M show ?thesis by (simp add: not_in_iff)
  qed
  then have "image_mset (\<lambda>b. spoke_jobs (spoke_at (set_spoke a s h) b)) M
      = image_mset (\<lambda>b. spoke_jobs (spoke_at h b)) M" for s
    by (intro image_mset_cong) (auto simp: spoke_at_set_spoke)
  ultimately show ?thesis
    by (intro that [of "\<Sum>b \<in># M. spoke_jobs (spoke_at h b)"])
      (simp_all add: hub_jobs_def spoke_at_set_spoke)
qed

lemma hub_jobs_live: "a \<in> set (live h) \<Longrightarrow> j \<in># spoke_jobs (spoke_at h a) \<Longrightarrow> j \<in># hub_jobs h"
  by (auto simp: hub_jobs_def)

lemma hub_jobs_where:
  "j \<in># hub_jobs h \<Longrightarrow> \<exists>a \<in> set (live h). j \<in># spoke_jobs (spoke_at h a)"
  by (auto simp: hub_jobs_def)

text \<open>Replacing a live spoke by one of the same bound.\<close>

lemma set_spoke_wf:
  assumes wf: "hub_wf h" and a: "a \<in> set (live h)" and s: "spoke_inv s"
    and bound: "spoke_bound s = spoke_bound (spoke_at h a)"
  shows "hub_wf (set_spoke a s h)"
    and "hub_mapped h \<Longrightarrow> spoke_mapped s \<Longrightarrow> hub_mapped (set_spoke a s h)"
proof -
  have b: "spoke_bound (spoke_at (set_spoke a s h) x) = spoke_bound (spoke_at h x)" for x
    using bound by (simp add: spoke_at_set_spoke)
  have "spoke_inv (spoke_at (set_spoke a s h) x)" if "x \<in> set (live h)" for x
    using live_inv [OF wf that] s by (simp add: spoke_at_set_spoke)
  then show "hub_wf (set_spoke a s h)"
    using wf by (simp add: hub_wf_def spokes_wf_def heap_wf_def waiting_def current_mset_def b)
  show "hub_mapped (set_spoke a s h)" if "hub_mapped h" "spoke_mapped s"
    using that by (simp add: hub_mapped_def spoke_at_set_spoke)
qed

lemma new_hub_wf: "hub_wf (new_hub f span now1 now2)"
  and new_hub_jobs: "hub_jobs (new_hub f span now1 now2) = {#}"
  and new_hub_counted: "hub_counted (new_hub f span now1 now2)"
  and new_hub_mapped: "hub_mapped (new_hub f span now1 now2)"
proof -
  show j: "hub_jobs (new_hub f span now1 now2) = {#}"
    by (simp add: hub_jobs_def live_def new_hub_def spoke_at_def spoke_simps)
  have e: "pq_entries (empty_pq :: addr pqueue) = {#}" by (simp add: pq_entries_def empty_pq_def)
  show "hub_wf (new_hub f span now1 now2)"
    by (simp add: hub_wf_def spokes_wf_def heap_wf_def live_def waiting_def current_mset_def
        new_hub_def spoke_at_def spoke_simps e)
  show "hub_counted (new_hub f span now1 now2)"
    unfolding hub_counted_def j by (simp add: new_hub_def counters_ok_def zero_counters_def)
  show "hub_mapped (new_hub f span now1 now2)"
    by (simp add: hub_mapped_def live_def new_hub_def spoke_at_def spoke_simps)
qed


section \<open>Taking a job out of a live spoke, putting one in\<close>

text \<open>How a step relates the states before and after it when one job leaves the hub.\<close>

definition job_taken :: "'f hub \<Rightarrow> job \<Rightarrow> 'f hub \<Rightarrow> bool" where
  "job_taken h j h' \<longleftrightarrow> hub_wf h' \<and> hub_jobs h = add_mset j (hub_jobs h') \<and>
     (hub_counted h \<longrightarrow> hub_counted h') \<and> (hub_mapped h \<longrightarrow> hub_mapped h') \<and>
     job_filter_state h' = job_filter_state h \<and> spoke_span h' = spoke_span h"

text \<open>The same for a step that leaves the jobs alone.\<close>

definition jobs_kept :: "'f hub \<Rightarrow> 'f hub \<Rightarrow> bool" where
  "jobs_kept h h' \<longleftrightarrow> hub_wf h' \<and> hub_jobs h' = hub_jobs h \<and>
     (hub_counted h \<longrightarrow> hub_counted h') \<and> (hub_mapped h \<longrightarrow> hub_mapped h') \<and>
     job_filter_state h' = job_filter_state h \<and> spoke_span h' = spoke_span h"

lemma jobs_kept_refl [simp]: "hub_wf h \<Longrightarrow> jobs_kept h h"
  by (simp add: jobs_kept_def)

lemma jobs_kept_trans: "jobs_kept h h1 \<Longrightarrow> jobs_kept h1 h2 \<Longrightarrow> jobs_kept h h2"
  by (simp add: jobs_kept_def)

lemma jobs_kept_taken: "jobs_kept h h1 \<Longrightarrow> job_taken h1 j h2 \<Longrightarrow> job_taken h j h2"
  by (simp add: jobs_kept_def job_taken_def)

lemma take_from_spoke:
  assumes wf: "hub_wf h" and a: "a \<in> set (live h)" and s: "spoke_inv s"
    and bound: "spoke_bound s = spoke_bound (spoke_at h a)"
    and jobs: "spoke_jobs (spoke_at h a) = add_mset j (spoke_jobs s)"
    and mapped: "spoke_mapped (spoke_at h a) \<Longrightarrow> spoke_mapped s"
  shows "job_taken h j ((set_spoke a s h)\<lparr>hub_stats := decr_job (hub_stats h)\<rparr>)"
proof -
  obtain R where R: "hub_jobs h = spoke_jobs (spoke_at h a) + R"
    "\<And>s. a < length (spoke_store h) \<Longrightarrow> hub_jobs (set_spoke a s h) = spoke_jobs s + R"
    by (rule hub_jobs_split [OF live_distinct [OF wf] a]) blast
  have new: "hub_jobs (set_spoke a s h) = spoke_jobs s + R"
    by (rule R(2) [OF live_alloc [OF wf a]])
  then have jobs': "hub_jobs h = add_mset j (hub_jobs (set_spoke a s h))" using R(1) jobs by simp
  have "hub_mapped h \<Longrightarrow> hub_mapped (set_spoke a s h)"
    using set_spoke_wf(2) [OF wf a s bound] mapped a by (simp add: hub_mapped_def)
  then show ?thesis
    using set_spoke_wf(1) [OF wf a s bound] jobs'
    by (simp add: job_taken_def hub_counted_def counters_ok_decr_job)
qed

lemma set_spoke_same: "hub_wf h \<Longrightarrow> a \<in> set (live h) \<Longrightarrow> set_spoke a (spoke_at h a) h = h"
  by (simp add: set_spoke_def spoke_at_def)

text \<open>A step that puts one job in, before the counter of jobs goes up.\<close>

definition job_put :: "'f hub \<Rightarrow> job \<Rightarrow> 'f hub \<Rightarrow> bool" where
  "job_put h j h' \<longleftrightarrow> hub_wf h' \<and> hub_jobs h' = add_mset j (hub_jobs h) \<and>
     (counters_ok (size (hub_jobs h)) (length (spoke_map h)) (hub_stats h) \<longrightarrow>
      counters_ok (size (hub_jobs h)) (length (spoke_map h')) (hub_stats h')) \<and>
     (hub_mapped h \<longrightarrow> job_id j \<notin># hub_ids h \<longrightarrow> hub_mapped h') \<and>
     job_filter_state h' = job_filter_state h \<and> spoke_span h' = spoke_span h"

lemma spoke_ids_hub: "a \<in> set (live h) \<Longrightarrow> jid \<in> spoke_ids (spoke_at h a) \<Longrightarrow> jid \<in># hub_ids h"
  by (auto simp: spoke_ids_def hub_ids_def dest: hub_jobs_live)

lemma put_into_spoke:
  assumes wf: "hub_wf h" and a: "a \<in> set (live h)" and s: "spoke_inv s"
    and bound: "spoke_bound s = spoke_bound (spoke_at h a)"
    and jobs: "spoke_jobs s = add_mset j (spoke_jobs (spoke_at h a))"
    and mapped: "spoke_mapped (spoke_at h a) \<Longrightarrow> job_id j \<notin> spoke_ids (spoke_at h a) \<Longrightarrow> spoke_mapped s"
  shows "job_put h j (set_spoke a s h)"
proof -
  obtain R where R: "hub_jobs h = spoke_jobs (spoke_at h a) + R"
    "\<And>s. a < length (spoke_store h) \<Longrightarrow> hub_jobs (set_spoke a s h) = spoke_jobs s + R"
    by (rule hub_jobs_split [OF live_distinct [OF wf] a]) blast
  have new: "hub_jobs (set_spoke a s h) = spoke_jobs s + R"
    by (rule R(2) [OF live_alloc [OF wf a]])
  have "hub_mapped h \<Longrightarrow> job_id j \<notin># hub_ids h \<Longrightarrow> hub_mapped (set_spoke a s h)"
    using set_spoke_wf(2) [OF wf a s bound] mapped a spoke_ids_hub [OF a]
    by (auto simp: hub_mapped_def)
  then show ?thesis
    using set_spoke_wf(1) [OF wf a s bound] new R(1) jobs by (simp add: job_put_def)
qed

text \<open>The way every caller adds to a live spoke.\<close>

lemma spoke_add_live:
  assumes wf: "hub_wf h" and a: "a \<in> set (live h)"
  shows "case spoke_add j (spoke_at h a) of
      Inl e \<Rightarrow> e = ErrJobOutOfSpokeBounds \<and> \<not> is_job_in_bounds j (spoke_at h a)
    | Inr s \<Rightarrow> is_job_in_bounds j (spoke_at h a) \<and> job_put h j (set_spoke a s h)"
proof (cases rule: spoke_add_cases [OF live_inv [OF wf a], of j])
  case 1
  then show ?thesis by simp
next
  case (2 s)
  from put_into_spoke [OF wf a 2(3,4,5,6)] 2(1,2) show ?thesis by simp
qed

section \<open>Finding the owner\<close>

lemma find_owner_cases:
  assumes wf: "hub_wf h"
  obtains (owner) a where "find_owner_spoke rank jid h = Inr a" "a \<in> set (live h)"
      "owns_job jid (spoke_at h a)"
  | (none) "find_owner_spoke rank jid h = Inl ErrNoOwnerSpoke"
      "\<And>a. a \<in> set (live h) \<Longrightarrow> \<not> owns_job jid (spoke_at h a)"
proof -
  let ?P = "\<lambda>a. owns_job jid (spoke_at h a)"
  have live: "set (live h) = insert (past_spoke h) (set (map_range rank h))"
    by (simp add: live_def map_range_set)
  have range: "(\<exists>a. List.find ?P (map_range rank h) = Some a \<and> a \<in> set (live h) \<and> ?P a) \<or>
      (List.find ?P (map_range rank h) = None \<and> (\<forall>a \<in> set (map_range rank h). \<not> ?P a))"
  proof (cases "List.find ?P (map_range rank h)")
    case None
    then show ?thesis by (simp add: find_None_iff)
  next
    case (Some a)
    then have "a \<in> set (map_range rank h) \<and> ?P a" by (auto simp: find_Some_iff)
    with Some show ?thesis by (simp add: live)
  qed
  show ?thesis
  proof (cases "?P (past_spoke h)")
    case True
    then show ?thesis by (intro owner [of "past_spoke h"]) (simp_all add: find_owner_spoke_def)
  next
    case past: False
    show ?thesis
    proof (cases "\<exists>c. current_spoke h = Some c \<and> ?P c")
      case True
      then obtain c where "current_spoke h = Some c" "?P c" by blast
      then show ?thesis using past current_live [OF wf]
        by (intro owner [of c]) (simp_all add: find_owner_spoke_def)
    next
      case False
      then have eq: "find_owner_spoke rank jid h =
          (case List.find ?P (map_range rank h) of Some a \<Rightarrow> Inr a | None \<Rightarrow> Inl ErrNoOwnerSpoke)"
        using past by (auto simp: find_owner_spoke_def split: option.splits)
      from range show ?thesis
      proof (elim disjE exE conjE)
        fix a assume "List.find ?P (map_range rank h) = Some a" "a \<in> set (live h)" "?P a"
        with eq show ?thesis by (intro owner [of a]) simp_all
      next
        assume "List.find ?P (map_range rank h) = None" "\<forall>a \<in> set (map_range rank h). \<not> ?P a"
        with eq past show ?thesis by (intro none) (auto simp: live)
      qed
    qed
  qed
qed

lemma cancel_job_cases:
  assumes wf: "hub_wf h"
  obtains (none) "cancel_job rank jid h = Some (Inr None, h)"
      "\<And>a. a \<in> set (live h) \<Longrightarrow> \<not> owns_job jid (spoke_at h a)"
  | (some) j h' where "cancel_job rank jid h = Some (Inr (Some j), h')" "job_id j = jid"
      "job_taken h j h'"
proof (cases rule: find_owner_cases [OF wf, of rank jid])
  case (1 a)
  show ?thesis
  proof (cases rule: spoke_cancel_cases [OF live_inv [OF wf 1(2)], of jid])
    case 1
    then show ?thesis using \<open>owns_job jid (spoke_at h a)\<close> by simp
  next
    case (2 j s)
    have "cancel_job rank jid h =
        Some (Inr (Some j), (set_spoke a s h)\<lparr>hub_stats := decr_job (hub_stats h)\<rparr>)"
      using 1 2 by (simp add: cancel_job_def)
    from some [OF this 2(3) take_from_spoke [OF wf 1(2) 2(4-7)]] show ?thesis .
  qed
next
  case 2
  then show ?thesis by (intro none) (simp_all add: cancel_job_def)
qed


section \<open>Adding\<close>

lemma add_spoke_put:
  assumes wf: "hub_wf h" and s: "spoke_inv s" "spoke_mapped s" "spoke_jobs s = {#j#}"
    and al: "aligned (spoke_span h) (spoke_bound s)"
    and new: "map_of (spoke_map h) (spoke_bound s) = None"
  shows "job_put h j (add_spoke s h)"
proof -
  define a where "a = length (spoke_store h)"
  obtain i q where alloc: "pq_alloc (spoke_priority_item a s) (spokes h) = (i, q)" by fastforce
  define h' where "h' = add_spoke s h"
  have fresh: "spoke_bound s \<notin> fst ` set (spoke_map h)" using new by (simp add: map_of_eq_None_iff)
  have h': "spoke_map h' = spoke_map h @ [(spoke_bound s, a)]"
    "spoke_store h' = spoke_store h @ [s]" "spokes h' = heap_push i q"
    "past_spoke h' = past_spoke h" "current_spoke h' = current_spoke h"
    "hub_stats h' = incr_spoke (hub_stats h)" "job_filter_state h' = job_filter_state h"
    "spoke_span h' = spoke_span h"
    using alloc by (simp_all add: h'_def add_spoke_def a_def Let_def alist_update_new [OF fresh])
  have added: "pq_added (spokes h) i (spoke_priority_item a s) (heap_push i q)"
    by (rule heap_insert_correct [OF heap_inv [OF wf] alloc])
  have "a \<notin> set (live h)" using live_alloc [OF wf, of a] by (auto simp: a_def)
  have old: "spoke_at h' x = spoke_at h x" if "x \<in> set (live h)" for x
    using live_alloc [OF wf that] by (simp add: spoke_at_def h' nth_append)
  have at_a: "spoke_at h' a = s" by (simp add: spoke_at_def h' a_def)
  have live: "live h' = live h @ [a]" by (simp add: live_def h')
  have jobs: "hub_jobs h' = add_mset j (hub_jobs h)"
  proof -
    have "image_mset (\<lambda>x. spoke_jobs (spoke_at h' x)) (mset (live h)) =
        image_mset (\<lambda>x. spoke_jobs (spoke_at h x)) (mset (live h))"
      by (intro image_mset_cong) (simp add: old)
    then show ?thesis by (simp add: hub_jobs_def live at_a s)
  qed
  have entries: "pq_entries (spokes h') = add_mset (a, b_start (spoke_bound s)) (pq_entries (spokes h))"
    using pq_added_entries [OF added]
    by (simp add: h' spoke_priority_item_def new_item_def)
  have "spokes_wf h'"
    unfolding spokes_wf_def live
  proof (intro conjI ballI)
    show "distinct (live h @ [a])" using live_distinct [OF wf] \<open>a \<notin> set (live h)\<close> by simp
    show "distinct (map fst (spoke_map h'))" using map_distinct [OF wf] fresh by (simp add: h')
  next
    fix x assume "x \<in> set (live h @ [a])"
    then show "x < length (spoke_store h')" and "spoke_inv (spoke_at h' x)"
      using live_alloc [OF wf] live_inv [OF wf] old at_a s a_def h'(2)
      by (auto simp: less_SucI)
  next
    fix x assume "x \<in> set (spoke_map h')"
    then show "case x of (b, c) \<Rightarrow> spoke_bound (spoke_at h' c) = b \<and> aligned (spoke_span h') b"
      using map_bound [OF wf] map_aligned [OF wf] old [OF map_live] at_a al by (auto simp: h')
  qed
  moreover have "heap_wf h'"
    unfolding heap_wf_def
  proof (intro conjI ballI)
    show "pq_inv (spokes h')" using added by (simp add: h' pq_added_def)
    show "mset (map snd (spoke_map h')) = waiting h' + current_mset h'"
      using map_heap [OF wf] by (simp add: h'(1) waiting_def entries) (simp add: h' current_mset_def)
  next
    fix x assume x: "x \<in># pq_entries (spokes h')"
    show "case x of (c, p) \<Rightarrow> p = b_start (spoke_bound (spoke_at h' c))"
    proof (cases "x \<in># pq_entries (spokes h)")
      case True
      then have "fst x \<in># waiting h" by (simp add: waiting_def)
      then have "fst x \<in> set (live h)" using waiting_in_map [OF wf] by (auto simp: live_def)
      with True heap_prio [OF wf] old show ?thesis by (auto split: prod.splits)
    next
      case False
      with x at_a show ?thesis by (simp add: entries)
    qed
  qed
  moreover have "hub_mapped h \<Longrightarrow> hub_mapped h'"
    using old at_a s by (simp add: hub_mapped_def live)
  moreover have "counters_ok (size (hub_jobs h)) (length (spoke_map h)) (hub_stats h) \<Longrightarrow>
      counters_ok (size (hub_jobs h)) (length (spoke_map h')) (hub_stats h')"
    by (simp add: h' counters_ok_incr_spoke)
  ultimately show ?thesis
    using jobs h' unfolding job_put_def h'_def [symmetric] by (simp add: hub_wf_def)
qed

text \<open>The jobs a hub takes.\<close>

definition accepts :: "instant \<Rightarrow> job \<Rightarrow> 'f hub \<Rightarrow> bool" where
  "accepts now j h \<longleftrightarrow>
     (if trigger_at j \<le> now then is_job_in_bounds j (spoke_at h (past_spoke h))
      else 0 < sint (spoke_span h) \<or>
           (\<exists>c. current_spoke h = Some c \<and> is_job_in_bounds j (spoke_at h c)))"

lemma add_future_job_cases:
  assumes wf: "hub_wf h"
  shows "case add_future_job j h of
      Inl e \<Rightarrow> e = ErrJobOutOfSpokeBounds \<and> sint (spoke_span h) \<le> 0
    | Inr h' \<Rightarrow> job_put h j h' \<and> 0 < sint (spoke_span h)"
proof (cases "map_of (spoke_map h) (as_bound (spoke_span h) j)")
  case (Some a)
  then have m: "(as_bound (spoke_span h) j, a) \<in> set (spoke_map h)" by (rule map_of_SomeD)
  then have "0 < sint (spoke_span h)" using map_aligned [OF wf] by (auto simp: aligned_def)
  moreover from this have "is_job_in_bounds j (spoke_at h a)"
    using map_bound [OF wf m] by (simp add: is_job_in_bounds_def as_bound_contains_iff)
  ultimately show ?thesis
    using spoke_add_live [OF wf map_live [OF m], of j] Some
    by (auto simp: add_future_job_def split: sum.splits)
next
  case None
  let ?b = "as_bound (spoke_span h) j"
  let ?n = "new_spoke (b_start ?b) (b_end ?b)"
  have bound: "spoke_bound ?n = ?b" by (simp add: spoke_simps new_bound_def)
  show ?thesis
  proof (cases rule: spoke_add_cases [OF new_spoke_sel(3) [of "b_start ?b" "b_end ?b"], of j])
    case 1
    then show ?thesis using None bound
      by (simp add: add_future_job_def is_job_in_bounds_def as_bound_contains_iff)
  next
    case (2 s)
    then have span: "0 < sint (spoke_span h)"
      using bound by (simp add: is_job_in_bounds_def as_bound_contains_iff)
    have "job_put h j (add_spoke s h)"
    proof (rule add_spoke_put [OF wf 2(3)])
      show "spoke_mapped s" using 2(6) by (simp add: spoke_simps spoke_ids_def)
      show "spoke_jobs s = {#j#}" using 2(5) by (simp add: spoke_simps)
      show "aligned (spoke_span h) (spoke_bound s)" using 2(4) bound span by (simp add: as_bound_aligned)
      show "map_of (spoke_map h) (spoke_bound s) = None" using 2(4) bound None by simp
    qed
    with 2(2) None span show ?thesis by (simp add: add_future_job_def)
  qed
qed

lemma add_job_cases:
  assumes wf: "hub_wf h"
  obtains (reject) "add_job now j h = Inl ErrJobOutOfSpokeBounds" "\<not> accepts now j h"
  | (put) h' where "add_job now j h = Inr h'" "job_put h j h'" "accepts now j h"
proof (cases "trigger_at j \<le> now")
  case True
  then have "job_temporal_state now j = Past" by (simp add: time_simps)
  then show ?thesis
    using spoke_add_live [OF wf past_live, of j] True reject put
    by (auto simp: add_job_def accepts_def split: sum.splits)
next
  case False
  then have "job_temporal_state now j = Future" by (simp add: time_simps)
  note fut = this add_job_def accepts_def False
  show ?thesis
  proof (cases "\<exists>c. current_spoke h = Some c \<and> is_job_in_bounds j (spoke_at h c)")
    case True
    then obtain c where c: "current_spoke h = Some c" "is_job_in_bounds j (spoke_at h c)" by blast
    with spoke_add_live [OF wf current_live [OF wf c(1)], of j] obtain s where
      "spoke_add j (spoke_at h c) = Inr s" "job_put h j (set_spoke c s h)"
      by (auto split: sum.splits)
    with c show ?thesis by (intro put) (auto simp: fut)
  next
    case nc: False
    then have "add_job now j h = add_future_job j h"
      by (auto simp: fut split: option.splits)
    with nc add_future_job_cases [OF wf, of j] reject put show ?thesis
      by (auto simp: fut split: sum.splits)
  qed
qed


section \<open>The parts of next\<close>

lemma next_past_cases:
  assumes wf: "hub_wf h"
  obtains (none) "next_past clk h = Some (None, h)"
      "\<And>j. j \<in># spoke_jobs (spoke_at h (past_spoke h)) \<Longrightarrow> clk 0 < trigger_at j"
  | (some) j h' where "next_past clk h = Some (Some j, h')" "job_taken h j h'"
      "trigger_at j \<le> clk 0" "j \<in># spoke_jobs (spoke_at h (past_spoke h))"
      "\<And>k. k \<in># spoke_jobs (spoke_at h (past_spoke h)) \<Longrightarrow> trigger_at j \<le> trigger_at k"
      "spoke_map h' = spoke_map h" "spokes h' = spokes h" "past_spoke h' = past_spoke h"
      "current_spoke h' = current_spoke h"
      "spoke_jobs (spoke_at h (past_spoke h)) = add_mset j (spoke_jobs (spoke_at h' (past_spoke h)))"
      "\<And>a. a \<noteq> past_spoke h \<Longrightarrow> spoke_at h' a = spoke_at h a"
proof (cases rule: spoke_next_cases [OF live_inv [OF wf past_live], of "clk 0"])
  case 1
  then show ?thesis
    using none set_spoke_same [OF wf past_live] by (simp add: next_past_def)
next
  case (2 j s)
  let ?h = "(set_spoke (past_spoke h) s h)\<lparr>hub_stats := decr_job (hub_stats h)\<rparr>"
  have "next_past clk h = Some (Some j, ?h)" using 2 by (simp add: next_past_def)
  moreover have "spoke_at ?h (past_spoke h) = s"
    using live_alloc [OF wf past_live] by (simp add: spoke_at_set_spoke)
  ultimately show ?thesis
    using take_from_spoke [OF wf past_live 2(3,4,5,7)] 2
    by (intro some [of j ?h]) (simp_all add: spoke_at_set_spoke)
qed

lemma drop_current_cases:
  assumes wf: "hub_wf h"
  obtains (keep) "drop_current clk h = h"
      "\<And>c. current_spoke h = Some c \<Longrightarrow>
         spoke_jobs (spoke_at h c) \<noteq> {#} \<or> clk 1 \<le> b_end (spoke_bound (spoke_at h c))"
  | (drop) c h' where "drop_current clk h = h'" "current_spoke h = Some c" "current_spoke h' = None"
      "jobs_kept h h'" "spoke_jobs (spoke_at h c) = {#}"
      "b_end (spoke_bound (spoke_at h c)) < clk 1"
      "spokes h' = spokes h" "past_spoke h' = past_spoke h" "spoke_store h' = spoke_store h"
      "mset (spoke_map h) = add_mset (spoke_bound (spoke_at h c), c) (mset (spoke_map h'))"
proof (cases "\<exists>c. current_spoke h = Some c \<and> spoke_jobs (spoke_at h c) = {#} \<and>
    b_end (spoke_bound (spoke_at h c)) < clk 1")
  case False
  then show ?thesis
    by (intro keep) (auto simp: drop_current_def spoke_simps spoke_temporal_state_never_future
        time_simps split: option.splits)
next
  case True
  then obtain c where c: "current_spoke h = Some c" "spoke_jobs (spoke_at h c) = {#}"
    "b_end (spoke_bound (spoke_at h c)) < clk 1" by blast
  define b where "b = spoke_bound (spoke_at h c)"
  define m where "m = AList.delete b (spoke_map h)"
  define h' where "h' = drop_current clk h"
  have h': "spoke_map h' = m" "current_spoke h' = None" "spokes h' = spokes h"
    "past_spoke h' = past_spoke h" "spoke_store h' = spoke_store h"
    "hub_stats h' = decr_spoke (hub_stats h)" "job_filter_state h' = job_filter_state h"
    "spoke_span h' = spoke_span h"
    using c by (simp_all add: h'_def drop_current_def spoke_simps time_simps
        spoke_temporal_state_never_future delete_spoke_from_map_def m_def b_def Let_def)
  have "(b, c) \<in> set (spoke_map h)"
    using current_in_map [OF wf c(1)] map_bound [OF wf] by (auto simp: b_def)
  from alist_delete_split [OF map_distinct [OF wf] this]
  have m: "mset (spoke_map h) = add_mset (b, c) (mset m)" by (simp add: m_def)
  have live: "mset (live h) = add_mset c (mset (live h'))"
    using arg_cong [OF m, of "image_mset snd"] by (simp add: live_def h')
  have sub: "set (live h') \<subseteq> set (live h)"
    by (metis live set_mset_mset set_mset_add_mset_insert subset_insertI)
  have sm: "set m \<subseteq> set (spoke_map h)"
    by (metis m set_mset_mset set_mset_add_mset_insert subset_insertI)
  have at: "spoke_at h' x = spoke_at h x" for x by (simp add: spoke_at_def h')
  have "spokes_wf h'"
    unfolding spokes_wf_def
  proof (intro conjI ballI)
    show "distinct (live h')"
      using live_distinct [OF wf] live by (metis distinct.simps(2) mset.simps(2) mset_eq_imp_distinct_iff)
    show "distinct (map fst (spoke_map h'))"
      using map_distinct [OF wf] by (simp add: h' m_def distinct_delete)
    fix x assume "x \<in> set (live h')"
    then show "x < length (spoke_store h')" and "spoke_inv (spoke_at h' x)"
      using sub live_alloc [OF wf] live_inv [OF wf] at h' by auto
  next
    fix x assume "x \<in> set (spoke_map h')"
    then show "case x of (b, c) \<Rightarrow> spoke_bound (spoke_at h' c) = b \<and> aligned (spoke_span h') b"
      using sm map_bound [OF wf] map_aligned [OF wf] at by (auto simp: h')
  qed
  moreover have "heap_wf h'"
    using heap_inv [OF wf] heap_prio [OF wf] map_heap [OF wf] arg_cong [OF m, of "image_mset snd"]
    by (auto simp: heap_wf_def h' at waiting_def current_mset_def c)
  ultimately have wf': "hub_wf h'" by (simp add: hub_wf_def)
  have jobs: "hub_jobs h' = hub_jobs h" by (simp add: hub_jobs_def live at c)
  have "length (spoke_map h) = Suc (length (spoke_map h'))"
    using arg_cong [OF m, of size] by (simp add: h')
  then have "hub_counted h \<Longrightarrow> hub_counted h'"
    by (simp add: hub_counted_def jobs h' counters_ok_decr_spoke)
  then have "jobs_kept h h'"
    using wf' jobs h' sub by (auto simp: jobs_kept_def hub_mapped_def at)
  then show ?thesis
    using c h' m by (intro drop [of h' c]) (simp_all add: h'_def b_def)
qed

lemma choose_current_cases:
  assumes wf: "hub_wf h"
  obtains (keep) c where "choose_current clk h = Some (True, h)" "current_spoke h = Some c"
  | (empty) h' where "choose_current clk h = Some (False, h')" "current_spoke h = None"
      "current_spoke h' = None" "spoke_map h = []" "spoke_map h' = []" "jobs_kept h h'"
      "past_spoke h' = past_spoke h" "spoke_store h' = spoke_store h"
  | (chosen) a h' where "choose_current clk h = Some (True, h')" "current_spoke h = None"
      "current_spoke h' = Some a" "jobs_kept h h'" "waiting h = add_mset a (waiting h')"
      "spoke_map h' = spoke_map h" "past_spoke h' = past_spoke h" "spoke_store h' = spoke_store h"
      "\<And>b. b \<in># waiting h \<Longrightarrow> b_start (spoke_bound (spoke_at h a)) \<le> b_start (spoke_bound (spoke_at h b))"
proof (cases "current_spoke h")
  case (Some c)
  then show ?thesis by (intro keep) (simp_all add: choose_current_def)
next
  case None
  define q where "q = heap_init (spokes h)"
  have "pq_wf (spokes h)" using heap_inv [OF wf] by (simp add: pq_inv_def)
  from heap_init_correct [OF this] have q: "pq_inv q" "pq_same (spokes h) q" by (simp_all add: q_def)
  have entries: "pq_entries q = pq_entries (spokes h)" by (rule pq_entries_same [OF q(2)])
  define h1 where "h1 = h\<lparr>spokes := q\<rparr>"
  have h1: "jobs_kept h h1"
    using wf q(1) entries
    by (auto simp: jobs_kept_def h1_def hub_wf_def spokes_wf_def heap_wf_def waiting_def
        current_mset_def hub_counted_def)
  have map: "mset (map snd (spoke_map h)) = waiting h"
    using map_heap [OF wf] None by (simp add: current_mset_def)
  show ?thesis
  proof (cases "pq_len q = 0")
    case True
    then have "waiting h = {#}" by (simp add: waiting_def entries [symmetric] pq_entries_empty)
    with map have "spoke_map h = []" by simp
    with True None h1 show ?thesis
      by (intro empty [of h1]) (simp_all add: choose_current_def q_def [symmetric] h1_def)
  next
    case False
    obtain e q' where e: "heap_pop_entry q = Some (e, q')"
      using heap_pop_entry_cases(1) [OF q(1)] pq_entries_empty [of q] False by fastforce
    from heap_pop_entry_cases(2) [OF q(1) e] have q': "pq_inv q'"
      "pq_entries q = add_mset e (pq_entries q')" "\<forall>b \<in># pq_entries q. snd e \<le> snd b" by blast+
    obtain i where pop: "heap_pop q = Some (i, q')" and i: "e = pq_entry q' i"
      using e by (auto simp: heap_pop_entry_def pq_entry_def split: option.splits prod.splits)
    have i0: "i = pq_arr q ! 0" "pq_taken q i q'"
      using heap_pop_correct [OF q(1) False] pop by auto
    define a where "a = fst e"
    have at0: "pq_at q 0 = Some (pq_store q ! i)" using False by (simp add: pq_at_def i0)
    have a: "item_value (pq_store q ! i) = a"
      using i pq_taken_entries(1) [OF i0(2)] by (simp add: a_def pq_entry_def)
    define h2 where "h2 = h1\<lparr>current_spoke := Some a, spokes := q'\<rparr>"
    have wait: "waiting h = add_mset a (waiting h2)"
      using q'(2) entries by (simp add: waiting_def h2_def a_def)
    have prio: "p = b_start (spoke_bound (spoke_at h x))" if "(x, p) \<in># pq_entries q" for x p
      using heap_prio [OF wf] that entries by simp
    have "hub_wf h2"
      using h1 q'(1,2) prio map wait
      by (auto simp: jobs_kept_def hub_wf_def spokes_wf_def heap_wf_def h1_def h2_def live_def
          current_mset_def waiting_def)
    then have "jobs_kept h h2"
      by (simp add: jobs_kept_def h1_def h2_def hub_counted_def)
    moreover have "choose_current clk h = Some (True, h2)"
      using None False at0 a pop
      by (simp add: choose_current_def q_def [symmetric] h1_def h2_def Let_def
          spoke_temporal_state_never_future)
    moreover have "b_start (spoke_bound (spoke_at h a)) \<le> b_start (spoke_bound (spoke_at h b))"
      if b: "b \<in># waiting h" for b
    proof -
      from b obtain p where p: "(b, p) \<in># pq_entries q" by (auto simp: waiting_def entries)
      have "snd e \<le> p" using q'(3) p by force
      moreover have "(a, snd e) \<in># pq_entries q" using q'(2) by (simp add: a_def)
      ultimately show ?thesis using prio p by simp
    qed
    ultimately show ?thesis
      using None wait by (intro chosen [of h2 a]) (simp_all add: h2_def h1_def)
  qed
qed

lemma read_current_cases:
  assumes wf: "hub_wf h" and c: "current_spoke h = Some c"
  obtains (none) "read_current clk h = Some (None, h)"
      "\<And>j. j \<in># spoke_jobs (spoke_at h c) \<Longrightarrow> clk 5 < trigger_at j"
  | (some) j h' where "read_current clk h = Some (Some j, h')" "job_taken h j h'"
      "trigger_at j \<le> clk 5" "j \<in># spoke_jobs (spoke_at h c)"
      "\<And>k. k \<in># spoke_jobs (spoke_at h c) \<Longrightarrow> trigger_at j \<le> trigger_at k"
      "spoke_map h' = spoke_map h" "spokes h' = spokes h" "past_spoke h' = past_spoke h"
      "current_spoke h' = current_spoke h"
      "spoke_jobs (spoke_at h c) = add_mset j (spoke_jobs (spoke_at h' c))"
      "spoke_bound (spoke_at h' c) = spoke_bound (spoke_at h c)"
      "\<And>a. a \<noteq> c \<Longrightarrow> spoke_at h' a = spoke_at h a"
proof (cases rule: spoke_next_cases [OF live_inv [OF wf current_live [OF wf c]], of "clk 5"])
  case 1
  then show ?thesis
    using none set_spoke_same [OF wf current_live [OF wf c]] c by (simp add: read_current_def)
next
  case (2 j s)
  let ?h = "(set_spoke c s h)\<lparr>hub_stats := decr_job (hub_stats h)\<rparr>"
  have "read_current clk h = Some (Some j, ?h)" using 2 c by (simp add: read_current_def)
  moreover have "spoke_at ?h c = s"
    using live_alloc [OF wf current_live [OF wf c]] by (simp add: spoke_at_set_spoke)
  ultimately show ?thesis
    using take_from_spoke [OF wf current_live [OF wf c] 2(3,4,5,7)] 2
    by (intro some [of j ?h]) (simp_all add: spoke_at_set_spoke)
qed


section \<open>The whole of next\<close>

text \<open>
  What a hub answers: nothing, with no ready job in the past spoke nor in the current spoke;
  or one job, which has left the hub and was ready.
\<close>

definition next_quiet :: "(nat \<Rightarrow> instant) \<Rightarrow> 'f hub \<Rightarrow> 'f hub \<Rightarrow> bool" where
  "next_quiet clk h h' \<longleftrightarrow>
     (\<forall>j \<in># spoke_jobs (spoke_at h (past_spoke h)). clk 0 < trigger_at j) \<and>
     (case current_spoke h' of
        None \<Rightarrow> spoke_map h' = []
      | Some c \<Rightarrow> (\<forall>j \<in># spoke_jobs (spoke_at h' c). clk 5 < trigger_at j))"

lemma next_job_cases:
  assumes wf: "hub_wf h"
  obtains (none) h' where "next_job clk h = Some (None, h')" "jobs_kept h h'" "next_quiet clk h h'"
  | (some) j h' where "next_job clk h = Some (Some j, h')" "job_taken h j h'"
      "trigger_at j \<le> clk 0 \<or> trigger_at j \<le> clk 5"
proof (cases rule: next_past_cases [OF wf, of clk])
  case (2 j h')
  then show ?thesis by (intro some [of j h']) (simp_all add: next_job_def)
next
  case past: 1
  define h1 where "h1 = drop_current clk h"
  have h1: "jobs_kept h h1" "spoke_store h1 = spoke_store h"
    by (cases rule: drop_current_cases [OF wf, of clk]; simp add: h1_def wf)+
  then have wf1: "hub_wf h1" by (simp add: jobs_kept_def)
  have eq: "next_job clk h = (case choose_current clk h1 of
      None \<Rightarrow> None | Some (False, h2) \<Rightarrow> Some (None, h2) | Some (True, h2) \<Rightarrow> read_current clk h2)"
    using past(1) by (simp add: next_job_def h1_def)
  have read: thesis
    if ch: "choose_current clk h1 = Some (True, h2)" "jobs_kept h h2" "current_spoke h2 = Some c" for h2 c
  proof -
    from ch(2) have wf2: "hub_wf h2" by (simp add: jobs_kept_def)
    show thesis
    proof (cases rule: read_current_cases [OF wf2 ch(3), of clk])
      case 1
      then show ?thesis using past(2) ch by (intro none [of h2]) (simp_all add: eq next_quiet_def)
    next
      case (2 j h')
      then show ?thesis using jobs_kept_taken [OF ch(2)] ch
        by (intro some [of j h']) (simp_all add: eq)
    qed
  qed
  show ?thesis
  proof (cases rule: choose_current_cases [OF wf1, of clk])
    case (1 c)
    then show ?thesis using read h1 by blast
  next
    case (2 h')
    then show ?thesis using past(2) jobs_kept_trans [OF h1(1)]
      by (intro none [of h']) (simp_all add: eq next_quiet_def)
  next
    case (3 a h')
    then show ?thesis using read jobs_kept_trans [OF h1(1)] by blast
  qed
qed

end
