(* ===== verification/Hub_Steps.thy ===== *)
theory Hub_Steps
  imports Hub_Invariant
begin

text \<open>
  The hub as a state machine. A client interacts with a hub by three calls under its lock:
  add a job, take the next ready job, cancel a job by id. \<open>hub_step\<close> is one call with
  its answer, \<open>hub_run\<close> executes a sequence of calls. The invariants hold along every
  run, whatever the membership filter answers; what the filter adds (no two jobs of one id,
  every held job can be cancelled) is proved against its contract.
\<close>

section \<open>The three calls by cases\<close>

lemma hub_add_cases:
  assumes wf: "hub_wf h"
  obtains (duplicate) a where
      "hub_add F rank now j h = (Some (ErrDuplicateJob (job_id j)), h)"
      "f_lookup F (job_id j) (job_filter_state h)" "a \<in> set (live h)" "owns_job (job_id j) (spoke_at h a)"
  | (reject) "hub_add F rank now j h = (Some ErrJobOutOfSpokeBounds, h)" "\<not> accepts now j h"
  | (accept) ok h' where "hub_add F rank now j h = (None, h')" "accepts now j h"
      "f_insert F (job_id j) (job_filter_state h) = (ok, job_filter_state h')"
      "f_lookup F (job_id j) (job_filter_state h) \<Longrightarrow>
         \<forall>a \<in> set (live h). \<not> owns_job (job_id j) (spoke_at h a)"
      "hub_wf h'" "hub_jobs h' = add_mset j (hub_jobs h)" "hub_counted h \<Longrightarrow> hub_counted h'"
      "hub_mapped h \<Longrightarrow> job_id j \<notin># hub_ids h \<Longrightarrow> hub_mapped h'" "spoke_span h' = spoke_span h"
proof -
  let ?dup = "f_lookup F (job_id j) (job_filter_state h) \<and>
      (case find_owner_spoke rank (job_id j) h of Inr _ \<Rightarrow> True | Inl _ \<Rightarrow> False)"
  show ?thesis
  proof (cases ?dup)
    case True
    then show ?thesis
      by (cases rule: find_owner_cases [OF wf, of rank "job_id j"])
        (auto intro!: duplicate simp: hub_add_def)
  next
    case False
    then have fresh: "f_lookup F (job_id j) (job_filter_state h) \<Longrightarrow>
        \<forall>a \<in> set (live h). \<not> owns_job (job_id j) (spoke_at h a)"
      by (cases rule: find_owner_cases [OF wf, of rank "job_id j"]) auto
    show ?thesis
    proof (cases rule: add_job_cases [OF wf, of now j])
      case 1
      with False show ?thesis by (intro reject) (simp_all add: hub_add_def)
    next
      case (2 h1)
      obtain ok f where ins: "f_insert F (job_id j) (job_filter_state h) = (ok, f)" by fastforce
      let ?h = "h1\<lparr>job_filter_state := f, hub_stats := incr_job (hub_stats h1)\<rparr>"
      have eq: "hub_add F rank now j h = (None, ?h)"
        using False 2 ins by (simp add: hub_add_def job_put_def Let_def)
      show ?thesis
        by (rule accept [OF eq 2(3), of ok])
          (use 2 ins fresh in \<open>auto simp: job_put_def hub_counted_def counters_ok_incr_job\<close>)
    qed
  qed
qed

lemma job_taken_filter:
  "job_taken h j h' \<Longrightarrow> hub_wf (h'\<lparr>job_filter_state := f\<rparr>) \<and>
     hub_jobs h = add_mset j (hub_jobs (h'\<lparr>job_filter_state := f\<rparr>)) \<and>
     (hub_counted h \<longrightarrow> hub_counted (h'\<lparr>job_filter_state := f\<rparr>)) \<and>
     (hub_mapped h \<longrightarrow> hub_mapped (h'\<lparr>job_filter_state := f\<rparr>)) \<and>
     spoke_span (h'\<lparr>job_filter_state := f\<rparr>) = spoke_span h"
  by (simp add: job_taken_def)

lemma hub_next_cases:
  assumes wf: "hub_wf h"
  obtains (none) h' where "hub_next F clk h = Some (None, h')" "jobs_kept h h'" "next_quiet clk h h'"
  | (some) j h' ok where "hub_next F clk h = Some (Some j, h')"
      "trigger_at j \<le> clk 0 \<or> trigger_at j \<le> clk 5" "hub_wf h'"
      "hub_jobs h = add_mset j (hub_jobs h')" "hub_counted h \<Longrightarrow> hub_counted h'"
      "hub_mapped h \<Longrightarrow> hub_mapped h'" "spoke_span h' = spoke_span h"
      "f_delete F (job_id j) (job_filter_state h) = (ok, job_filter_state h')"
proof (cases rule: next_job_cases [OF wf, of clk])
  case (1 h')
  then show ?thesis by (intro none [of h']) (simp_all add: hub_next_def)
next
  case (2 j h1)
  obtain ok f where del: "f_delete F (job_id j) (job_filter_state h) = (ok, f)" by fastforce
  have "hub_next F clk h = Some (Some j, h1\<lparr>job_filter_state := f\<rparr>)"
    using 2 del by (simp add: hub_next_def job_taken_def)
  then show ?thesis
    using 2(3) job_taken_filter [OF 2(2), of f] del by (intro some [of j "h1\<lparr>job_filter_state := f\<rparr>" ok]) simp_all
qed

lemma hub_cancel_cases:
  assumes wf: "hub_wf h"
  obtains (absent) "hub_cancel F rank jid h = Some (Inr None, h)"
      "\<not> f_lookup F jid (job_filter_state h)"
  | (unowned) ok h' where "hub_cancel F rank jid h = Some (Inr None, h')"
      "h' = h\<lparr>job_filter_state := job_filter_state h'\<rparr>"
      "f_lookup F jid (job_filter_state h)"
      "f_delete F jid (job_filter_state h) = (ok, job_filter_state h')"
      "\<And>a. a \<in> set (live h) \<Longrightarrow> \<not> owns_job jid (spoke_at h a)"
  | (some) j ok h' where "hub_cancel F rank jid h = Some (Inr (Some j), h')" "job_id j = jid"
      "f_lookup F jid (job_filter_state h)"
      "hub_wf h'" "hub_jobs h = add_mset j (hub_jobs h')" "hub_counted h \<Longrightarrow> hub_counted h'"
      "hub_mapped h \<Longrightarrow> hub_mapped h'" "spoke_span h' = spoke_span h"
      "f_delete F jid (job_filter_state h) = (ok, job_filter_state h')"
proof (cases "f_lookup F jid (job_filter_state h)")
  case False
  then show ?thesis by (intro absent) (simp_all add: hub_cancel_def)
next
  case True
  obtain ok f where del: "f_delete F jid (job_filter_state h) = (ok, f)" by fastforce
  show ?thesis
  proof (cases rule: cancel_job_cases [OF wf, of rank jid])
    case 1
    then show ?thesis using True del
      by (intro unowned [of "h\<lparr>job_filter_state := f\<rparr>" ok]) (simp_all add: hub_cancel_def)
  next
    case (2 j h1)
    have "hub_cancel F rank jid h = Some (Inr (Some j), h1\<lparr>job_filter_state := f\<rparr>)"
      using True 2 del by (simp add: hub_cancel_def job_taken_def)
    then show ?thesis
      using True 2(2) job_taken_filter [OF 2(3), of f] del by (intro some [of j "h1\<lparr>job_filter_state := f\<rparr>" ok]) simp_all
  qed
qed

section \<open>Steps and runs\<close>

datatype hub_op =
    OpAdd "bound \<Rightarrow> nat" instant job
  | OpNext "nat \<Rightarrow> instant"
  | OpCancel "bound \<Rightarrow> nat" string

datatype hub_reply =
    AddReply "go_error option"
  | NextReply "job option"
  | CancelReply "go_error + job option"

inductive hub_step ::
  "'f filter_ops \<Rightarrow> 'f hub \<Rightarrow> hub_op \<Rightarrow> hub_reply \<Rightarrow> 'f hub \<Rightarrow> bool" for F where
  step_add: "hub_add F rank now j h = (e, h') \<Longrightarrow> hub_step F h (OpAdd rank now j) (AddReply e) h'"
| step_next: "hub_next F clk h = Some (r, h') \<Longrightarrow> hub_step F h (OpNext clk) (NextReply r) h'"
| step_cancel: "hub_cancel F rank jid h = Some (r, h') \<Longrightarrow>
    hub_step F h (OpCancel rank jid) (CancelReply r) h'"

inductive_cases hub_step_addE: "hub_step F h (OpAdd rank now j) r h'"
inductive_cases hub_step_nextE: "hub_step F h (OpNext clk) r h'"
inductive_cases hub_step_cancelE: "hub_step F h (OpCancel rank jid) r h'"

inductive_simps hub_step_simps [hub_simps]:
  "hub_step F h (OpAdd rank now j) r h'"
  "hub_step F h (OpNext clk) r h'"
  "hub_step F h (OpCancel rank jid) r h'"

lemmas hub_stepE = hub_step_addE hub_step_nextE hub_step_cancelE

text \<open>The job a call brings into the hub and the job it takes out.\<close>

fun job_in :: "hub_op \<Rightarrow> hub_reply \<Rightarrow> job multiset" where
  "job_in (OpAdd rank now j) (AddReply None) = {#j#}"
| "job_in _ _ = {#}"

fun job_out :: "hub_reply \<Rightarrow> job multiset" where
  "job_out (NextReply (Some j)) = {#j#}"
| "job_out (CancelReply (Inr (Some j))) = {#j#}"
| "job_out _ = {#}"

text \<open>One call, as a function; \<open>None\<close> is a panic.\<close>

fun hub_do :: "'f filter_ops \<Rightarrow> hub_op \<Rightarrow> 'f hub \<Rightarrow> (hub_reply \<times> 'f hub) option" where
  "hub_do F (OpAdd rank now j) h = (let (e, h') = hub_add F rank now j h in Some (AddReply e, h'))"
| "hub_do F (OpNext clk) h = map_option (\<lambda>(r, h'). (NextReply r, h')) (hub_next F clk h)"
| "hub_do F (OpCancel rank jid) h =
     map_option (\<lambda>(r, h'). (CancelReply r, h')) (hub_cancel F rank jid h)"

fun hub_run :: "'f filter_ops \<Rightarrow> hub_op list \<Rightarrow> 'f hub \<Rightarrow> (hub_reply list \<times> 'f hub) option" where
  "hub_run F [] h = Some ([], h)"
| "hub_run F (op # ops) h =
     (case hub_do F op h of
        None \<Rightarrow> None
      | Some (r, h1) \<Rightarrow> map_option (\<lambda>(rs, h'). (r # rs, h')) (hub_run F ops h1))"

lemma hub_do_step: "hub_do F op h = Some (r, h') \<longleftrightarrow> hub_step F h op r h'"
  by (cases op) (auto simp: hub_simps split: prod.splits)

text \<open>The invariant of every run, and what one call does to the jobs.\<close>

definition hub_good :: "'f hub \<Rightarrow> bool" where
  "hub_good h \<longleftrightarrow> hub_wf h \<and> hub_counted h"

lemma new_hub_good: "hub_good (new_hub f span now1 now2)"
  by (simp add: hub_good_def new_hub_wf new_hub_counted)

lemma hub_do_good:
  assumes "hub_good h"
  obtains r h' where "hub_do F op h = Some (r, h')" "hub_good h'"
    "hub_jobs h' + job_out r = hub_jobs h + job_in op r" "spoke_span h' = spoke_span h"
proof -
  from assms have wf: "hub_wf h" and c: "hub_counted h" by (simp_all add: hub_good_def)
  note good = hub_good_def c
  show thesis
  proof (cases op)
    case (OpAdd rank now j)
    show ?thesis
    proof (cases rule: hub_add_cases [OF wf, of F rank now j])
      case (3 ok h')
      then show ?thesis using OpAdd by (intro that [of "AddReply None" h']) (simp_all add: good)
    qed (use OpAdd wf in \<open>auto intro!: that simp: good\<close>)
  next
    case (OpNext clk)
    show ?thesis
    proof (cases rule: hub_next_cases [OF wf, of F clk])
      case (1 h')
      then show ?thesis using OpNext
        by (intro that [of "NextReply None" h']) (simp_all add: good jobs_kept_def)
    next
      case (2 j h' ok)
      then show ?thesis using OpNext by (intro that [of "NextReply (Some j)" h']) (simp_all add: good)
    qed
  next
    case (OpCancel rank jid)
    show ?thesis
    proof (cases rule: hub_cancel_cases [OF wf, of F rank jid])
      case 1
      then show ?thesis using OpCancel wf
        by (intro that [of "CancelReply (Inr None)" h]) (simp_all add: good)
    next
      case (2 ok h')
      obtain f where h': "h' = h\<lparr>job_filter_state := f\<rparr>" using 2(2) by blast
      have "hub_good h'" "hub_jobs h' = hub_jobs h" "spoke_span h' = spoke_span h"
        using wf unfolding h' by (simp_all add: good)
      then show ?thesis using 2(1) OpCancel
        by (intro that [of "CancelReply (Inr None)" h']) simp_all
    next
      case (3 j ok h')
      then show ?thesis using OpCancel
        by (intro that [of "CancelReply (Inr (Some j))" h']) (simp_all add: good)
    qed
  qed
qed

lemma hub_run_good:
  assumes "hub_good h"
  shows "\<exists>rs h'. hub_run F ops h = Some (rs, h') \<and> hub_good h' \<and> length rs = length ops \<and>
    hub_jobs h' + (\<Sum>r\<leftarrow>rs. job_out r) =
    hub_jobs h + (\<Sum>(op, r)\<leftarrow>zip ops rs. job_in op r)"
  using assms
proof (induction ops arbitrary: h)
  case (Cons op ops)
  obtain r h1 where 1: "hub_do F op h = Some (r, h1)" "hub_good h1"
    "hub_jobs h1 + job_out r = hub_jobs h + job_in op r" by (rule hub_do_good [OF Cons.prems])
  from Cons.IH [OF 1(2)] obtain rs h' where 2: "hub_run F ops h1 = Some (rs, h')" "hub_good h'"
    "length rs = length ops" "hub_jobs h' + (\<Sum>r\<leftarrow>rs. job_out r) =
     hub_jobs h1 + (\<Sum>(op, r)\<leftarrow>zip ops rs. job_in op r)" by blast
  let ?out = "\<Sum>r\<leftarrow>rs. job_out r" and ?in = "\<Sum>(op, r)\<leftarrow>zip ops rs. job_in op r"
  have "hub_jobs h' + (job_out r + ?out) = (hub_jobs h1 + job_out r) + ?in"
    using 2(4) by (metis add.assoc add.commute)
  also have "\<dots> = hub_jobs h + (job_in op r + ?in)" by (simp add: 1(3))
  finally show ?case
    using 1(1) 2(1-3) by (intro exI [of _ "r # rs"] exI [of _ h']) simp
qed simp

end
