(* ===== verification/Hub_Inspect.thy ===== *)
theory Hub_Inspect
  imports Hub_Invariant
begin

text \<open>
  \<open>GetNJobs\<close> (\<open>pkg/chronomq/hub.go\<close>): the jobs sent over the channel, in order, as a list.
  The code takes the spokes' locks one after the other but not the hub's; the model is a
  call that no other call overlaps. The count is an \<open>int\<close> (64 bits, wrapping around).
\<close>

section \<open>Definitions\<close>

text \<open>\<open>JobAtIdx\<close> for every index below \<open>PendingJobsLen\<close>.\<close>

definition spoke_job_list :: "spoke \<Rightarrow> job list" where
  "spoke_job_list s = map (\<lambda>i. the (job_at_idx i s)) [0..<pending_jobs_len s]"

text \<open>Both inner loops: send one job, count down, stop at zero.\<close>

fun send_upto :: "64 word \<Rightarrow> job list \<Rightarrow> job list \<times> 64 word" where
  "send_upto n [] = ([], n)"
| "send_upto n (j # js) =
     (let n1 = n - 1
      in if sint n1 \<le> 0 then ([j], n1)
         else let (out, n2) = send_upto n1 js in (j # out, n2))"

text \<open>The loop over the map: the \<open>break\<close> of the code only leaves the inner loop.\<close>

fun send_spokes :: "64 word \<Rightarrow> addr list \<Rightarrow> 'f hub \<Rightarrow> job list" where
  "send_spokes n [] h = []"
| "send_spokes n (a # as) h =
     (let (out, n1) = send_upto n (spoke_job_list (spoke_at h a)) in out @ send_spokes n1 as h)"

definition get_n_jobs :: "(bound \<Rightarrow> nat) \<Rightarrow> 64 word \<Rightarrow> 'f hub \<Rightarrow> job list" where
  "get_n_jobs rank n h =
     (let (out, n1) = send_upto n (spoke_job_list (spoke_at h (past_spoke h)))
      in if sint n1 \<le> 0 then out else out @ send_spokes n1 (map_range rank h) h)"

text \<open>
  \<open>StatusLocked\<close>: what it logs and sends to the metrics, but for the fingerprint count of the
  filter. The counters are read before the lock is taken; here no call comes in between.
\<close>

record hub_status =
  hs_spokes :: "64 word"
  hs_jobs :: "64 word"
  hs_removed :: "64 word"
  hs_past :: nat
  hs_current :: "nat option"

definition status_locked :: "'f hub \<Rightarrow> hub_status" where
  "status_locked h =
     \<lparr>hs_spokes = current_spokes (hub_stats h), hs_jobs = current_jobs (hub_stats h),
      hs_removed = removed_jobs (hub_stats h), hs_past = pending_jobs_len (spoke_at h (past_spoke h)),
      hs_current = map_option (\<lambda>c. pending_jobs_len (spoke_at h c)) (current_spoke h)\<rparr>"

section \<open>Facts\<close>

lemma pending_jobs_size: "pending_jobs_len s = size (spoke_jobs s)"
  by (simp add: pending_jobs_len_def spoke_jobs_def pq_len_def)

text \<open>The gauges of a hub in order: the number of its jobs and of its spokes, the past one apart.\<close>

lemma status_counts:
  assumes "hub_wf h" and "hub_counted h"
  shows "hs_jobs (status_locked h) = word_of_nat (size (hub_jobs h))"
    "hs_spokes (status_locked h) = word_of_nat (length (spoke_map h))"
    "hs_past (status_locked h) + (case hs_current (status_locked h) of None \<Rightarrow> 0 | Some n \<Rightarrow> n) \<le> size (hub_jobs h)"
proof -
  show "hs_jobs (status_locked h) = word_of_nat (size (hub_jobs h))"
    "hs_spokes (status_locked h) = word_of_nat (length (spoke_map h))"
    using assms(2) by (simp_all add: status_locked_def hub_counted_def counters_ok_def)
  have "spoke_jobs (spoke_at h (past_spoke h)) + (case current_spoke h of None \<Rightarrow> {#} | Some c \<Rightarrow> spoke_jobs (spoke_at h c))
      \<subseteq># hub_jobs h"
  proof (cases "current_spoke h")
    case (Some c)
    obtain b where b: "(b, c) \<in> set (spoke_map h)" using current_in_map [OF assms(1) Some] by auto
    then have "c \<in># mset (map snd (spoke_map h))" by force
    then obtain M where "mset (map snd (spoke_map h)) = add_mset c M" by (blast dest: multi_member_split)
    then show ?thesis using Some by (simp add: hub_jobs_def live_def)
  qed (simp add: hub_jobs_def live_def)
  from size_mset_mono [OF this]
  show "hs_past (status_locked h) + (case hs_current (status_locked h) of None \<Rightarrow> 0 | Some n \<Rightarrow> n) \<le> size (hub_jobs h)"
    by (cases "current_spoke h") (simp_all add: status_locked_def pending_jobs_size)
qed

lemma spoke_job_list_eq: "spoke_job_list s = map (queue_job s) (pq_arr (job_queue s))"
  by (intro nth_equalityI)
    (simp_all add: spoke_job_list_def pending_jobs_len_def pq_len_def job_at_idx_def pq_at_def queue_job_def)

lemma spoke_job_list_mset: "mset (spoke_job_list s) = spoke_jobs s"
  by (simp add: spoke_job_list_eq spoke_jobs_def)

lemma sint_minus_1: "- (2 ^ 63) < sint (n :: 64 word) \<Longrightarrow> sint (n - 1) = sint n - 1"
  using sint_greater_eq [of n] sint_less [of n]
  by (simp add: sint_word_ariths signed_take_bit_int_eq_self)

lemma send_upto_prefix: "send_upto n js = (out, n') \<Longrightarrow> \<exists>rest. js = out @ rest"
  by (induction n js arbitrary: out n' rule: send_upto.induct)
    (auto simp: Let_def split: if_splits prod.splits)

lemma send_upto_all:
  "int (length js) \<le> sint n \<Longrightarrow> \<exists>n'. send_upto n js = (js, n') \<and> sint n' = sint n - int (length js)"
proof (induction n js rule: send_upto.induct)
  case (2 n j js)
  have n1: "sint (n - 1) = sint n - 1" using 2(2) by (intro sint_minus_1) simp
  show ?case
  proof (cases "sint (n - 1) \<le> 0")
    case True
    with 2(2) n1 have "js = [] \<and> sint n = 1" by (cases js) auto
    then show ?thesis using True n1 by (simp add: Let_def)
  next
    case False
    with 2 n1 show ?thesis by (auto simp: Let_def)
  qed
qed simp

lemma send_upto_count:
  "send_upto n js = (out, n') \<Longrightarrow> - (2 ^ 63) < sint n \<Longrightarrow>
   int (length out) = min (int (length js)) (max 1 (sint n)) \<and> sint n' = sint n - int (length out)"
proof (induction n js arbitrary: out n' rule: send_upto.induct)
  case (2 n j js)
  have n1: "sint (n - 1) = sint n - 1" by (rule sint_minus_1) (rule 2(3))
  show ?case
  proof (cases "sint (n - 1) \<le> 0")
    case True
    then show ?thesis using 2(2) n1 by (auto simp: Let_def)
  next
    case False
    obtain o1 where o1: "send_upto (n - 1) js = (o1, n')" "out = j # o1"
      using 2(2) False by (auto simp: Let_def split: prod.splits)
    from 2(1) [OF refl False o1(1)] False n1 o1(2) show ?thesis by (auto simp: Let_def)
  qed
qed auto

lemma send_spokes_sub:
  "mset (send_spokes n as h) \<subseteq># (\<Sum>a \<in># mset as. spoke_jobs (spoke_at h a))"
proof (induction n as h rule: send_spokes.induct)
  case (2 n a as h)
  obtain out n1 where 1: "send_upto n (spoke_job_list (spoke_at h a)) = (out, n1)" by fastforce
  then obtain rest where "spoke_job_list (spoke_at h a) = out @ rest" using send_upto_prefix by blast
  then have "mset out \<subseteq># spoke_jobs (spoke_at h a)"
    by (metis mset_append mset_subset_eq_add_left spoke_job_list_mset)
  with 2(1) [OF 1 [symmetric] refl] 1 show ?case by (simp add: subset_mset.add_mono)
qed simp

lemma send_spokes_all:
  "int (size (\<Sum>a \<in># mset as. spoke_jobs (spoke_at h a))) \<le> sint n \<Longrightarrow>
   mset (send_spokes n as h) = (\<Sum>a \<in># mset as. spoke_jobs (spoke_at h a))"
proof (induction n as h rule: send_spokes.induct)
  case (2 n a as h)
  let ?js = "spoke_job_list (spoke_at h a)"
  have len: "length ?js = size (spoke_jobs (spoke_at h a))"
    by (metis size_mset spoke_job_list_mset)
  have "size (\<Sum>a \<in># mset (a # as). spoke_jobs (spoke_at h a)) =
      length ?js + size (\<Sum>a \<in># mset as. spoke_jobs (spoke_at h a))" by (simp add: len)
  then have "int (length ?js) \<le> sint n" using 2(2) by linarith
  then obtain n1 where n1: "send_upto n ?js = (?js, n1)" "sint n1 = sint n - int (length ?js)"
    using send_upto_all by blast
  with 2(1) [OF n1(1) [symmetric] refl] 2(2) len show ?case by (simp add: spoke_job_list_mset)
qed simp

lemma send_spokes_length:
  "int (length as) < 2 ^ 63 \<Longrightarrow> int (length as) - 2 ^ 63 < sint n \<Longrightarrow>
   int (length (send_spokes n as h)) \<le> max 0 (sint n) + int (length as)"
proof (induction n as h rule: send_spokes.induct)
  case (2 n a as h)
  obtain out n1 where 1: "send_upto n (spoke_job_list (spoke_at h a)) = (out, n1)" by fastforce
  from 2(2,3) have "- (2 ^ 63) < sint n" by simp
  from send_upto_count [OF 1 this] have o: "int (length out) \<le> max 1 (sint n)"
    "sint n1 = sint n - int (length out)" by simp_all
  then have "int (length as) - 2 ^ 63 < sint n1" using 2(2,3) by (cases "1 \<le> sint n") auto
  with 2(1) [OF 1 [symmetric] refl] 2(2) have
    "int (length (send_spokes n1 as h)) \<le> max 0 (sint n1) + int (length as)" by simp
  with o 1 show ?case by auto
qed simp

section \<open>What the caller gets\<close>

lemma hub_jobs_map_range:
  assumes "hub_wf h"
  shows "hub_jobs h = spoke_jobs (spoke_at h (past_spoke h)) +
    (\<Sum>a \<in># mset (map_range rank h). spoke_jobs (spoke_at h a))"
proof -
  have "mset (map_range rank h) = mset (map snd (spoke_map h))"
    by (simp add: map_range_def)
  then show ?thesis by (simp add: hub_jobs_def live_def)
qed

lemma get_n_jobs_sub:
  assumes "hub_wf h"
  shows "mset (get_n_jobs rank n h) \<subseteq># hub_jobs h"
proof -
  let ?past = "spoke_job_list (spoke_at h (past_spoke h))"
  obtain out n1 where 1: "send_upto n ?past = (out, n1)" by fastforce
  then obtain rest where "?past = out @ rest" using send_upto_prefix by blast
  then have "mset out \<subseteq># spoke_jobs (spoke_at h (past_spoke h))"
    by (metis mset_append mset_subset_eq_add_left spoke_job_list_mset)
  with 1 send_spokes_sub [of n1 "map_range rank h" h] show ?thesis
    unfolding hub_jobs_map_range [OF assms, of rank]
    by (auto simp: get_n_jobs_def intro: subset_mset.add_mono subset_mset.add_increasing2)
qed

lemma get_n_jobs_all:
  assumes "hub_wf h" and "int (size (hub_jobs h)) \<le> sint n"
  shows "mset (get_n_jobs rank n h) = hub_jobs h"
proof -
  let ?past = "spoke_job_list (spoke_at h (past_spoke h))"
    and ?rest = "\<Sum>a \<in># mset (map_range rank h). spoke_jobs (spoke_at h a)"
  have len: "length ?past = size (spoke_jobs (spoke_at h (past_spoke h)))"
    by (metis size_mset spoke_job_list_mset)
  note jobs = hub_jobs_map_range [OF assms(1), of rank]
  have n: "int (length ?past) + int (size ?rest) \<le> sint n"
    using assms(2) unfolding jobs len by simp
  then have "int (length ?past) \<le> sint n" by linarith
  then obtain n1 where n1: "send_upto n ?past = (?past, n1)" "sint n1 = sint n - int (length ?past)"
    using send_upto_all by blast
  have rest: "mset (send_spokes n1 (map_range rank h) h) = ?rest"
    by (rule send_spokes_all) (use n n1 in simp)
  show ?thesis
  proof (cases "sint n1 \<le> 0")
    case True
    with n n1 have "size ?rest = 0" by linarith
    then have "?rest = {#}" by (rule size_eq_0_iff_empty [THEN iffD1])
    then have "hub_jobs h = spoke_jobs (spoke_at h (past_spoke h))" unfolding jobs by simp
    then show ?thesis using n1(1) True by (simp add: get_n_jobs_def spoke_job_list_mset)
  next
    case False
    have "mset (get_n_jobs rank n h) = mset ?past + mset (send_spokes n1 (map_range rank h) h)"
      using n1(1) False by (simp add: get_n_jobs_def)
    then show ?thesis unfolding jobs rest spoke_job_list_mset .
  qed
qed

text \<open>
  How many jobs come: the loops stop at the number, but once it is used up, each further spoke
  that holds jobs still sends one.
\<close>

definition jobs_in :: "'f hub \<Rightarrow> addr list \<Rightarrow> nat" where
  "jobs_in h as = (\<Sum>a\<leftarrow>as. size (spoke_jobs (spoke_at h a)))"

lemma jobs_in_simps [simp]:
  "jobs_in h [] = 0" "jobs_in h (a # as) = size (spoke_jobs (spoke_at h a)) + jobs_in h as"
  "jobs_in h (as @ bs) = jobs_in h as + jobs_in h bs"
  by (simp_all add: jobs_in_def)

lemma spoke_job_list_length: "length (spoke_job_list s) = size (spoke_jobs s)"
  by (metis size_mset spoke_job_list_mset)

lemma send_spokes_over:
  "int (length as) < 2 ^ 63 \<Longrightarrow> int (length as) - 2 ^ 63 < sint n \<Longrightarrow> sint n \<le> 0 \<Longrightarrow>
   length (send_spokes n as h) = length (filter (\<lambda>a. spoke_jobs (spoke_at h a) \<noteq> {#}) as)"
proof (induction n as h rule: send_spokes.induct)
  case (2 n a as h)
  obtain out n1 where 1: "send_upto n (spoke_job_list (spoke_at h a)) = (out, n1)" by fastforce
  from 2(2,3) have "- (2 ^ 63) < sint n" by simp
  from send_upto_count [OF 1 this] 2(4)
  have o: "int (length out) = min (int (size (spoke_jobs (spoke_at h a)))) 1" "sint n1 = sint n - int (length out)"
    by (simp_all add: spoke_job_list_length)
  then have "length (send_spokes n1 as h) = length (filter (\<lambda>a. spoke_jobs (spoke_at h a) \<noteq> {#}) as)"
    using 2(1) [OF 1 [symmetric] refl] 2(2-4) by auto
  with o(1) 1 show ?case by (auto simp: size_eq_0_iff_empty [symmetric] simp del: size_eq_0_iff_empty)
qed simp

lemma send_spokes_count:
  "0 < sint n \<Longrightarrow> int (length (as @ a # bs)) < 2 ^ 63 \<Longrightarrow> int (jobs_in h as) < sint n \<Longrightarrow>
   sint n \<le> int (jobs_in h (as @ [a])) \<Longrightarrow>
   int (length (send_spokes n (as @ a # bs) h)) =
     sint n + int (length (filter (\<lambda>b. spoke_jobs (spoke_at h b) \<noteq> {#}) bs))"
proof (induction as arbitrary: n)
  case Nil
  obtain out n1 where 1: "send_upto n (spoke_job_list (spoke_at h a)) = (out, n1)" by fastforce
  from send_upto_count [OF 1] Nil
  have o: "int (length out) = sint n" "sint n1 = 0" by (simp_all add: spoke_job_list_length)
  then show ?case using send_spokes_over [of bs n1 h] Nil(2) 1 by simp
next
  case (Cons b as)
  obtain out n1 where 1: "send_upto n (spoke_job_list (spoke_at h b)) = (out, n1)" by fastforce
  from send_upto_count [OF 1] Cons.prems
  have o: "int (length out) = int (size (spoke_jobs (spoke_at h b)))" "sint n1 = sint n - int (length out)"
    by (simp_all add: spoke_job_list_length)
  then show ?case using Cons.IH [of n1] Cons.prems 1 by simp
qed

lemma get_n_jobs_count:
  assumes "0 < sint n" and "int (length (spoke_map h)) < 2 ^ 63" and "map_range rank h = as @ a # bs"
    and "int (jobs_in h (past_spoke h # as)) < sint n" and "sint n \<le> int (jobs_in h (past_spoke h # as @ [a]))"
  shows "int (length (get_n_jobs rank n h)) =
    sint n + int (length (filter (\<lambda>b. spoke_jobs (spoke_at h b) \<noteq> {#}) bs))"
proof -
  obtain out n1 where 1: "send_upto n (spoke_job_list (spoke_at h (past_spoke h))) = (out, n1)"
    by fastforce
  from send_upto_count [OF 1] assms(1,4)
  have o: "int (length out) = int (size (spoke_jobs (spoke_at h (past_spoke h))))" "sint n1 = sint n - int (length out)"
    by (simp_all add: spoke_job_list_length)
  have "int (length (as @ a # bs)) < 2 ^ 63" using assms(2) by (simp add: map_range_def flip: assms(3))
  then show ?thesis
    using send_spokes_count [of n1 as a bs h] o assms 1 by (simp add: get_n_jobs_def)
qed

lemma get_n_jobs_length:
  assumes "0 < sint n" and "int (length (spoke_map h)) < 2 ^ 63"
  shows "int (length (get_n_jobs rank n h)) \<le> sint n + int (length (spoke_map h))"
proof -
  obtain out n1 where 1: "send_upto n (spoke_job_list (spoke_at h (past_spoke h))) = (out, n1)"
    by fastforce
  have "- (2 ^ 63) < sint n" using assms(1) by simp
  from send_upto_count [OF 1 this] have o: "int (length out) \<le> sint n"
    "sint n1 = sint n - int (length out)" using assms(1) by auto
  have l: "length (map_range rank h) = length (spoke_map h)" by (simp add: map_range_def)
  show ?thesis
  proof (cases "sint n1 \<le> 0")
    case True
    then show ?thesis using 1 o by (simp add: get_n_jobs_def)
  next
    case False
    then have "int (length (send_spokes n1 (map_range rank h) h)) \<le> sint n1 + int (length (spoke_map h))"
      using send_spokes_length [of "map_range rank h" n1 h] assms(2) l by simp
    then show ?thesis using 1 o False by (simp add: get_n_jobs_def)
  qed
qed

end
