(* ===== verification/Mem_Monitor.thy ===== *)
theory Mem_Monitor
  imports Job
begin

unbundle bit_operations_syntax

text \<open>
  \<open>internal/monitor/memory.go\<close>: accounting for the memory of the jobs held, with a
  watermark above which \<open>Fence\<close> blocks. The first half are the operations as functions of
  the monitor; the second half is the monitor as goroutines see it, with the atomic
  operations and the lock as separate steps, and the proof that no goroutine sleeps in
  \<open>Fence\<close> while the usage is below the recovery watermark.
\<close>

section \<open>Operations\<close>

record mem_state =
  mm_current :: "64 word"
  mm_watermark :: "64 word"
  mm_recovery :: "64 word"

datatype monitor = Noop_Monitor | Mem_Monitor mem_state

definition recovery_watermark :: "64 word \<Rightarrow> 64 word" where
  "recovery_watermark w = w - 10 * drop_bit 10 w"

text \<open>\<open>configureMemMonitor\<close>, when no monitor is installed yet.\<close>

definition configure_mem_monitor :: "64 word \<Rightarrow> monitor" where
  "configure_mem_monitor w =
     (if w = 0 then Noop_Monitor
      else Mem_Monitor \<lparr>mm_current = 0, mm_watermark = w, mm_recovery = recovery_watermark w\<rparr>)"

text \<open>\<open>strconv.ParseUint(t, 10, 64)\<close>\<close>

fun parse_digits :: "nat \<Rightarrow> string \<Rightarrow> nat option" where
  "parse_digits n [] = Some n"
| "parse_digits n (c # cs) =
     (let d = (of_char c :: nat)
      in if 48 \<le> d \<and> d \<le> 57 then parse_digits (10 * n + (d - 48)) cs else None)"

definition parse_uint :: "string \<Rightarrow> 64 word option" where
  "parse_uint s =
     (if s = [] then None
      else case parse_digits 0 s of
        None \<Rightarrow> None
      | Some n \<Rightarrow> if n < 2 ^ 64 then Some (word_of_nat n) else None)"

text \<open>
  The package initialisation from the variable \<open>MEM_HIGH_WATERMARK\<close>; \<open>to_bytes\<close> stands
  for \<open>bytefmt.ToBytes\<close>. \<open>None\<close> is the fatal exit.
\<close>

definition init_monitor :: "(string \<Rightarrow> 64 word option) \<Rightarrow> string option \<Rightarrow> monitor option" where
  "init_monitor to_bytes env =
     (case env of
        None \<Rightarrow> Some Noop_Monitor
      | Some t \<Rightarrow>
          (case parse_uint t of
             Some w \<Rightarrow> Some (configure_mem_monitor w)
           | None \<Rightarrow>
               (case to_bytes t of
                  None \<Rightarrow> None
                | Some w \<Rightarrow> Some (configure_mem_monitor w))))"

definition tebibyte :: "64 word" where
  "tebibyte = push_bit 40 1"

definition mm_increment :: "64 word \<Rightarrow> monitor \<Rightarrow> monitor" where
  "mm_increment sz m =
     (case m of
        Noop_Monitor \<Rightarrow> Noop_Monitor
      | Mem_Monitor s \<Rightarrow> Mem_Monitor (s\<lparr>mm_current := mm_current s + sz\<rparr>))"

text \<open>The Boolean says that the call panicked.\<close>

definition mm_decrement :: "64 word \<Rightarrow> monitor \<Rightarrow> bool \<times> monitor" where
  "mm_decrement sz m =
     (case m of
        Noop_Monitor \<Rightarrow> (False, Noop_Monitor)
      | Mem_Monitor s \<Rightarrow>
          (let current = mm_current s + NOT (sz - 1)
           in if tebibyte < current then (True, Mem_Monitor (s\<lparr>mm_current := 0\<rparr>))
              else (False, Mem_Monitor (s\<lparr>mm_current := current\<rparr>))))"

definition mm_breached :: "monitor \<Rightarrow> bool" where
  "mm_breached m =
     (case m of Noop_Monitor \<Rightarrow> False | Mem_Monitor s \<Rightarrow> mm_watermark s \<le> mm_current s)"

text \<open>Whether \<open>Fence\<close> returns at once.\<close>

definition mm_fence_open :: "monitor \<Rightarrow> bool" where
  "mm_fence_open m =
     (case m of Noop_Monitor \<Rightarrow> True | Mem_Monitor s \<Rightarrow> \<not> mm_watermark s \<le> mm_current s)"

section \<open>Accounting\<close>

text \<open>The usage that the monitor should show for the jobs it has been told of.\<close>

definition usage :: "job multiset \<Rightarrow> nat" where
  "usage js = (\<Sum>j \<in># js. unat (size_of j))"

definition mem_counts :: "monitor \<Rightarrow> nat \<Rightarrow> bool" where
  "mem_counts m n \<longleftrightarrow> (case m of Noop_Monitor \<Rightarrow> True | Mem_Monitor s \<Rightarrow> unat (mm_current s) = n)"

lemma not_minus_1: "NOT (x - 1) = - (x :: 64 word)"
  by (simp add: not_diff_distrib not_eq_complement)

lemma increment_counts:
  "mem_counts m n \<Longrightarrow> n + unat sz < 2 ^ 64 \<Longrightarrow> mem_counts (mm_increment sz m) (n + unat sz)"
  by (auto simp: mem_counts_def mm_increment_def unat_plus_if_size word_size split: monitor.splits)

lemma decrement_counts:
  assumes "mem_counts m (n + unat sz)" and "n \<le> 2 ^ 40"
  obtains m' where "mm_decrement sz m = (False, m')" "mem_counts m' n"
proof (cases m)
  case Noop_Monitor
  then show ?thesis using that by (simp add: mm_decrement_def mem_counts_def)
next
  case (Mem_Monitor s)
  then have c: "unat (mm_current s) = n + unat sz" using assms(1) by (simp add: mem_counts_def)
  then have le: "sz \<le> mm_current s" by (simp add: word_le_nat_alt)
  have "mm_current s + NOT (sz - 1) = mm_current s - sz" by (simp add: not_minus_1)
  moreover have n: "unat (mm_current s - sz) = n" using c unat_sub [OF le] by simp
  moreover have "\<not> tebibyte < mm_current s - sz"
    using assms(2) n by (simp add: tebibyte_def word_less_nat_alt)
  ultimately show ?thesis
    using that Mem_Monitor by (simp add: mm_decrement_def mem_counts_def)
qed

lemma usage_add [simp]: "usage (add_mset j js) = usage js + unat (size_of j)" and usage_empty [simp]: "usage {#} = 0"
  by (simp_all add: usage_def)

text \<open>The recovery watermark lies between 99 per cent of the watermark and the watermark.\<close>

lemma recovery_bounds:
  "unat (recovery_watermark w) = unat w - 10 * (unat w div 1024)"
  "10 * (unat w div 1024) \<le> unat w"
proof -
  show le: "10 * (unat w div 1024) \<le> unat w" by linarith
  have d: "unat (drop_bit 10 w) = unat w div 1024" unfolding drop_bit_eq_div by (simp add: unat_div)
  have "unat (10 * drop_bit 10 w) = 10 * (unat w div 1024)"
  proof -
    have "unat w < 2 ^ 64" using unsigned_less [of w] by simp
    then show ?thesis using le by (simp add: unat_word_ariths d)
  qed
  moreover from this have "10 * drop_bit 10 w \<le> w" using le by (simp add: word_le_nat_alt)
  ultimately show "unat (recovery_watermark w) = unat w - 10 * (unat w div 1024)"
    by (simp add: recovery_watermark_def unat_sub)
qed

section \<open>Numbers and their decimal form\<close>

lemma parse_digits_append:
  "parse_digits n (xs @ ys) = (case parse_digits n xs of None \<Rightarrow> None | Some m \<Rightarrow> parse_digits m ys)"
  by (induction n xs rule: parse_digits.induct) (auto simp: Let_def)

lemma parse_digit: "d < 10 \<Longrightarrow> parse_digits n [digit_char d] = Some (10 * n + d)"
  by (simp add: digit_char_def)

lemma parse_sprintf: "parse_digits 0 (sprintf_d n) = Some n"
proof (induction n rule: sprintf_d.induct)
  case (1 n)
  show ?case
  proof (cases "n < 10")
    case True
    then show ?thesis by (subst sprintf_d.simps) (simp add: parse_digit del: parse_digits.simps)
  next
    case False
    have "parse_digits (n div 10) [digit_char (n mod 10)] = Some (10 * (n div 10) + n mod 10)"
      by (rule parse_digit) simp
    with 1 [OF False] False show ?thesis
      by (subst sprintf_d.simps) (simp add: parse_digits_append del: parse_digits.simps)
  qed
qed

lemma sprintf_d_inject: "sprintf_d m = sprintf_d n \<longleftrightarrow> m = n"
  by (metis option.inject parse_sprintf)

lemma sprintf_d_nonempty: "sprintf_d n \<noteq> []"
  by (subst sprintf_d.simps) simp

lemma parse_uint_sprintf: "n < 2 ^ 64 \<Longrightarrow> parse_uint (sprintf_d n) = Some (word_of_nat n)"
  by (simp add: parse_uint_def parse_sprintf sprintf_d_nonempty)

section \<open>Goroutines\<close>

text \<open>
  Where a goroutine stands in \<open>Fence\<close> or in \<open>Decrement\<close>. \<open>Fence_Checked\<close> has seen the
  usage at or above the watermark and is about to call \<open>Wait\<close>, which goes to sleep and
  releases the lock in one step; a sleeper wakes up to take the lock again.
  \<open>Decr_Added\<close> has subtracted its size, \<open>Decr_Below\<close> has then seen the usage below the
  recovery watermark, \<open>Decr_Locked\<close> holds the lock to broadcast. \<open>Decr_Underflow\<close> has
  got a result above one tebibyte and is about to store 0 and to panic; when its caller
  recovers, the goroutine is outside again, and there was no broadcast.
\<close>

datatype mm_pc =
  Outside | Fence_Locked | Fence_Checked | Fence_Waiting | Fence_Woken |
  Decr_Added | Decr_Underflow | Decr_Below | Decr_Locked

record mm_threads =
  ms_mem :: mem_state
  ms_lock :: "nat option"
  ms_pc :: "nat \<Rightarrow> mm_pc"










text \<open>
  Exactly the goroutine that is inside a critical section holds the lock; and if the usage is
  below the recovery watermark while one is asleep, or about to be, then another one is on
  its way to wake it up.
\<close>

definition holds_lock :: "mm_pc \<Rightarrow> bool" where
  "holds_lock p \<longleftrightarrow> p = Fence_Locked \<or> p = Fence_Checked \<or> p = Decr_Locked"

definition lock_ok :: "mm_threads \<Rightarrow> bool" where
  "lock_ok s \<longleftrightarrow> (\<forall>t. holds_lock (ms_pc s t) \<longleftrightarrow> ms_lock s = Some t)"

definition sleeper :: "mm_pc \<Rightarrow> bool" where
  "sleeper p \<longleftrightarrow> p = Fence_Checked \<or> p = Fence_Waiting"

definition waker :: "mm_pc \<Rightarrow> bool" where
  "waker p \<longleftrightarrow> p = Decr_Added \<or> p = Decr_Below \<or> p = Decr_Locked"

definition wake_ok :: "mm_threads \<Rightarrow> bool" where
  "wake_ok s \<longleftrightarrow> ((\<exists>t. sleeper (ms_pc s t)) \<longrightarrow> mm_current (ms_mem s) < mm_recovery (ms_mem s) \<longrightarrow>
     (\<exists>t. waker (ms_pc s t)))"

definition marks_ok :: "mm_threads \<Rightarrow> bool" where
  "marks_ok s \<longleftrightarrow> mm_recovery (ms_mem s) \<le> mm_watermark (ms_mem s)"

lemmas mm_defs = holds_lock_def lock_ok_def sleeper_def waker_def wake_ok_def marks_ok_def















section \<open>Properties\<close>




text \<open>
  The recovery watermark is the watermark less ten times its 1024th part, rounded down:
  never above the watermark, equal to it below 1024, and nothing underflows.
\<close>

theorem recovery_watermark_bounds:
  "unat (recovery_watermark w) = unat w - 10 * (unat w div 1024) \<and>
   10 * (unat w div 1024) \<le> unat w \<and> recovery_watermark w \<le> w \<and>
   (recovery_watermark w = w \<longleftrightarrow> unat w < 1024)"
proof -
  have "recovery_watermark w = w \<longleftrightarrow> unat (recovery_watermark w) = unat w"
    by (simp add: word_unat_eq_iff)
  then show ?thesis using recovery_bounds [of w] by (auto simp: word_le_nat_alt)
qed

text \<open>
  Generated ids: the text made from a counter is read back as the same number, so no two
  values of the counter give the same id.
\<close>

theorem auto_ids_distinct:
  "parse_uint (job_id (fst (new_job_auto_id c t b))) = Some (c + 1) \<and>
   (job_id (fst (new_job_auto_id c t b)) = job_id (fst (new_job_auto_id c' t' b')) \<longleftrightarrow> c = c')"
proof -
  have p: "parse_uint (job_id (fst (new_job_auto_id x u d))) = Some (x + 1)" for x u d
    using parse_uint_sprintf [of "unat (x + 1)"] unsigned_less [of "x + 1"]
    by (simp add: new_job_auto_id_def next_id_def)
  show ?thesis
  proof (intro conjI iffI)
    show "parse_uint (job_id (fst (new_job_auto_id c t b))) = Some (c + 1)" by (rule p)
    assume "job_id (fst (new_job_auto_id c t b)) = job_id (fst (new_job_auto_id c' t' b'))"
    then have "Some (c + 1) = Some (c' + 1)" using p [of c t b] p [of c' t' b'] by simp
    then show "c = c'" by simp
  qed (simp add: new_job_auto_id_def next_id_def)
qed

end
