(* ===== verification/Cuckoo_Filter.thy ===== *)
theory Cuckoo_Filter
  imports Job_Filter
begin

unbundle bit_operations_syntax

text \<open>
  The cuckoo filter the hub is built with
  (\<open>vendor/github.com/seiflotfy/cuckoofilter\<close>): buckets of four one-byte fingerprints,
  two candidate buckets per item, and eviction when both are full. The hash
  \<open>metro.Hash64\<close> is a parameter \<open>hash\<close> (any function of the bytes and the seed), and
  the global source of \<open>math/rand\<close> is a tape of numbers \<open>tape\<close> with the position
  read so far in the state. The theory ends with the proof that this code provides the
  contract of \<open>Job_Filter\<close>.
\<close>

type_synonym bucket = "8 word list"
type_synonym hash64 = "bytes \<Rightarrow> 64 word \<Rightarrow> 64 word"

record cuckoo =
  ck_buckets :: "bucket list"
  ck_count :: "64 word"

section \<open>Buckets\<close>

definition bucket_size :: nat where
  "bucket_size = 4"

fun bucket_insert :: "8 word \<Rightarrow> bucket \<Rightarrow> bool \<times> bucket" where
  "bucket_insert fp [] = (False, [])"
| "bucket_insert fp (t # ts) =
     (if t = 0 then (True, fp # ts)
      else let (ok, ts') = bucket_insert fp ts in (ok, t # ts'))"

fun bucket_delete :: "8 word \<Rightarrow> bucket \<Rightarrow> bool \<times> bucket" where
  "bucket_delete fp [] = (False, [])"
| "bucket_delete fp (t # ts) =
     (if t = fp then (True, 0 # ts)
      else let (ok, ts') = bucket_delete fp ts in (ok, t # ts'))"

text \<open>\<open>getFingerprintIndex\<close>; the loop counts \<open>i\<close> up from 0.\<close>

fun bucket_index_from :: "int \<Rightarrow> 8 word \<Rightarrow> bucket \<Rightarrow> int" where
  "bucket_index_from i fp [] = -1"
| "bucket_index_from i fp (t # ts) = (if t = fp then i else bucket_index_from (i + 1) fp ts)"

definition bucket_index :: "8 word \<Rightarrow> bucket \<Rightarrow> int" where
  "bucket_index fp b = bucket_index_from 0 fp b"

definition bucket_reset :: "bucket \<Rightarrow> bucket" where
  "bucket_reset b = map (\<lambda>_. 0) b"

section \<open>Indices and fingerprints\<close>

definition get_alt_index :: "hash64 \<Rightarrow> 8 word \<Rightarrow> 64 word \<Rightarrow> 64 word \<Rightarrow> 64 word" where
  "get_alt_index hash fp i num_buckets = (i XOR hash [fp] 1337) mod num_buckets"

definition get_fingerprint :: "hash64 \<Rightarrow> bytes \<Rightarrow> 8 word" where
  "get_fingerprint hash data = ucast (hash data 1335 mod 255 + 1)"

definition get_indices_and_fingerprint ::
  "hash64 \<Rightarrow> bytes \<Rightarrow> 64 word \<Rightarrow> 64 word \<times> 64 word \<times> 8 word" where
  "get_indices_and_fingerprint hash data num_buckets =
     (let h = hash data 1337;
          f = get_fingerprint hash data;
          i1 = h mod num_buckets;
          i2 = get_alt_index hash f i1 num_buckets
      in (i1, i2, f))"

definition get_next_pow2 :: "64 word \<Rightarrow> 64 word" where
  "get_next_pow2 n =
     (let n = n - 1;
          n = n OR drop_bit 1 n;
          n = n OR drop_bit 2 n;
          n = n OR drop_bit 4 n;
          n = n OR drop_bit 8 n;
          n = n OR drop_bit 16 n;
          n = n OR drop_bit 32 n
      in n + 1)"

section \<open>The filter\<close>

definition new_filter :: "64 word \<Rightarrow> cuckoo" where
  "new_filter capacity =
     (let c = get_next_pow2 capacity div word_of_nat bucket_size;
          c = (if c = 0 then 1 else c)
      in \<lparr>ck_buckets = replicate (unat c) (replicate bucket_size 0), ck_count = 0\<rparr>)"

definition num_buckets :: "cuckoo \<Rightarrow> 64 word" where
  "num_buckets cf = word_of_nat (length (ck_buckets cf))"

definition cf_lookup :: "hash64 \<Rightarrow> bytes \<Rightarrow> cuckoo \<Rightarrow> bool" where
  "cf_lookup hash data cf =
     (let (i1, i2, fp) = get_indices_and_fingerprint hash data (num_buckets cf);
          b1 = ck_buckets cf ! unat i1; b2 = ck_buckets cf ! unat i2
      in bucket_index fp b1 > -1 \<or> bucket_index fp b2 > -1)"

definition cf_reset :: "cuckoo \<Rightarrow> cuckoo" where
  "cf_reset cf = cf\<lparr>ck_buckets := map bucket_reset (ck_buckets cf), ck_count := 0\<rparr>"

text \<open>\<open>rand.Intn(n)\<close> reads the next number of the tape.\<close>

definition rand_intn :: "(nat \<Rightarrow> nat) \<Rightarrow> nat \<Rightarrow> nat \<Rightarrow> nat \<times> nat" where
  "rand_intn tape p n = (tape p mod n, Suc p)"

definition randi :: "(nat \<Rightarrow> nat) \<Rightarrow> nat \<Rightarrow> 64 word \<Rightarrow> 64 word \<Rightarrow> 64 word \<times> nat" where
  "randi tape p i1 i2 = (let (r, p') = rand_intn tape p 2 in (if r = 0 then i1 else i2, p'))"

text \<open>\<open>insert\<close> and \<open>delete\<close> of one bucket, with the count.\<close>

definition cf_insert_at :: "8 word \<Rightarrow> 64 word \<Rightarrow> cuckoo \<Rightarrow> bool \<times> cuckoo" where
  "cf_insert_at fp i cf =
     (let (ok, b) = bucket_insert fp (ck_buckets cf ! unat i);
          cf1 = cf\<lparr>ck_buckets := (ck_buckets cf)[unat i := b]\<rparr>
      in if ok then (True, cf1\<lparr>ck_count := ck_count cf1 + 1\<rparr>) else (False, cf1))"

definition cf_delete_at :: "8 word \<Rightarrow> 64 word \<Rightarrow> cuckoo \<Rightarrow> bool \<times> cuckoo" where
  "cf_delete_at fp i cf =
     (let (ok, b) = bucket_delete fp (ck_buckets cf ! unat i);
          cf1 = cf\<lparr>ck_buckets := (ck_buckets cf)[unat i := b]\<rparr>
      in if ok then (True, cf1\<lparr>ck_count := ck_count cf1 - 1\<rparr>) else (False, cf1))"

definition max_cuckoo_count :: nat where
  "max_cuckoo_count = 500"

text \<open>The eviction loop, with the number of rounds left.\<close>

fun cf_reinsert ::
  "hash64 \<Rightarrow> (nat \<Rightarrow> nat) \<Rightarrow> nat \<Rightarrow> 8 word \<Rightarrow> 64 word \<Rightarrow> cuckoo \<Rightarrow> nat \<Rightarrow> bool \<times> cuckoo \<times> nat" where
  "cf_reinsert hash tape 0 fp i cf p = (False, cf, p)"
| "cf_reinsert hash tape (Suc k) fp i cf p =
     (let (j, p1) = rand_intn tape p bucket_size;
          b = ck_buckets cf ! unat i;
          oldfp = fp;
          fp1 = b ! j;
          cf1 = cf\<lparr>ck_buckets := (ck_buckets cf)[unat i := b[j := oldfp]]\<rparr>;
          i1 = get_alt_index hash fp1 i (num_buckets cf1);
          (ok, cf2) = cf_insert_at fp1 i1 cf1
      in if ok then (True, cf2, p1) else cf_reinsert hash tape k fp1 i1 cf2 p1)"

definition cf_insert ::
  "hash64 \<Rightarrow> (nat \<Rightarrow> nat) \<Rightarrow> bytes \<Rightarrow> cuckoo \<Rightarrow> nat \<Rightarrow> bool \<times> cuckoo \<times> nat" where
  "cf_insert hash tape data cf p =
     (let (i1, i2, fp) = get_indices_and_fingerprint hash data (num_buckets cf);
          (ok1, cf1) = cf_insert_at fp i1 cf
      in if ok1 then (True, cf1, p)
         else let (ok2, cf2) = cf_insert_at fp i2 cf1
              in if ok2 then (True, cf2, p)
                 else let (i, p1) = randi tape p i1 i2
                      in cf_reinsert hash tape max_cuckoo_count fp i cf2 p1)"

definition cf_delete :: "hash64 \<Rightarrow> bytes \<Rightarrow> cuckoo \<Rightarrow> bool \<times> cuckoo" where
  "cf_delete hash data cf =
     (let (i1, i2, fp) = get_indices_and_fingerprint hash data (num_buckets cf);
          (ok1, cf1) = cf_delete_at fp i1 cf
      in if ok1 then (True, cf1) else cf_delete_at fp i2 cf1)"

text \<open>The three methods as the hub calls them, on the filter and the random source.\<close>

definition cuckoo_ops :: "hash64 \<Rightarrow> (nat \<Rightarrow> nat) \<Rightarrow> (cuckoo \<times> nat) filter_ops" where
  "cuckoo_ops hash tape =
     \<lparr>f_lookup = \<lambda>s (cf, p). cf_lookup hash (bytes_of s) cf,
      f_insert = \<lambda>s (cf, p). cf_insert hash tape (bytes_of s) cf p,
      f_delete = \<lambda>s (cf, p). (let (ok, cf') = cf_delete hash (bytes_of s) cf in (ok, cf', p))\<rparr>"

section \<open>Facts on buckets\<close>

definition entries :: "bucket \<Rightarrow> 8 word multiset" where
  "entries b = filter_mset (\<lambda>fp. fp \<noteq> 0) (mset b)"

lemma bucket_insert_cases:
  "bucket_insert fp b = (ok, b') \<Longrightarrow> fp \<noteq> 0 \<Longrightarrow> length b' = length b \<and>
     (if ok then entries b' = add_mset fp (entries b) else b' = b \<and> 0 \<notin> set b)"
proof (induction b arbitrary: b')
  case (Cons t ts)
  then show ?case
    by (cases "bucket_insert fp ts") (auto simp: entries_def split: if_splits)
qed (simp add: entries_def)

lemma bucket_delete_cases:
  "bucket_delete fp b = (ok, b') \<Longrightarrow> fp \<noteq> 0 \<Longrightarrow> length b' = length b \<and>
     (if ok then fp \<in> set b \<and> entries b = add_mset fp (entries b') else b' = b \<and> fp \<notin> set b)"
proof (induction b arbitrary: b')
  case (Cons t ts)
  then show ?case
    by (cases "bucket_delete fp ts") (auto simp: entries_def split: if_splits)
qed (simp add: entries_def)

lemma bucket_index_iff: "bucket_index fp b > -1 \<longleftrightarrow> fp \<in> set b"
proof -
  have "0 \<le> i \<Longrightarrow> bucket_index_from i fp b > -1 \<longleftrightarrow> fp \<in> set b" for i
    by (induction b arbitrary: i) auto
  then show ?thesis by (simp add: bucket_index_def)
qed

lemma entries_update:
  assumes "j < length b" and "0 \<notin> set b" and "fp \<noteq> 0"
  shows "add_mset (b ! j) (entries (b[j := fp])) = add_mset fp (entries b)" and "b ! j \<noteq> 0"
proof -
  show nz: "b ! j \<noteq> 0" using assms by (metis nth_mem)
  obtain R where R: "mset b = add_mset (b ! j) R" using assms(1) by (metis mset_add nth_mem_mset)
  then have "mset (b[j := fp]) = add_mset fp R" by (simp add: assms mset_update)
  with R show "add_mset (b ! j) (entries (b[j := fp])) = add_mset fp (entries b)"
    using assms(3) nz by (simp add: entries_def add_mset_commute)
qed

lemma fingerprint_nonzero: "get_fingerprint hash data \<noteq> 0"
proof -
  let ?m = "hash data 1335 mod 255"
  have m: "unat ?m < 255" by (simp add: unat_mod)
  then have "unat (?m + 1) = unat ?m + 1" by (simp add: unat_plus_if_size word_size)
  then have "unat (get_fingerprint hash data) = (unat ?m + 1) mod 256"
    unfolding get_fingerprint_def by (simp add: unsigned_ucast_eq take_bit_eq_mod)
  with m have "unat (get_fingerprint hash data) = unat ?m + 1" by simp
  then show ?thesis by force
qed


section \<open>The content of a filter\<close>

text \<open>
  The invariant: a power of two of buckets, four slots each. The class of an item is its
  fingerprint and the set of its two buckets, which the fingerprint and either bucket
  determine (\<open>place_alt\<close>); the content is the multiset of the classes of all slots
  in use.
\<close>

definition cf_valid :: "nat \<Rightarrow> cuckoo \<Rightarrow> bool" where
  "cf_valid k cf \<longleftrightarrow> k < 64 \<and> length (ck_buckets cf) = 2 ^ k \<and>
     (\<forall>b \<in> set (ck_buckets cf). length b = bucket_size)"

definition place :: "hash64 \<Rightarrow> nat \<Rightarrow> 8 word \<Rightarrow> 64 word \<Rightarrow> 64 word set" where
  "place hash k fp i = {i, get_alt_index hash fp i (2 ^ k)}"

definition slot_classes :: "hash64 \<Rightarrow> nat \<Rightarrow> 64 word \<Rightarrow> bucket \<Rightarrow> (8 word \<times> 64 word set) multiset" where
  "slot_classes hash k i b = image_mset (\<lambda>fp. (fp, place hash k fp i)) (entries b)"

definition cf_content :: "hash64 \<Rightarrow> nat \<Rightarrow> cuckoo \<Rightarrow> (8 word \<times> 64 word set) multiset" where
  "cf_content hash k cf =
     (\<Sum>i \<in> {..<2 ^ k}. slot_classes hash k (word_of_nat i) (ck_buckets cf ! i))"

definition cf_class :: "hash64 \<Rightarrow> nat \<Rightarrow> bytes \<Rightarrow> 8 word \<times> 64 word set" where
  "cf_class hash k data =
     (let (i1, i2, fp) = get_indices_and_fingerprint hash data (2 ^ k) in (fp, place hash k fp i1))"

lemma num_buckets_valid: "cf_valid k cf \<Longrightarrow> num_buckets cf = 2 ^ k"
  by (simp add: num_buckets_def cf_valid_def)

lemma mod_two_pow: "(w :: 64 word) mod 2 ^ k = take_bit k w"
  by (simp add: take_bit_eq_mod)

lemma unat_take_bit_less: "unat (take_bit k (w :: 64 word)) < 2 ^ k"
  by (simp add: unsigned_take_bit_eq)

lemma alt_in_range: "unat (get_alt_index hash fp i (2 ^ k)) < 2 ^ k"
  unfolding get_alt_index_def mod_two_pow by (rule unat_take_bit_less)

lemma take_bit_small: "unat (i :: 64 word) < 2 ^ k \<Longrightarrow> take_bit k i = i"
  by (simp add: word_eq_iff_unsigned [where ?'a = nat] unsigned_take_bit_eq take_bit_nat_eq_self)

text \<open>Partial-key hashing: the alternative of the alternative is the bucket itself.\<close>

lemma alt_alt:
  assumes "unat i < 2 ^ k"
  shows "get_alt_index hash fp (get_alt_index hash fp i (2 ^ k)) (2 ^ k) = i"
proof -
  let ?x = "hash [fp] 1337"
  have "take_bit k (take_bit k (i XOR ?x) XOR ?x) = take_bit k ((i XOR ?x) XOR ?x)"
    by (simp add: take_bit_xor)
  also have "\<dots> = take_bit k i" by (simp add: xor.assoc)
  finally show ?thesis
    using take_bit_small [OF assms] by (simp add: get_alt_index_def mod_two_pow)
qed

lemma place_alt:
  "unat i < 2 ^ k \<Longrightarrow> place hash k fp (get_alt_index hash fp i (2 ^ k)) = place hash k fp i"
  by (auto simp: place_def alt_alt)

lemma cf_content_update:
  assumes "cf_valid k cf" and "unat i < 2 ^ k" and "length b = bucket_size"
  defines "cf' \<equiv> cf\<lparr>ck_buckets := (ck_buckets cf)[unat i := b]\<rparr>"
  shows "cf_valid k cf'"
    and "cf_content hash k cf' + slot_classes hash k i (ck_buckets cf ! unat i) =
         cf_content hash k cf + slot_classes hash k i b"
proof -
  show "cf_valid k cf'"
    using assms set_update_subset_insert [of "ck_buckets cf" "unat i" b] by (auto simp: cf_valid_def)
  have at: "ck_buckets cf' ! j = (if j = unat i then b else ck_buckets cf ! j)" for j
    using assms by (simp add: cf_valid_def nth_list_update_total)
  let ?R = "\<Sum>j \<in> {..<2 ^ k} - {unat i}. slot_classes hash k (word_of_nat j) (ck_buckets cf ! j)"
  have "cf_content hash k cf = slot_classes hash k i (ck_buckets cf ! unat i) + ?R"
    unfolding cf_content_def using assms(2) by (subst sum.remove [of _ "unat i"]) simp_all
  moreover have "cf_content hash k cf' = slot_classes hash k i b + ?R"
    unfolding cf_content_def using assms(2) by (subst sum.remove [of _ "unat i"]) (simp_all add: at)
  ultimately show "cf_content hash k cf' + slot_classes hash k i (ck_buckets cf ! unat i) =
         cf_content hash k cf + slot_classes hash k i b"
    by simp
qed

lemma cf_content_count [simp]:
  "cf_content hash k (cf\<lparr>ck_count := c\<rparr>) = cf_content hash k cf"
  "cf_valid k (cf\<lparr>ck_count := c\<rparr>) = cf_valid k cf"
  by (simp_all add: cf_content_def cf_valid_def)

lemma bucket_length: "cf_valid k cf \<Longrightarrow> unat i < 2 ^ k \<Longrightarrow> length (ck_buckets cf ! unat i) = bucket_size"
  by (simp add: cf_valid_def)

lemma in_cf_content:
  "(fp, P) \<in># cf_content hash k cf \<longleftrightarrow>
     (\<exists>i. unat (i :: 64 word) < 2 ^ k \<and> fp \<noteq> 0 \<and>
          fp \<in> set (ck_buckets cf ! unat i) \<and> P = place hash k fp i)"
  if "k < 64"
proof -
  have "(fp, P) \<in># cf_content hash k cf \<longleftrightarrow>
      (\<exists>j<2 ^ k. fp \<noteq> 0 \<and> fp \<in> set (ck_buckets cf ! j) \<and> P = place hash k fp (word_of_nat j))"
    by (auto simp: cf_content_def set_mset_sum slot_classes_def entries_def)
  also have "\<dots> \<longleftrightarrow> (\<exists>i. unat (i :: 64 word) < 2 ^ k \<and> fp \<noteq> 0 \<and>
      fp \<in> set (ck_buckets cf ! unat i) \<and> P = place hash k fp i)"
  proof (intro iffI; elim exE conjE)
    fix j assume j: "j < 2 ^ k" and "fp \<noteq> 0" "fp \<in> set (ck_buckets cf ! j)"
      "P = place hash k fp (word_of_nat j)"
    moreover have "(2::nat) ^ k \<le> 2 ^ 64" using \<open>k < 64\<close> by (intro power_increasing) auto
    then have "unat (word_of_nat j :: 64 word) = j"
      using j by (simp add: unsigned_of_nat take_bit_nat_eq_self)
    ultimately show "\<exists>i. unat (i :: 64 word) < 2 ^ k \<and> fp \<noteq> 0 \<and>
        fp \<in> set (ck_buckets cf ! unat i) \<and> P = place hash k fp i"
      by (intro exI [of _ "word_of_nat j"]) simp
  next
    fix i :: "64 word" assume "unat i < 2 ^ k" "fp \<noteq> 0" "fp \<in> set (ck_buckets cf ! unat i)"
      "P = place hash k fp i"
    then show "\<exists>j<2 ^ k. fp \<noteq> 0 \<and> fp \<in> set (ck_buckets cf ! j) \<and> P = place hash k fp (word_of_nat j)"
      by (intro exI [of _ "unat i"]) simp
  qed
  finally show ?thesis .
qed

section \<open>The methods on the content\<close>

lemma cf_insert_at_cases:
  assumes v: "cf_valid k cf" and i: "unat i < 2 ^ k" and fp: "fp \<noteq> 0"
    and eq: "cf_insert_at fp i cf = (ok, cf')"
  shows "cf_valid k cf' \<and>
    (if ok then cf_content hash k cf' = add_mset (fp, place hash k fp i) (cf_content hash k cf)
     else cf' = cf \<and> 0 \<notin> set (ck_buckets cf ! unat i))"
proof -
  obtain ok' b where b: "bucket_insert fp (ck_buckets cf ! unat i) = (ok', b)" by fastforce
  note bc = bucket_insert_cases [OF b fp]
  have len: "length b = bucket_size" using bc bucket_length [OF v i] by simp
  note upd = cf_content_update(1) [OF v i len] cf_content_update(2) [OF v i len, of hash]
  show ?thesis
  proof (cases ok')
    case True
    then have "slot_classes hash k i b =
        add_mset (fp, place hash k fp i) (slot_classes hash k i (ck_buckets cf ! unat i))"
      using bc by (simp add: slot_classes_def)
    then have "cf_content hash k (cf\<lparr>ck_buckets := (ck_buckets cf)[unat i := b]\<rparr>) =
        add_mset (fp, place hash k fp i) (cf_content hash k cf)"
      using upd(2) by simp
    with upd(1) True eq b show ?thesis by (auto simp: cf_insert_at_def Let_def)
  next
    case False
    with eq b bc v show ?thesis by (auto simp: cf_insert_at_def Let_def)
  qed
qed

lemma cf_delete_at_cases:
  assumes v: "cf_valid k cf" and i: "unat i < 2 ^ k" and fp: "fp \<noteq> 0"
    and eq: "cf_delete_at fp i cf = (ok, cf')"
  shows "cf_valid k cf' \<and>
    (if ok then cf_content hash k cf = add_mset (fp, place hash k fp i) (cf_content hash k cf')
     else cf' = cf \<and> fp \<notin> set (ck_buckets cf ! unat i))"
proof -
  obtain ok' b where b: "bucket_delete fp (ck_buckets cf ! unat i) = (ok', b)" by fastforce
  note bc = bucket_delete_cases [OF b fp]
  have len: "length b = bucket_size" using bc bucket_length [OF v i] by simp
  note upd = cf_content_update(1) [OF v i len] cf_content_update(2) [OF v i len, of hash]
  show ?thesis
  proof (cases ok')
    case True
    then have "slot_classes hash k i (ck_buckets cf ! unat i) =
        add_mset (fp, place hash k fp i) (slot_classes hash k i b)"
      using bc by (simp add: slot_classes_def)
    then have "cf_content hash k cf = add_mset (fp, place hash k fp i)
        (cf_content hash k (cf\<lparr>ck_buckets := (ck_buckets cf)[unat i := b]\<rparr>))"
      using upd(2) by simp
    with upd(1) True eq b show ?thesis by (auto simp: cf_delete_at_def Let_def)
  next
    case False
    with eq b bc v show ?thesis by (auto simp: cf_delete_at_def Let_def)
  qed
qed

text \<open>Eviction moves entries between their two buckets and may lose the last one in hand.\<close>

lemma cf_reinsert_cases:
  "cf_valid k cf \<Longrightarrow> unat i < 2 ^ k \<Longrightarrow> fp \<noteq> 0 \<Longrightarrow> 0 \<notin> set (ck_buckets cf ! unat i) \<Longrightarrow>
   cf_reinsert hash tape n fp i cf p = (ok, cf', p') \<Longrightarrow>
   cf_valid k cf' \<and>
   (if ok then cf_content hash k cf' = add_mset (fp, place hash k fp i) (cf_content hash k cf)
    else \<exists>c. add_mset c (cf_content hash k cf') =
             add_mset (fp, place hash k fp i) (cf_content hash k cf))"
proof (induction n arbitrary: fp i cf p)
  case 0
  then show ?case by auto
next
  case (Suc n)
  define j where "j = tape p mod bucket_size"
  define b where "b = ck_buckets cf ! unat i"
  define fp1 where "fp1 = b ! j"
  define cf1 where "cf1 = cf\<lparr>ck_buckets := (ck_buckets cf)[unat i := b[j := fp]]\<rparr>"
  define i1 where "i1 = get_alt_index hash fp1 i (2 ^ k)"
  obtain ok1 cf2 where ins: "cf_insert_at fp1 i1 cf1 = (ok1, cf2)" by fastforce
  have len: "length b = bucket_size" using bucket_length Suc.prems(1,2) by (simp add: b_def)
  then have j: "j < length b" by (simp add: j_def bucket_size_def)
  note upd = cf_content_update(1) [OF Suc.prems(1,2), of "b[j := fp]", folded b_def cf1_def]
    cf_content_update(2) [OF Suc.prems(1,2), of "b[j := fp]" hash, folded b_def cf1_def]
  note ent = entries_update [OF j Suc.prems(4) [folded b_def] Suc.prems(3), folded fp1_def]
  have v1: "cf_valid k cf1" using upd len by simp
  have i1: "unat i1 < 2 ^ k" by (simp add: i1_def alt_in_range)
  have "add_mset (fp1, place hash k fp1 i) (slot_classes hash k i (b[j := fp])) =
      add_mset (fp, place hash k fp i) (slot_classes hash k i b)"
    using arg_cong [OF ent(1), of "image_mset (\<lambda>fp. (fp, place hash k fp i))"]
    by (simp add: slot_classes_def)
  moreover have "cf_content hash k cf1 + slot_classes hash k i b =
      cf_content hash k cf + slot_classes hash k i (b[j := fp])"
    using upd(2) len by simp
  ultimately have content: "add_mset (fp1, place hash k fp1 i1) (cf_content hash k cf1) =
      add_mset (fp, place hash k fp i) (cf_content hash k cf)"
    unfolding i1_def place_alt [OF Suc.prems(2)]
    by (rule mset_exchange)
  note ic = cf_insert_at_cases [OF v1 i1 ent(2) ins, of hash]
  have eq: "cf_reinsert hash tape (Suc n) fp i cf p =
      (if ok1 then (True, cf2, Suc p) else cf_reinsert hash tape n fp1 i1 cf2 (Suc p))"
    using ins num_buckets_valid [OF v1]
    by (simp add: rand_intn_def j_def [symmetric] b_def [symmetric] fp1_def [symmetric]
        cf1_def [symmetric] i1_def [symmetric] Let_def)
  show ?case
  proof (cases ok1)
    case True
    with Suc.prems(5) eq ic content show ?thesis by auto
  next
    case False
    with ic have "cf2 = cf1" "0 \<notin> set (ck_buckets cf1 ! unat i1)" by auto
    with Suc.IH [OF v1 i1 ent(2), of "Suc p"] Suc.prems(5) eq False content show ?thesis by auto
  qed
qed

lemma indices_fingerprint:
  obtains i1 fp where
    "get_indices_and_fingerprint hash data (2 ^ k) = (i1, get_alt_index hash fp i1 (2 ^ k), fp)"
    "unat i1 < 2 ^ k" "fp \<noteq> 0" "cf_class hash k data = (fp, place hash k fp i1)"
proof -
  let ?fp = "get_fingerprint hash data" and ?i = "hash data 1337 mod 2 ^ k"
  have "get_indices_and_fingerprint hash data (2 ^ k) = (?i, get_alt_index hash ?fp ?i (2 ^ k), ?fp)"
    by (simp add: get_indices_and_fingerprint_def Let_def)
  moreover have "unat ?i < 2 ^ k" unfolding mod_two_pow by (rule unat_take_bit_less)
  ultimately show ?thesis
    using fingerprint_nonzero that by (simp add: cf_class_def)
qed

lemma cf_lookup_iff:
  assumes v: "cf_valid k cf"
  shows "cf_lookup hash data cf \<longleftrightarrow> cf_class hash k data \<in># cf_content hash k cf"
proof -
  obtain i fp where ix:
    "get_indices_and_fingerprint hash data (2 ^ k) = (i, get_alt_index hash fp i (2 ^ k), fp)"
    "unat i < 2 ^ k" "fp \<noteq> 0" "cf_class hash k data = (fp, place hash k fp i)"
    by (rule indices_fingerprint)
  let ?a = "get_alt_index hash fp i (2 ^ k)" and ?B = "\<lambda>i. ck_buckets cf ! unat i"
  have k: "k < 64" using v by (simp add: cf_valid_def)
  have "cf_lookup hash data cf \<longleftrightarrow> fp \<in> set (?B i) \<or> fp \<in> set (?B ?a)"
    by (simp add: cf_lookup_def num_buckets_valid [OF v] ix(1) bucket_index_iff)
  also have "\<dots> \<longleftrightarrow> (\<exists>x. unat x < 2 ^ k \<and> fp \<in> set (?B x) \<and> place hash k fp i = place hash k fp x)"
    using ix(2) alt_in_range [of hash fp i k] place_alt [OF ix(2), of hash fp]
    by (auto simp: place_def)
  finally show ?thesis using ix(3) by (simp add: ix(4) in_cf_content [OF k])
qed

lemma cf_insert_cases:
  assumes v: "cf_valid k cf" and eq: "cf_insert hash tape data cf p = (ok, cf', p')"
  shows "cf_valid k cf' \<and>
    (if ok then cf_content hash k cf' = add_mset (cf_class hash k data) (cf_content hash k cf)
     else \<exists>c. add_mset c (cf_content hash k cf') =
              add_mset (cf_class hash k data) (cf_content hash k cf))"
proof -
  obtain i fp where ix:
    "get_indices_and_fingerprint hash data (2 ^ k) = (i, get_alt_index hash fp i (2 ^ k), fp)"
    "unat i < 2 ^ k" "fp \<noteq> 0" "cf_class hash k data = (fp, place hash k fp i)"
    by (rule indices_fingerprint)
  let ?a = "get_alt_index hash fp i (2 ^ k)"
  have a: "unat ?a < 2 ^ k" "place hash k fp ?a = place hash k fp i"
    using alt_in_range place_alt [OF ix(2)] by simp_all
  obtain ok1 cf1 where 1: "cf_insert_at fp i cf = (ok1, cf1)" by fastforce
  note c1 = cf_insert_at_cases [OF v ix(2,3) 1, of hash]
  obtain ok2 cf2 where 2: "cf_insert_at fp ?a cf1 = (ok2, cf2)" by fastforce
  from c1 have v1: "cf_valid k cf1" by simp
  note c2 = cf_insert_at_cases [OF v1 a(1) ix(3) 2, of hash]
  obtain j p1 where j: "randi tape p i ?a = (j, p1)" by fastforce
  show ?thesis
  proof (cases "ok1 \<or> ok2")
    case True
    then show ?thesis using eq 1 2 ix c1 c2 a
      by (auto simp: cf_insert_def num_buckets_valid [OF v] split: if_splits)
  next
    case False
    with c1 c2 have same: "cf1 = cf" "cf2 = cf" by simp_all
    have full: "0 \<notin> set (ck_buckets cf ! unat j)" "unat j < 2 ^ k" "place hash k fp j = place hash k fp i"
      using False c1 c2 same j a ix(2) by (auto simp: randi_def rand_intn_def split: if_splits)
    have "cf_reinsert hash tape max_cuckoo_count fp j cf p1 = (ok, cf', p')"
      using eq 1 2 ix(1) same False j by (simp add: cf_insert_def num_buckets_valid [OF v])
    from cf_reinsert_cases [OF v full(2) ix(3) full(1) this] show ?thesis
      unfolding ix(4) full(3) .
  qed
qed

lemma cf_delete_cases:
  assumes v: "cf_valid k cf" and eq: "cf_delete hash data cf = (ok, cf')"
  shows "cf_valid k cf' \<and>
    (if ok then cf_content hash k cf = add_mset (cf_class hash k data) (cf_content hash k cf')
     else cf' = cf) \<and> (ok \<longleftrightarrow> cf_class hash k data \<in># cf_content hash k cf)"
proof -
  obtain i fp where ix:
    "get_indices_and_fingerprint hash data (2 ^ k) = (i, get_alt_index hash fp i (2 ^ k), fp)"
    "unat i < 2 ^ k" "fp \<noteq> 0" "cf_class hash k data = (fp, place hash k fp i)"
    by (rule indices_fingerprint)
  let ?a = "get_alt_index hash fp i (2 ^ k)"
  have a: "unat ?a < 2 ^ k" "place hash k fp ?a = place hash k fp i"
    using alt_in_range place_alt [OF ix(2)] by simp_all
  obtain ok1 cf1 where 1: "cf_delete_at fp i cf = (ok1, cf1)" by fastforce
  note c1 = cf_delete_at_cases [OF v ix(2,3) 1, of hash]
  obtain ok2 cf2 where 2: "cf_delete_at fp ?a cf1 = (ok2, cf2)" by fastforce
  from c1 have v1: "cf_valid k cf1" by simp
  note c2 = cf_delete_at_cases [OF v1 a(1) ix(3) 2, of hash]
  have del: "cf_delete hash data cf = (if ok1 then (True, cf1) else (ok2, cf2))"
    using 1 2 ix by (simp add: cf_delete_def num_buckets_valid [OF v])
  show ?thesis
  proof (cases "ok1 \<or> ok2")
    case True
    then show ?thesis using eq del ix c1 c2 a by (auto split: if_splits)
  next
    case False
    with c1 c2 eq del have same: "cf' = cf" "cf1 = cf" "\<not> ok" by simp_all
    have "\<not> cf_lookup hash data cf"
      using False c1 c2 same
      by (simp add: cf_lookup_def num_buckets_valid [OF v] ix(1) bucket_index_iff)
    then show ?thesis using v same cf_lookup_iff [OF v] by simp
  qed
qed

section \<open>The size of a new filter\<close>

text \<open>One step of smearing doubles the window of higher bits that each bit has seen.\<close>

definition smeared :: "nat \<Rightarrow> 64 word \<Rightarrow> 64 word \<Rightarrow> bool" where
  "smeared s m x \<longleftrightarrow> (\<forall>i. bit x i \<longleftrightarrow> (\<exists>j. i \<le> j \<and> j < i + s \<and> bit m j))"

lemma smeared_step: "smeared s m x \<Longrightarrow> smeared (2 * s) m (x OR drop_bit s x)"
  unfolding smeared_def bit_or_iff bit_drop_bit_eq comp_def
proof (intro allI)
  fix i
  assume x: "\<forall>i. bit x i \<longleftrightarrow> (\<exists>j. i \<le> j \<and> j < i + s \<and> bit m j)"
  have "(\<exists>j. i \<le> j \<and> j < i + 2 * s \<and> bit m j) \<longleftrightarrow>
      (\<exists>j. i \<le> j \<and> j < i + s \<and> bit m j) \<or> (\<exists>j. s + i \<le> j \<and> j < s + i + s \<and> bit m j)"
  proof
    assume "\<exists>j. i \<le> j \<and> j < i + 2 * s \<and> bit m j"
    then obtain j where j: "i \<le> j" "j < i + 2 * s" "bit m j" by blast
    show "(\<exists>j. i \<le> j \<and> j < i + s \<and> bit m j) \<or> (\<exists>j. s + i \<le> j \<and> j < s + i + s \<and> bit m j)"
    proof (cases "j < i + s")
      case True
      with j show ?thesis by blast
    next
      case False
      with j have "s + i \<le> j \<and> j < s + i + s \<and> bit m j" by simp
      then show ?thesis by blast
    qed
  next
    assume "(\<exists>j. i \<le> j \<and> j < i + s \<and> bit m j) \<or> (\<exists>j. s + i \<le> j \<and> j < s + i + s \<and> bit m j)"
    then obtain j where "bit m j" and "i \<le> j \<and> j < i + s \<or> s + i \<le> j \<and> j < s + i + s" by blast
    then show "\<exists>j. i \<le> j \<and> j < i + 2 * s \<and> bit m j" by (intro exI [of _ j]) auto
  qed
  then show "(bit x i \<or> bit x (s + i)) = (\<exists>j. i \<le> j \<and> j < i + 2 * s \<and> bit m j)"
    unfolding x [THEN spec, of i] x [THEN spec, of "s + i"] by (rule sym)
qed

lemma smear_mask:
  assumes "smeared 64 m x"
  obtains l where "l \<le> 64" "x = mask l" "unat m < 2 ^ l" "l = 0 \<or> 2 ^ (l - 1) \<le> unat m"
proof -
  define l where "l = (LEAST l. \<forall>j\<ge>l. \<not> bit m j)"
  have top: "\<forall>j\<ge>64. \<not> bit m j" by (auto dest: bit_imp_le_length)
  have "\<forall>j\<ge>l. \<not> bit m j" unfolding l_def by (rule LeastI) (rule top)
  then have above: "\<not> bit m j" if "l \<le> j" for j using that by blast
  have l64: "l \<le> 64" unfolding l_def by (rule Least_le) (rule top)
  have last: "bit m (l - 1)" if "l \<noteq> 0"
  proof (rule ccontr)
    assume "\<not> bit m (l - 1)"
    then have "\<forall>j\<ge>l - 1. \<not> bit m j" using above by (metis Suc_pred' leI le_antisym less_Suc_eq_le not_gr_zero that)
    then have "l \<le> l - 1" unfolding l_def by (rule Least_le)
    with that show False by simp
  qed
  have small: "j < 64 \<and> j < l" if "bit m j" for j
    using that top above by (metis leI)
  have "bit x i \<longleftrightarrow> i < l" for i
  proof -
    have "bit x i \<longleftrightarrow> (\<exists>j. i \<le> j \<and> j < i + 64 \<and> bit m j)"
      using assms unfolding smeared_def by (rule spec)
    also have "\<dots> \<longleftrightarrow> i < l"
    proof
      assume "\<exists>j. i \<le> j \<and> j < i + 64 \<and> bit m j"
      then show "i < l" using small by fastforce
    next
      assume "i < l"
      then have "bit m (l - 1)" and "i \<le> l - 1" using last by auto
      then show "\<exists>j. i \<le> j \<and> j < i + 64 \<and> bit m j"
        using small [of "l - 1"] by (intro exI [of _ "l - 1"]) auto
    qed
    finally show ?thesis .
  qed
  then have x: "x = mask l" by (intro bit_word_eqI) (simp add: bit_mask_iff)
  have "take_bit l m = m" using above by (intro bit_word_eqI) (auto simp: bit_take_bit_iff not_less [symmetric])
  then have less: "unat m < 2 ^ l" by (metis unat_take_bit_less)
  have "2 ^ (l - 1) \<le> unat m" if "l \<noteq> 0"
  proof (rule ccontr)
    assume "\<not> 2 ^ (l - 1) \<le> unat m"
    then have "take_bit (l - 1) (unat m) = unat m" by (simp add: take_bit_nat_eq_self)
    then have "\<not> bit (unat m) (l - 1)" by (metis bit_take_bit_iff less_irrefl)
    with last [OF that] show False by (simp add: bit_unsigned_iff)
  qed
  then have "l = 0 \<or> 2 ^ (l - 1) \<le> unat m" by blast
  from that [OF l64 x less this] show thesis .
qed

lemma get_next_pow2_cases:
  obtains l where "l \<le> 64" "get_next_pow2 n = 2 ^ l" "unat (n - 1) < 2 ^ l"
    "l = 0 \<or> 2 ^ (l - 1) \<le> unat (n - 1)"
proof -
  define step where "step s x = (x OR drop_bit s x :: 64 word)" for s x
  have step: "smeared s m x \<Longrightarrow> 2 * s = t \<Longrightarrow> smeared t m (step s x)" for s t m x
    using smeared_step unfolding step_def by blast
  let ?x = "step 32 (step 16 (step 8 (step 4 (step 2 (step 1 (n - 1))))))"
  have "smeared 1 (n - 1) (n - 1)" by (auto simp: smeared_def) (metis le_antisym less_Suc_eq_le)
  then have "smeared 64 (n - 1) ?x" by (intro step [where t = 64] step) simp_all
  then obtain l where l: "l \<le> 64" "?x = mask l" "unat (n - 1) < 2 ^ l"
    "l = 0 \<or> 2 ^ (l - 1) \<le> unat (n - 1)" by (rule smear_mask)
  have "get_next_pow2 n = ?x + 1" by (simp add: get_next_pow2_def step_def Let_def)
  also have "\<dots> = 2 ^ l" unfolding l(2) by (simp add: mask_eq_exp_minus_1)
  finally show ?thesis using l that by blast
qed

lemma new_filter_valid: "\<exists>k. cf_valid k (new_filter capacity)"
proof -
  obtain l where l: "l \<le> 64" "get_next_pow2 capacity = 2 ^ l" by (rule get_next_pow2_cases)
  have "\<exists>k<64. unat (let c = get_next_pow2 capacity div word_of_nat bucket_size in
      if c = 0 then 1 else c) = 2 ^ k"
  proof (cases "2 \<le> l \<and> l < 64")
    case True
    then have "(2::nat) ^ l < 2 ^ 64" by (intro power_strict_increasing) auto
    then have "unat (word_of_nat (2 ^ l) :: 64 word) = 2 ^ l"
      using True by (simp add: unsigned_of_nat take_bit_nat_eq_self del: of_nat_power)
    then have "unat (2 ^ l :: 64 word) = 2 ^ l" by simp
    then have "unat (get_next_pow2 capacity div word_of_nat bucket_size) = 2 ^ (l - 2)"
      using True by (simp add: l(2) bucket_size_def unat_div power_diff)
    with True show ?thesis by (intro exI [of _ "l - 2"]) (auto simp: Let_def)
  next
    case False
    with l(1) have "l = 0 \<or> l = 1 \<or> l = 64" by auto
    then have "get_next_pow2 capacity div word_of_nat bucket_size = 0"
      by (elim disjE) (simp_all add: l(2) bucket_size_def)
    then show ?thesis by (intro exI [of _ 0]) (simp add: Let_def)
  qed
  then show ?thesis by (auto simp: cf_valid_def new_filter_def Let_def)
qed

section \<open>The contract\<close>

lemma cuckoo_ops_sel [simp]:
  "f_lookup (cuckoo_ops hash tape) d f \<longleftrightarrow> cf_lookup hash (bytes_of d) (fst f)"
  "f_insert (cuckoo_ops hash tape) d f = (ok, f') \<longleftrightarrow>
     cf_insert hash tape (bytes_of d) (fst f) (snd f) = (ok, fst f', snd f')"
  "f_delete (cuckoo_ops hash tape) d f = (ok, f') \<longleftrightarrow>
     cf_delete hash (bytes_of d) (fst f) = (ok, fst f') \<and> snd f' = snd f"
  by (auto simp: cuckoo_ops_def split: prod.splits)

lemmas cuckoo_cases = cf_insert_cases cf_delete_cases

interpretation ck: job_filter "cuckoo_ops hash tape" "cf_valid k \<circ> fst"
    "cf_content hash k \<circ> fst" "cf_class hash k \<circ> bytes_of" for hash tape k
proof (unfold_locales, goal_cases)
  case (1 f d)
  then show ?case by (simp add: cf_lookup_iff)
next
  case (2 f d ok f')
  then show ?case using cuckoo_cases(1) [of k "fst f" hash tape "bytes_of d" "snd f" ok "fst f'" "snd f'"] by auto
next
  case (3 f d f')
  then show ?case using cuckoo_cases(1) [of k "fst f" hash tape "bytes_of d" "snd f" True "fst f'" "snd f'"] by auto
next
  case (4 f d f')
  then show ?case using cuckoo_cases(1) [of k "fst f" hash tape "bytes_of d" "snd f" False "fst f'" "snd f'"] by auto
next
  case (5 f d ok f')
  then show ?case using cuckoo_cases(2) [of k "fst f" hash "bytes_of d"] by auto
next
  case (6 f d ok f')
  then show ?case using cuckoo_cases(2) [of k "fst f" hash "bytes_of d"] by auto
next
  case (7 f d ok f')
  then show ?case using cuckoo_cases(2) [of k "fst f" hash "bytes_of d" ok "fst f'"]
    by (auto simp: diff_single_trivial split: if_splits)
qed

section \<open>Properties\<close>

text \<open>
  C30: No false negatives: in a valid filter, an item that has been inserted successfully is
  found, every item found before is still found, and deleting it again succeeds and brings
  back the content of the filter.
\<close>

theorem cuckoo_insert_found:
  assumes "cf_valid k cf" and "cf_insert hash tape data cf p = (True, cf', p')"
  shows "cf_valid k cf' \<and> cf_lookup hash data cf' \<and>
    (\<forall>d. cf_lookup hash d cf \<longrightarrow> cf_lookup hash d cf') \<and>
    (\<exists>cf2. cf_delete hash data cf' = (True, cf2) \<and> cf_valid k cf2 \<and>
       cf_content hash k cf2 = cf_content hash k cf)"
proof -
  have v: "cf_valid k cf'"
    and c: "cf_content hash k cf' = add_mset (cf_class hash k data) (cf_content hash k cf)"
    using cf_insert_cases [OF assms] by simp_all
  obtain ok cf2 where d: "cf_delete hash data cf' = (ok, cf2)" by fastforce
  from cf_delete_cases [OF v d] c have "ok \<and> cf_valid k cf2 \<and> cf_content hash k cf2 = cf_content hash k cf"
    by auto
  with d v c show ?thesis by (simp add: cf_lookup_iff [OF v] cf_lookup_iff [OF assms(1)])
qed

definition length_hash :: hash64 where
  "length_hash bs seed = seed + 3 * word_of_nat (length bs)"

theorem cuckoo_insert_found_witness:
  "\<exists>cf' p'. cf_insert length_hash id [1, 2] (new_filter 16) 0 = (True, cf', p') \<and>
     cf_lookup length_hash [1, 2] cf'"
proof -
  have v: "cf_valid 2 (new_filter 16)"
    by (simp add: cf_valid_def new_filter_def get_next_pow2_def bucket_size_def)
  obtain cf' p' where i: "cf_insert length_hash id [1, 2] (new_filter 16) 0 = (True, cf', p')"
  proof -
    have "fst (cf_insert length_hash id [1, 2] (new_filter 16) 0)" by code_simp
    then show ?thesis using that by (metis prod.collapse)
  qed
  from cuckoo_insert_found [OF v i] i show ?thesis by blast
qed

text \<open>
  The bit smearing of \<open>getNextPow2\<close> rounds up to the next power of two, as long as it
  fits into 64 bits.
\<close>

theorem next_pow2_rounds_up:
  assumes "0 < n" and "unat n \<le> 2 ^ 63"
  shows "\<exists>l. unat (get_next_pow2 n) = 2 ^ l \<and> unat n \<le> 2 ^ l \<and> 2 ^ l < 2 * unat n"
proof -
  obtain l where l: "l \<le> 64" "get_next_pow2 n = 2 ^ l" "unat (n - 1) < 2 ^ l"
    "l = 0 \<or> 2 ^ (l - 1) \<le> unat (n - 1)" by (rule get_next_pow2_cases)
  have pos: "0 < unat n" using assms(1) by (simp add: word_less_nat_alt)
  have n1: "unat (n - 1) = unat n - 1"
    using assms(1) by (simp add: unat_minus_one word_neq_0_conv)
  have lt: "(2::nat) ^ l < 2 * unat n"
  proof (cases l)
    case (Suc m)
    then have "2 ^ m \<le> unat n - 1" using l(4) n1 by simp
    then show ?thesis using Suc pos by simp
  qed (use pos in simp)
  then have "(2::nat) ^ l < 2 ^ 64" using assms(2) by simp
  then have "l < 64" using power_strict_increasing_iff [of "2::nat" l 64] by simp
  then have "unat (word_of_nat (2 ^ l) :: 64 word) = 2 ^ l"
    using \<open>2 ^ l < 2 ^ 64\<close> by (simp add: unsigned_of_nat take_bit_nat_eq_self del: of_nat_power)
  then have "unat (get_next_pow2 n) = 2 ^ l" by (simp add: l(2))
  moreover have "unat n \<le> 2 ^ l" using l(3) n1 pos by simp
  ultimately show ?thesis using lt by blast
qed

theorem next_pow2_rounds_up_witness:
  "\<exists>l. unat (get_next_pow2 10000) = 2 ^ l \<and> (10000 :: nat) \<le> 2 ^ l \<and> 2 ^ l < (20000 :: nat)"
  using next_pow2_rounds_up [of 10000] by simp

end
