(* ===== verification/Protocol.thy ===== *)
theory Protocol
  imports Hub_Steps Hub_Inspect Mem_Monitor Cuckoo_Filter
begin

text \<open>
  \<open>pkg/protocol\<close>: the handlers of the two servers in front of a hub, \<open>net/rpc\<close>
  (\<open>rpcserver.go\<close>) and gRPC (\<open>grpcserver.go\<close>). The state of the process is the hub, the
  memory monitor and the counter of generated ids. A handler may return, block in the fence
  of the monitor, or panic, which ends the process.

  Between two polls of a waiting \<open>Next\<close> other handlers run: \<open>env k\<close> is what they do to
  the state during the \<open>k\<close>-th sleep. The clock readings of a handler are its arguments.
\<close>

section \<open>State\<close>

record 'f server =
  srv_hub :: "'f hub"
  srv_mem :: monitor
  srv_ids :: "64 word"

datatype 'a outcome = Done 'a | Blocked | Panicked

record api_job =
  aj_body :: bytes
  aj_id :: string
  aj_delay :: duration

record pb_job =
  pb_id :: string
  pb_delay_millis :: "64 word"
  pb_body :: bytes

section \<open>The RPC server\<close>

text \<open>
  The job that a put request stands for, and the state with the id counter moved on when the
  request has no id.
\<close>

definition put_job :: "string \<Rightarrow> instant \<Rightarrow> bytes \<Rightarrow> 'f server \<Rightarrow> job \<times> 'f server" where
  "put_job jid t b s =
     (if jid = []
      then let (j, ids) = new_job_auto_id (srv_ids s) t b in (j, s\<lparr>srv_ids := ids\<rparr>)
      else (new_job jid t b, s))"

text \<open>The two effects of a put: \<open>AddJobLocked\<close>, and \<open>Increment\<close>.\<close>

definition add_locked ::
  "'f filter_ops \<Rightarrow> (bound \<Rightarrow> nat) \<Rightarrow> instant \<Rightarrow> job \<Rightarrow> 'f server \<Rightarrow> go_error option \<times> 'f server" where
  "add_locked F rank now j s =
     (let (err, h) = hub_add F rank now j (srv_hub s) in (err, s\<lparr>srv_hub := h\<rparr>))"

definition account :: "job \<Rightarrow> 'f server \<Rightarrow> 'f server" where
  "account j s = s\<lparr>srv_mem := mm_increment (size_of j) (srv_mem s)\<rparr>"

text \<open>
  The whole handler, when no other one runs beside it: it adds the job, and the deferred
  \<open>Increment\<close> comes after. The reply, the generated id, is only set when there was none in the
  request. The same parts as steps that others may come between are in \<open>Handler_Steps\<close>.
\<close>

definition rpc_put_with_id ::
  "'f filter_ops \<Rightarrow> (bound \<Rightarrow> nat) \<Rightarrow> instant \<Rightarrow> instant \<Rightarrow> api_job \<Rightarrow> 'f server \<Rightarrow>
   (go_error option \<times> string option \<times> 'f server) outcome" where
  "rpc_put_with_id F rank now1 now2 aj s =
     (if \<not> mm_fence_open (srv_mem s) then Blocked
      else let (j, s1) = put_job (aj_id aj) (t_add now1 (aj_delay aj)) (aj_body aj) s;
               reply = (if aj_id aj = [] then Some (job_id j) else None);
               (err, s2) = add_locked F rank now2 j s1;
               s3 = account j s2
           in Done (err, reply, s3))"

text \<open>The deferred \<open>Decrement\<close> of a job that has left the hub.\<close>

definition release_job :: "job \<Rightarrow> 'f server \<Rightarrow> 'f server outcome" where
  "release_job j s =
     (let (panic, m) = mm_decrement (size_of j) (srv_mem s)
      in if panic then Panicked else Done (s\<lparr>srv_mem := m\<rparr>))"

definition rpc_cancel ::
  "'f filter_ops \<Rightarrow> (bound \<Rightarrow> nat) \<Rightarrow> string \<Rightarrow> 'f server \<Rightarrow> (go_error option \<times> 'f server) outcome" where
  "rpc_cancel F rank jid s =
     (case hub_cancel F rank jid (srv_hub s) of
        None \<Rightarrow> Panicked
      | Some (Inl e, h) \<Rightarrow> Done (Some e, s\<lparr>srv_hub := h\<rparr>)
      | Some (Inr None, h) \<Rightarrow> Done (None, s\<lparr>srv_hub := h\<rparr>)
      | Some (Inr (Some j), h) \<Rightarrow>
          (case release_job j (s\<lparr>srv_hub := h\<rparr>) of
             Done s1 \<Rightarrow> Done (None, s1) | Blocked \<Rightarrow> Blocked | Panicked \<Rightarrow> Panicked))"

text \<open>One attempt: \<open>NextLocked\<close>, and the accounting when it hands out a job.\<close>

definition next_attempt ::
  "'f filter_ops \<Rightarrow> (nat \<Rightarrow> instant) \<Rightarrow> 'f server \<Rightarrow> (job option \<times> 'f server) outcome" where
  "next_attempt F clk s =
     (case hub_next F clk (srv_hub s) of
        None \<Rightarrow> Panicked
      | Some (None, h) \<Rightarrow> Done (None, s\<lparr>srv_hub := h\<rparr>)
      | Some (Some j, h) \<Rightarrow>
          (case release_job j (s\<lparr>srv_hub := h\<rparr>) of
             Done s1 \<Rightarrow> Done (Some j, s1) | Blocked \<Rightarrow> Blocked | Panicked \<Rightarrow> Panicked))"

text \<open>
  The loop, from poll number \<open>k\<close>: \<open>nows k\<close> is the reading of its condition and
  \<open>clks k\<close> those of its \<open>NextLocked\<close>. \<open>None\<close>: the fuel has run out. A reply \<open>None\<close>
  is \<open>ErrTimeout\<close>.
\<close>

fun next_loop ::
  "'f filter_ops \<Rightarrow> instant \<Rightarrow> (nat \<Rightarrow> instant) \<Rightarrow> (nat \<Rightarrow> nat \<Rightarrow> instant) \<Rightarrow>
   (nat \<Rightarrow> 'f server \<Rightarrow> 'f server) \<Rightarrow> nat \<Rightarrow> nat \<Rightarrow> 'f server \<Rightarrow>
   (job option \<times> 'f server) outcome option" where
  "next_loop F till nows clks env 0 k s = None"
| "next_loop F till nows clks env (Suc n) k s =
     (if t_after till (nows k)
      then (case next_attempt F (clks k) s of
              Done (None, s1) \<Rightarrow> next_loop F till nows clks env n (Suc k) (env k s1)
            | r \<Rightarrow> Some r)
      else Some (Done (None, s)))"

definition wait_next ::
  "'f filter_ops \<Rightarrow> duration \<Rightarrow> (nat \<Rightarrow> instant) \<Rightarrow> instant \<Rightarrow> (nat \<Rightarrow> instant) \<Rightarrow>
   (nat \<Rightarrow> nat \<Rightarrow> instant) \<Rightarrow> (nat \<Rightarrow> 'f server \<Rightarrow> 'f server) \<Rightarrow> nat \<Rightarrow> 'f server \<Rightarrow>
   (job option \<times> 'f server) outcome option" where
  "wait_next F timeout clk now nows clks env fuel s =
     (case next_attempt F clk s of
        Done (None, s1) \<Rightarrow>
          (if timeout = 0 then Some (Done (None, s1))
           else next_loop F (t_add now timeout) nows clks env fuel 0 s1)
      | r \<Rightarrow> Some r)"

text \<open>\<open>Next\<close> replies with the body and the id of the job.\<close>

definition rpc_next ::
  "'f filter_ops \<Rightarrow> duration \<Rightarrow> (nat \<Rightarrow> instant) \<Rightarrow> instant \<Rightarrow> (nat \<Rightarrow> instant) \<Rightarrow>
   (nat \<Rightarrow> nat \<Rightarrow> instant) \<Rightarrow> (nat \<Rightarrow> 'f server \<Rightarrow> 'f server) \<Rightarrow> nat \<Rightarrow> 'f server \<Rightarrow>
   ((bytes \<times> string) option \<times> 'f server) outcome option" where
  "rpc_next F timeout clk now nows clks env fuel s =
     map_option (map_outcome (\<lambda>(r, s). (map_option (\<lambda>j. (body j, job_id j)) r, s)))
       (wait_next F timeout clk now nows clks env fuel s)"

definition rpc_ping :: string where
  "rpc_ping = ''pong''"

text \<open>\<open>nows\<close>: the clock read for each job sent back.\<close>

definition rpc_inspect_n :: "(bound \<Rightarrow> nat) \<Rightarrow> (nat \<Rightarrow> instant) \<Rightarrow> 64 word \<Rightarrow> 'f server \<Rightarrow> api_job list" where
  "rpc_inspect_n rank nows n s =
     (if n = 0 then []
      else map (\<lambda>(i, j). \<lparr>aj_body = body j, aj_id = job_id j, aj_delay = t_sub (trigger_at j) (nows i)\<rparr>)
             (enumerate 0 (get_n_jobs rank n (srv_hub s))))"

section \<open>The gRPC server\<close>

text \<open>\<open>d.Milliseconds()\<close> divides toward zero.\<close>

definition t_milliseconds :: "duration \<Rightarrow> 64 word" where
  "t_milliseconds d =
     word_of_int (if sint d < 0 then - (- sint d div 1000000) else sint d div 1000000)"

definition to_pb_job :: "instant \<Rightarrow> job \<Rightarrow> pb_job" where
  "to_pb_job now j =
     \<lparr>pb_id = job_id j, pb_delay_millis = t_milliseconds (t_sub (trigger_at j) now), pb_body = body j\<rparr>"

text \<open>
  The whole handler, when no other one runs beside it: there is no fence, and \<open>Increment\<close> comes
  before the job is added. A request without a job is a nil pointer that the handler reads from.
\<close>

definition grpc_put_with_id ::
  "'f filter_ops \<Rightarrow> (bound \<Rightarrow> nat) \<Rightarrow> instant \<Rightarrow> instant \<Rightarrow> pb_job option \<Rightarrow> 'f server \<Rightarrow>
   (go_error option \<times> string \<times> 'f server) outcome" where
  "grpc_put_with_id F rank now1 now2 req s =
     (case req of
        None \<Rightarrow> Panicked
      | Some pj \<Rightarrow>
          (let (j, s1) = put_job (pb_id pj) (t_add now1 (millisecond * pb_delay_millis pj)) (pb_body pj) s;
               s2 = account j s1;
               (err, s3) = add_locked F rank now2 j s2
           in Done (err, job_id j, s3)))"

definition grpc_cancel ::
  "'f filter_ops \<Rightarrow> (bound \<Rightarrow> nat) \<Rightarrow> string \<Rightarrow> 'f server \<Rightarrow> (go_error option \<times> 'f server) outcome" where
  "grpc_cancel F rank jid s =
     (case hub_cancel F rank jid (srv_hub s) of
        None \<Rightarrow> Panicked
      | Some (Inl e, h) \<Rightarrow> Done (Some e, s\<lparr>srv_hub := h\<rparr>)
      | Some (Inr None, h) \<Rightarrow> Done (None, s\<lparr>srv_hub := h\<rparr>)
      | Some (Inr (Some j), h) \<Rightarrow>
          map_outcome (\<lambda>s1. (None, s1)) (release_job j (s\<lparr>srv_hub := h\<rparr>)))"

definition grpc_next ::
  "'f filter_ops \<Rightarrow> 64 word \<Rightarrow> (nat \<Rightarrow> instant) \<Rightarrow> instant \<Rightarrow> (nat \<Rightarrow> instant) \<Rightarrow>
   (nat \<Rightarrow> nat \<Rightarrow> instant) \<Rightarrow> (nat \<Rightarrow> 'f server \<Rightarrow> 'f server) \<Rightarrow> instant \<Rightarrow> nat \<Rightarrow> 'f server \<Rightarrow>
   (pb_job option \<times> 'f server) outcome option" where
  "grpc_next F timeout_millis clk now nows clks env now2 fuel s =
     map_option (map_outcome (\<lambda>(r, s). (map_option (to_pb_job now2) r, s)))
       (wait_next F (millisecond * timeout_millis) clk now nows clks env fuel s)"

definition grpc_ping :: string where
  "grpc_ping = ''pong''"

definition grpc_inspect_n :: "(bound \<Rightarrow> nat) \<Rightarrow> (nat \<Rightarrow> instant) \<Rightarrow> 32 word \<Rightarrow> 'f server \<Rightarrow> pb_job list" where
  "grpc_inspect_n rank nows n s =
     map (\<lambda>(i, j). to_pb_job (nows i) j) (enumerate 0 (get_n_jobs rank (scast n) (srv_hub s)))"

section \<open>The state of a server\<close>

text \<open>
  The hub is in order, and the monitor shows the memory of the jobs held plus \<open>leak\<close> bytes
  that no job in the hub accounts for; all of it below the limit of the underflow check.
\<close>

definition srv_ok :: "nat \<Rightarrow> 'f server \<Rightarrow> bool" where
  "srv_ok leak s \<longleftrightarrow> hub_good (srv_hub s) \<and>
     mem_counts (srv_mem s) (usage (hub_jobs (srv_hub s)) + leak) \<and>
     usage (hub_jobs (srv_hub s)) + leak \<le> 2 ^ 40"

lemma hub_do_goodD:
  assumes "hub_good h" and "hub_do F op h = Some (r, h')"
  shows "hub_good h' \<and> hub_jobs h' + job_out r = hub_jobs h + job_in op r"
  using assms(2) by (cases rule: hub_do_good [OF assms(1), of F op]) auto

lemma release_ok:
  assumes "hub_good h" and "mem_counts (srv_mem s) (usage (add_mset j (hub_jobs h)) + leak)"
    and "usage (add_mset j (hub_jobs h)) + leak \<le> 2 ^ 40"
  obtains m where "release_job j (s\<lparr>srv_hub := h\<rparr>) = Done (s\<lparr>srv_hub := h, srv_mem := m\<rparr>)"
    "srv_ok leak (s\<lparr>srv_hub := h, srv_mem := m\<rparr>)"
proof -
  have "mem_counts (srv_mem s) (usage (hub_jobs h) + leak + unat (size_of j))"
    using assms(2) by (simp add: ac_simps)
  moreover have "usage (hub_jobs h) + leak \<le> 2 ^ 40" using assms(3) by simp
  ultimately obtain m where "mm_decrement (size_of j) (srv_mem s) = (False, m)"
    "mem_counts m (usage (hub_jobs h) + leak)" by (rule decrement_counts)
  then show ?thesis using assms that [of m] by (simp add: release_job_def srv_ok_def)
qed

lemma next_attempt_cases:
  assumes ok: "srv_ok leak s"
  obtains (none) s' where "next_attempt F clk s = Done (None, s')" "srv_ok leak s'"
      "hub_jobs (srv_hub s') = hub_jobs (srv_hub s)" "srv_mem s' = srv_mem s"
  | (some) j s' where "next_attempt F clk s = Done (Some j, s')" "srv_ok leak s'"
      "hub_jobs (srv_hub s) = add_mset j (hub_jobs (srv_hub s'))"
      "trigger_at j \<le> clk 0 \<or> trigger_at j \<le> clk 5"
proof -
  let ?h = "srv_hub s"
  have good: "hub_good ?h" and wf: "hub_wf ?h" using ok by (simp_all add: srv_ok_def hub_good_def)
  show ?thesis
  proof (cases rule: hub_next_cases [OF wf, of F clk])
    case (1 h')
    then show ?thesis using none [of "s\<lparr>srv_hub := h'\<rparr>"] ok
      by (simp add: next_attempt_def srv_ok_def jobs_kept_def hub_good_def)
  next
    case (2 j h' r)
    have "hub_good h'" using 2 good by (simp add: hub_good_def)
    from release_ok [OF this] obtain m where
      "release_job j (s\<lparr>srv_hub := h'\<rparr>) = Done (s\<lparr>srv_hub := h', srv_mem := m\<rparr>)"
      "srv_ok leak (s\<lparr>srv_hub := h', srv_mem := m\<rparr>)"
      using ok 2(4) unfolding srv_ok_def by metis
    with 2 show ?thesis
      by (intro some [of j "s\<lparr>srv_hub := h', srv_mem := m\<rparr>"]) (simp_all add: next_attempt_def)
  qed
qed

lemma cancel_cases:
  assumes ok: "srv_ok leak s"
  obtains (none) s' where "rpc_cancel F rank jid s = Done (None, s')" "srv_ok leak s'"
      "hub_jobs (srv_hub s') = hub_jobs (srv_hub s)" "srv_mem s' = srv_mem s"
  | (some) j s' where "rpc_cancel F rank jid s = Done (None, s')" "srv_ok leak s'"
      "hub_jobs (srv_hub s) = add_mset j (hub_jobs (srv_hub s'))" "job_id j = jid"
proof -
  let ?h = "srv_hub s"
  have good: "hub_good ?h" and wf: "hub_wf ?h" using ok by (simp_all add: srv_ok_def hub_good_def)
  show ?thesis
  proof (cases rule: hub_cancel_cases [OF wf, of F rank jid])
    case 1
    then show ?thesis using none [of s] ok by (simp add: rpc_cancel_def)
  next
    case (2 r h')
    obtain f where h': "h' = ?h\<lparr>job_filter_state := f\<rparr>" using 2(2) by blast
    show ?thesis using none [of "s\<lparr>srv_hub := h'\<rparr>"] 2(1) ok
      by (simp add: rpc_cancel_def srv_ok_def hub_good_def h')
  next
    case (3 j r h')
    have "hub_good h'" using 3 good by (simp add: hub_good_def)
    from release_ok [OF this] obtain m where
      "release_job j (s\<lparr>srv_hub := h'\<rparr>) = Done (s\<lparr>srv_hub := h', srv_mem := m\<rparr>)"
      "srv_ok leak (s\<lparr>srv_hub := h', srv_mem := m\<rparr>)"
      using ok 3(5) unfolding srv_ok_def by metis
    with 3 show ?thesis
      by (intro some [of "s\<lparr>srv_hub := h', srv_mem := m\<rparr>" j]) (simp_all add: rpc_cancel_def)
  qed
qed

text \<open>The two cancel handlers do the same.\<close>

lemma grpc_cancel_eq: "grpc_cancel F rank jid s = rpc_cancel F rank jid s"
  by (auto simp: grpc_cancel_def rpc_cancel_def split: option.splits sum.splits prod.splits outcome.splits)

text \<open>Run alone, both handlers have the same two effects.\<close>

definition put_effect ::
  "'f filter_ops \<Rightarrow> (bound \<Rightarrow> nat) \<Rightarrow> instant \<Rightarrow> job \<Rightarrow> 'f server \<Rightarrow> go_error option \<times> 'f server" where
  "put_effect F rank now j s =
     (let (err, h) = hub_add F rank now j (srv_hub s)
      in (err, s\<lparr>srv_hub := h, srv_mem := mm_increment (size_of j) (srv_mem s)\<rparr>))"

lemma rpc_put_eq:
  "rpc_put_with_id F rank now1 now2 aj s =
     (if \<not> mm_fence_open (srv_mem s) then Blocked
      else let (j, s1) = put_job (aj_id aj) (t_add now1 (aj_delay aj)) (aj_body aj) s;
               (err, s2) = put_effect F rank now2 j s1
           in Done (err, if aj_id aj = [] then Some (job_id j) else None, s2))"
  by (auto simp: rpc_put_with_id_def put_effect_def add_locked_def account_def Let_def split: prod.splits)

lemma grpc_put_eq:
  "grpc_put_with_id F rank now1 now2 (Some pj) s =
     (let (j, s1) = put_job (pb_id pj) (t_add now1 (millisecond * pb_delay_millis pj)) (pb_body pj) s;
          (err, s2) = put_effect F rank now2 j s1
      in Done (err, job_id j, s2))"
  by (auto simp: grpc_put_with_id_def put_effect_def add_locked_def account_def Let_def split: prod.splits)

lemma put_job_hub: "put_job jid t b s = (j, s1) \<Longrightarrow> srv_hub s1 = srv_hub s \<and> srv_mem s1 = srv_mem s"
  by (auto simp: put_job_def Let_def split: if_splits prod.splits)

text \<open>A rejected job is accounted for all the same.\<close>

lemma put_effect_cases:
  assumes ok: "srv_ok leak s"
    and small: "usage (hub_jobs (srv_hub s)) + leak + unat (size_of j) \<le> 2 ^ 40"
  obtains (accepted) s' where "put_effect F rank now j s = (None, s')" "srv_ok leak s'"
      "hub_jobs (srv_hub s') = add_mset j (hub_jobs (srv_hub s))"
  | (rejected) e s' where "put_effect F rank now j s = (Some e, s')"
      "srv_ok (leak + unat (size_of j)) s'" "hub_jobs (srv_hub s') = hub_jobs (srv_hub s)"
      "srv_hub s' = srv_hub s"
proof -
  let ?h = "srv_hub s"
  have good: "hub_good ?h" and wf: "hub_wf ?h" using ok by (simp_all add: srv_ok_def hub_good_def)
  have m: "mem_counts (mm_increment (size_of j) (srv_mem s))
      (usage (hub_jobs ?h) + leak + unat (size_of j))"
    using ok small by (intro increment_counts) (simp_all add: srv_ok_def)
  let ?s = "\<lambda>h. s\<lparr>srv_hub := h, srv_mem := mm_increment (size_of j) (srv_mem s)\<rparr>"
  have rej: "srv_ok (leak + unat (size_of j)) (?s ?h)"
    using good m small by (simp add: srv_ok_def ac_simps)
  show ?thesis
  proof (cases rule: hub_add_cases [OF wf, of F rank now j])
    case (1 a)
    then show ?thesis using rejected [of _ "?s ?h"] rej by (simp add: put_effect_def)
  next
    case 2
    then show ?thesis using rejected [of _ "?s ?h"] rej by (simp add: put_effect_def)
  next
    case (3 r h')
    have "hub_good h'" using 3 good by (simp add: hub_good_def)
    then have "srv_ok leak (?s h')" using m small 3(6) by (simp add: srv_ok_def ac_simps)
    with 3 show ?thesis by (intro accepted [of "?s h'"]) (simp_all add: put_effect_def)
  qed
qed

section \<open>Waiting for a job\<close>

definition srv_safe :: "'f server \<Rightarrow> bool" where
  "srv_safe s \<longleftrightarrow> (\<exists>leak. srv_ok leak s)"

text \<open>The sleep of 200 milliseconds, between one check of the deadline and the next.\<close>

definition sleeps :: "(nat \<Rightarrow> instant) \<Rightarrow> bool" where
  "sleeps nows \<longleftrightarrow> (\<forall>k. nows k + 200 * sint millisecond \<le> nows (Suc k))"

text \<open>Polls enough for a deadline \<open>d\<close> nanoseconds away.\<close>

definition poll_fuel :: "int \<Rightarrow> nat" where
  "poll_fuel d = Suc (nat (d div (200 * sint millisecond)) + 1)"

definition env_safe :: "(nat \<Rightarrow> 'f server \<Rightarrow> 'f server) \<Rightarrow> bool" where
  "env_safe env \<longleftrightarrow> (\<forall>k s. srv_safe s \<longrightarrow> srv_safe (env k s))"

text \<open>What a poll or a wait may answer in a safe state.\<close>

definition next_result ::
  "(nat \<Rightarrow> nat \<Rightarrow> instant) \<Rightarrow> (job option \<times> 'f server) outcome option \<Rightarrow> bool" where
  "next_result clks r \<longleftrightarrow> (\<exists>jo s. r = Some (Done (jo, s)) \<and> srv_safe s \<and>
     (\<forall>j. jo = Some j \<longrightarrow> (\<exists>k i. trigger_at j \<le> clks k i)))"

lemma sint_millisecond [simp]: "sint millisecond = 1000000"
  by (simp add: millisecond_def)

lemma next_loop_result:
  "srv_safe s \<Longrightarrow> env_safe env \<Longrightarrow> sleeps nows \<Longrightarrow> 0 < n \<Longrightarrow>
   till - nows k \<le> 200000000 * (int n - 1) \<Longrightarrow>
   next_result clks (next_loop F till nows clks env n k s)"
proof (induction n arbitrary: k s)
  case (Suc n)
  from Suc.prems(1) obtain leak where ok: "srv_ok leak s" by (auto simp: srv_safe_def)
  show ?case
  proof (cases "t_after till (nows k)")
    case False
    then show ?thesis using Suc.prems(1) by (simp add: next_result_def)
  next
    case True
    then have "nows k < till" by (simp add: time_simps)
    with Suc.prems(5) have n: "0 < n" by simp
    show ?thesis
    proof (cases rule: next_attempt_cases [OF ok, of F "clks k"])
      case (1 s')
      have "srv_safe (env k s')" using 1(2) Suc.prems(2) by (auto simp: env_safe_def srv_safe_def)
      moreover have "nows k + 200000000 \<le> nows (Suc k)"
        using Suc.prems(3) by (simp add: sleeps_def)
      ultimately have "next_result clks (next_loop F till nows clks env n (Suc k) (env k s'))"
        using Suc.IH [OF _ Suc.prems(2,3) n] Suc.prems(5) n by (simp add: algebra_simps)
      then show ?thesis using 1(1) True by simp
    next
      case (2 j s')
      then show ?thesis using True by (auto simp: next_result_def srv_safe_def)
    qed
  qed
qed simp

text \<open>With the first attempt as the readings number 0 and the polls as the next ones.\<close>

lemma wait_next_result:
  assumes safe: "srv_safe s" and env: "env_safe env" and sl: "sleeps nows" and now: "now \<le> nows 0"
  shows "next_result (\<lambda>k. if k = 0 then clk else clks (k - 1))
    (wait_next F timeout clk now nows clks env (poll_fuel (sint timeout)) s)"
proof -
  let ?clks = "\<lambda>k. if k = 0 then clk else clks (k - 1)"
  from safe obtain leak where ok: "srv_ok leak s" by (auto simp: srv_safe_def)
  show ?thesis
  proof (cases rule: next_attempt_cases [OF ok, of F clk])
    case (1 s1)
    then have s1: "srv_safe s1" by (auto simp: srv_safe_def)
    show ?thesis
    proof (cases "timeout = 0")
      case True
      then show ?thesis using 1(1) s1 by (simp add: wait_next_def next_result_def)
    next
      case False
      let ?n = "poll_fuel (sint timeout)"
      have "sint timeout - 200000000 * (sint timeout div 200000000) < 200000000"
        by (metis minus_mult_div_eq_mod pos_mod_bound zero_less_numeral)
      then have "t_add now timeout - nows 0 \<le> 200000000 * (int ?n - 1)"
        using now by (simp add: t_add_def poll_fuel_def)
      moreover have "0 < ?n" by (simp add: poll_fuel_def)
      ultimately have "next_result clks (next_loop F (t_add now timeout) nows clks env ?n 0 s1)"
        by (intro next_loop_result [OF s1 env sl])
      then obtain jo s' where r: "next_loop F (t_add now timeout) nows clks env ?n 0 s1 = Some (Done (jo, s'))"
        "srv_safe s'" "\<And>j. jo = Some j \<Longrightarrow> \<exists>k i. trigger_at j \<le> clks k i"
        by (auto simp: next_result_def)
      have "\<exists>k i. trigger_at j \<le> ?clks k i" if "jo = Some j" for j
      proof -
        obtain k i where "trigger_at j \<le> clks k i" using r(3) [OF \<open>jo = Some j\<close>] by blast
        then show ?thesis by (intro exI [of _ "Suc k"] exI [of _ i]) simp
      qed
      moreover have "wait_next F timeout clk now nows clks env ?n s = Some (Done (jo, s'))"
        using 1(1) False r(1) by (simp add: wait_next_def)
      ultimately show ?thesis using r(2) unfolding next_result_def by blast
    qed
  next
    case (2 j s')
    then have "wait_next F timeout clk now nows clks env (poll_fuel (sint timeout)) s = Some (Done (Some j, s'))"
      by (simp add: wait_next_def)
    moreover obtain i where "trigger_at j \<le> clk i" using 2(4) by blast
    then have "\<exists>k i. trigger_at j \<le> ?clks k i" by (intro exI [of _ 0] exI [of _ i]) simp
    moreover have "srv_safe s'" using 2(2) by (auto simp: srv_safe_def)
    ultimately show ?thesis unfolding next_result_def by blast
  qed
qed

section \<open>A leak of the accounting\<close>

text \<open>The leaked bytes alone are at the watermark of the monitor.\<close>

definition stuck :: "nat \<Rightarrow> 'f server \<Rightarrow> bool" where
  "stuck leak s \<longleftrightarrow> srv_ok leak s \<and> (\<exists>m. srv_mem s = Mem_Monitor m \<and> unat (mm_watermark m) \<le> leak)"

definition mem_mark :: "monitor \<Rightarrow> 64 word option" where
  "mem_mark m = (case m of Noop_Monitor \<Rightarrow> None | Mem_Monitor s \<Rightarrow> Some (mm_watermark s))"

lemma stuck_iff: "stuck leak s \<longleftrightarrow> srv_ok leak s \<and> (\<exists>w. mem_mark (srv_mem s) = Some w \<and> unat w \<le> leak)"
  by (cases "srv_mem s") (auto simp: stuck_def mem_mark_def)

lemma mark_increment: "mem_mark (mm_increment sz m) = mem_mark m"
  by (cases m) (simp_all add: mem_mark_def mm_increment_def)

lemma mark_release: "release_job j s = Done s' \<Longrightarrow> mem_mark (srv_mem s') = mem_mark (srv_mem s)"
  by (auto simp: release_job_def mem_mark_def mm_decrement_def Let_def split: monitor.splits if_splits prod.splits)

lemma mark_next: "next_attempt F clk s = Done (jo, s') \<Longrightarrow> mem_mark (srv_mem s') = mem_mark (srv_mem s)"
  by (auto simp: next_attempt_def dest!: mark_release split: option.splits outcome.splits)

lemma mark_cancel: "rpc_cancel F rank jid s = Done (e, s') \<Longrightarrow> mem_mark (srv_mem s') = mem_mark (srv_mem s)"
  by (auto simp: rpc_cancel_def dest!: mark_release split: option.splits outcome.splits sum.splits)

lemma stuck_fence: "stuck leak s \<Longrightarrow> \<not> mm_fence_open (srv_mem s)"
  by (auto simp: stuck_def srv_ok_def mem_counts_def mm_fence_open_def word_le_nat_alt)

lemma stuck_next:
  assumes "stuck leak s"
  shows "\<exists>jo s'. next_attempt F clk s = Done (jo, s') \<and> stuck leak s'"
proof -
  have ok: "srv_ok leak s" using assms by (simp add: stuck_iff)
  show ?thesis
    by (cases rule: next_attempt_cases [OF ok, of F clk]) (use assms mark_next in \<open>fastforce simp: stuck_iff\<close>)+
qed

lemma stuck_cancel:
  assumes "stuck leak s"
  shows "\<exists>s'. rpc_cancel F rank jid s = Done (None, s') \<and> stuck leak s'"
proof -
  have ok: "srv_ok leak s" using assms by (simp add: stuck_iff)
  show ?thesis
    by (cases rule: cancel_cases [OF ok, of F rank jid]) (use assms mark_cancel in \<open>fastforce simp: stuck_iff\<close>)+
qed

text \<open>A gRPC put gets in, and leaves at least the same leak.\<close>

lemma stuck_grpc_put:
  assumes st: "stuck leak s" and j: "put_job (pb_id pj) (t_add now1 (millisecond * pb_delay_millis pj)) (pb_body pj) s = (j, s1)"
    and small: "usage (hub_jobs (srv_hub s)) + leak + unat (size_of j) \<le> 2 ^ 40"
  shows "\<exists>err s' leak'. grpc_put_with_id F rank now1 now2 (Some pj) s = Done (err, job_id j, s') \<and>
    stuck leak' s' \<and> leak \<le> leak'"
proof -
  note h = put_job_hub [OF j]
  have ok: "srv_ok leak s1" and small1: "usage (hub_jobs (srv_hub s1)) + leak + unat (size_of j) \<le> 2 ^ 40"
    using st h small by (simp_all add: stuck_iff srv_ok_def)
  have mark: "mem_mark (srv_mem s2) = mem_mark (srv_mem s)" if "put_effect F rank now2 j s1 = (e, s2)" for e s2
    using that h mark_increment by (auto simp: put_effect_def split: prod.splits)
  show ?thesis
    by (cases rule: put_effect_cases [OF ok small1, of F rank now2])
      (use st j mark in \<open>fastforce simp: grpc_put_eq stuck_iff\<close>)+
qed

section \<open>Properties\<close>

text \<open>A server at its start.\<close>

definition new_server :: "'f hub \<Rightarrow> 64 word \<Rightarrow> 'f server" where
  "new_server h watermark = \<lparr>srv_hub = h, srv_mem = configure_mem_monitor watermark, srv_ids = 0\<rparr>"

lemma new_server_ok: "srv_ok 0 (new_server (new_hub f span now1 now2) w)"
  by (simp add: srv_ok_def new_server_def new_hub_good new_hub_jobs mem_counts_def configure_mem_monitor_def)

text \<open>
  C12: \<open>Next\<close> of a safe server answers in time. Safe means that the hub is in order and the
  monitor counts at least the jobs of the hub, with at most a tebibyte in all: a new server is
  safe, and so is one whose handlers have run to their end; a restored one is not (C24), nor is
  one with an RPC put that has added its job and not yet counted it (C40). With at least 200
  milliseconds between two polls, and whatever the other handlers do meanwhile, as long as they
  leave the server safe when a poll comes, the call returns after at most as many polls as fit
  into the timeout and two more, it does not panic, and a job that it hands out was ready at one
  of its clock readings.
\<close>

theorem next_answers_in_time:
  assumes "srv_safe s" and "env_safe env" and "sleeps nows" and "now \<le> nows 0"
  shows "\<exists>jo s'. wait_next F timeout clk now nows clks env (poll_fuel (sint timeout)) s = Some (Done (jo, s')) \<and>
    srv_safe s' \<and>
    (\<forall>j. jo = Some j \<longrightarrow> (\<exists>i. trigger_at j \<le> clk i) \<or> (\<exists>k i. trigger_at j \<le> clks k i))"
proof -
  obtain jo s' where r: "wait_next F timeout clk now nows clks env (poll_fuel (sint timeout)) s = Some (Done (jo, s'))"
    "srv_safe s'" "\<And>j. jo = Some j \<Longrightarrow> \<exists>k i. trigger_at j \<le> (if k = 0 then clk else clks (k - 1)) i"
    using wait_next_result [OF assms, of clk clks F timeout] unfolding next_result_def by blast
  have "(\<exists>i. trigger_at j \<le> clk i) \<or> (\<exists>k i. trigger_at j \<le> clks k i)" if "jo = Some j" for j
    using r(3) [OF that] by (auto split: if_splits)
  with r(1,2) show ?thesis by blast
qed

theorem next_answers_in_time_witness:
  "\<exists>jo s'. wait_next (cuckoo_ops length_hash id) 500000000 (\<lambda>_. 5) 6 (\<lambda>k. 7 + 200000000 * int k) (\<lambda>k _. 8 + 200000000 * int k)
      (\<lambda>_ s. s) 4 (new_server (new_hub (new_filter 4, 0) 10 0 0) 1000) = Some (Done (jo, s')) \<and> srv_safe s'"
proof -
  have 1: "srv_safe (new_server (new_hub (new_filter 4, 0) 10 0 0) 1000)"
    unfolding srv_safe_def by (rule exI) (rule new_server_ok)
  have 2: "env_safe (\<lambda>_ (s :: (cuckoo \<times> nat) server). s)" by (simp add: env_safe_def)
  have 3: "sleeps (\<lambda>k. 7 + 200000000 * int k)" by (simp add: sleeps_def)
  have 4: "(6 :: instant) \<le> 7 + 200000000 * int 0" by simp
  have fuel: "poll_fuel (sint (500000000 :: duration)) = 4" by (simp add: poll_fuel_def)
  from next_answers_in_time [OF 1 2 3 4, of "cuckoo_ops length_hash id" 500000000 "\<lambda>_. 5" "\<lambda>k _. 8 + 200000000 * int k"]
  show ?thesis unfolding fuel by blast
qed

text \<open>
  C33: \<open>PutWithID\<close> of the RPC server, with the fence open and below the limit of one
  tebibyte: the job is taken in and accounted for, or it is rejected, the hub stays as it
  was, and its size is accounted for all the same, with no job that would ever give it back.
\<close>

theorem put_accounting:
  assumes "srv_ok leak s" and "mm_fence_open (srv_mem s)"
    and "put_job (aj_id aj) (t_add now1 (aj_delay aj)) (aj_body aj) s = (j, s1)"
    and "usage (hub_jobs (srv_hub s)) + leak + unat (size_of j) \<le> 2 ^ 40"
  shows "\<exists>err s'. rpc_put_with_id F rank now1 now2 aj s =
      Done (err, if aj_id aj = [] then Some (job_id j) else None, s') \<and>
    (if err = None
     then srv_ok leak s' \<and> hub_jobs (srv_hub s') = add_mset j (hub_jobs (srv_hub s))
     else srv_ok (leak + unat (size_of j)) s' \<and> srv_hub s' = srv_hub s)"
proof -
  from put_job_hub [OF assms(3)] have h: "srv_hub s1 = srv_hub s" "srv_mem s1 = srv_mem s" by simp_all
  then have ok: "srv_ok leak s1" using assms(1) by (simp add: srv_ok_def)
  have small: "usage (hub_jobs (srv_hub s1)) + leak + unat (size_of j) \<le> 2 ^ 40"
    using assms(4) h by simp
  show ?thesis
    by (cases rule: put_effect_cases [OF ok small, of F rank now2])
      (use assms(2,3) h in \<open>auto simp: rpc_put_eq\<close>)
qed

theorem put_accounting_witness:
  "\<exists>err s'. rpc_put_with_id (cuckoo_ops length_hash id) (\<lambda>_. 0) 1000 1000 \<lparr>aj_body = [1], aj_id = ''a'', aj_delay = 5\<rparr>
      (new_server (new_hub (new_filter 4, 0) 10 1000 1000) 4096) = Done (err, None, s') \<and>
    (if err = None then srv_ok 0 s' else srv_ok 82 s')"
proof -
  let ?s = "new_server (new_hub (new_filter 4, 0 :: nat) 10 1000 1000) 4096"
    and ?aj = "\<lparr>aj_body = [1], aj_id = ''a'', aj_delay = 5\<rparr>" and ?j = "new_job ''a'' 1005 [1]"
  have open_fence: "mm_fence_open (srv_mem ?s)"
    by (simp add: new_server_def configure_mem_monitor_def mm_fence_open_def)
  have job: "put_job (aj_id ?aj) (t_add 1000 (aj_delay ?aj)) (aj_body ?aj) ?s = (?j, ?s)"
    by (simp add: put_job_def t_add_def)
  have size: "unat (size_of ?j) = 82" by (simp add: size_of_def new_job_def size_overhead_def)
  have small: "usage (hub_jobs (srv_hub ?s)) + 0 + unat (size_of ?j) \<le> 2 ^ 40"
    unfolding size by (simp add: new_server_def new_hub_jobs)
  from put_accounting [OF new_server_ok open_fence job small, of "cuckoo_ops length_hash id" "\<lambda>_. 0" 1000]
  obtain err s' where r: "rpc_put_with_id (cuckoo_ops length_hash id) (\<lambda>_. 0) 1000 1000 ?aj ?s = Done (err, None, s')"
    "if err = None then srv_ok 0 s' \<and> hub_jobs (srv_hub s') = add_mset ?j (hub_jobs (srv_hub ?s))
     else srv_ok (0 + 82) s' \<and> srv_hub s' = srv_hub ?s" unfolding size by auto
  then have "if err = None then srv_ok 0 s' else srv_ok 82 s'" by (cases err) simp_all
  with r(1) show ?thesis by blast
qed

text \<open>
  C35: The two servers agree. A gRPC put hands to the hub a job with the id and the body of the
  request; its delay in milliseconds is turned into nanoseconds of 64 bits, exactly up to
  9223372036854 (292 years) and wrapping around beyond. An RPC put of the same delay, run alone,
  does the same to the server and gives the same error if the fence is open, and blocks if it is
  closed, which the gRPC server does not check. The two cancel handlers are the same function.
\<close>

theorem servers_agree:
  "(\<exists>j err s'. grpc_put_with_id F rank now1 now2 (Some pj) s = Done (err, job_id j, s') \<and>
      hub_add F rank now2 j (srv_hub s) = (err, srv_hub s') \<and>
      srv_mem s' = mm_increment (size_of j) (srv_mem s) \<and>
      body j = pb_body pj \<and> (pb_id pj \<noteq> [] \<longrightarrow> job_id j = pb_id pj) \<and>
      trigger_at j = now1 + ((1000000 * sint (pb_delay_millis pj) + 2 ^ 63) mod 2 ^ 64 - 2 ^ 63) \<and>
      (trigger_at j = now1 + 1000000 * sint (pb_delay_millis pj) \<longleftrightarrow>
        \<bar>sint (pb_delay_millis pj)\<bar> \<le> 9223372036854) \<and>
      rpc_put_with_id F rank now1 now2
        \<lparr>aj_body = pb_body pj, aj_id = pb_id pj, aj_delay = millisecond * pb_delay_millis pj\<rparr> s =
        (if mm_fence_open (srv_mem s)
         then Done (err, if pb_id pj = [] then Some (job_id j) else None, s') else Blocked)) \<and>
   grpc_cancel F rank jid s = rpc_cancel F rank jid s"
proof (rule conjI)
  let ?d = "pb_delay_millis pj"
  obtain j s1 where j: "put_job (pb_id pj) (t_add now1 (millisecond * ?d)) (pb_body pj) s = (j, s1)" by fastforce
  obtain err s' where e: "put_effect F rank now2 j s1 = (err, s')" by fastforce
  have job: "body j = pb_body pj" "pb_id pj \<noteq> [] \<longrightarrow> job_id j = pb_id pj"
    "trigger_at j = t_add now1 (millisecond * ?d)"
    using j by (auto simp: put_job_def new_job_auto_id_def new_job_def Let_def split: if_splits prod.splits)
  have t: "trigger_at j = now1 + ((1000000 * sint ?d + 2 ^ 63) mod 2 ^ 64 - 2 ^ 63)"
    by (simp add: job(3) t_add_def sint_word_ariths signed_take_bit_eq_take_bit_shift take_bit_eq_mod)
  have "(1000000 * sint ?d + 2 ^ 63) mod 2 ^ 64 - 2 ^ 63 = 1000000 * sint ?d \<longleftrightarrow> \<bar>sint ?d\<bar> \<le> 9223372036854"
  proof
    assume "\<bar>sint ?d\<bar> \<le> 9223372036854"
    then show "(1000000 * sint ?d + 2 ^ 63) mod 2 ^ 64 - 2 ^ 63 = 1000000 * sint ?d"
      by (subst mod_pos_pos_trivial) auto
  next
    assume "(1000000 * sint ?d + 2 ^ 63) mod 2 ^ 64 - 2 ^ 63 = 1000000 * sint ?d"
    moreover define r where "r = (1000000 * sint ?d + 2 ^ 63) mod 2 ^ 64"
    ultimately have "r - 9223372036854775808 = 1000000 * sint ?d" "0 \<le> r" "r < 18446744073709551616"
      by simp_all
    then show "\<bar>sint ?d\<bar> \<le> 9223372036854" by arith
  qed
  then have x: "trigger_at j = now1 + 1000000 * sint ?d \<longleftrightarrow> \<bar>sint ?d\<bar> \<le> 9223372036854" using t by auto
  have h: "hub_add F rank now2 j (srv_hub s) = (err, srv_hub s')" "srv_mem s' = mm_increment (size_of j) (srv_mem s)"
    using e put_job_hub [OF j] by (auto simp: put_effect_def split: prod.splits)
  show "\<exists>j err s'. grpc_put_with_id F rank now1 now2 (Some pj) s = Done (err, job_id j, s') \<and>
      hub_add F rank now2 j (srv_hub s) = (err, srv_hub s') \<and>
      srv_mem s' = mm_increment (size_of j) (srv_mem s) \<and>
      body j = pb_body pj \<and> (pb_id pj \<noteq> [] \<longrightarrow> job_id j = pb_id pj) \<and>
      trigger_at j = now1 + ((1000000 * sint ?d + 2 ^ 63) mod 2 ^ 64 - 2 ^ 63) \<and>
      (trigger_at j = now1 + 1000000 * sint ?d \<longleftrightarrow> \<bar>sint ?d\<bar> \<le> 9223372036854) \<and>
      rpc_put_with_id F rank now1 now2
        \<lparr>aj_body = pb_body pj, aj_id = pb_id pj, aj_delay = millisecond * pb_delay_millis pj\<rparr> s =
        (if mm_fence_open (srv_mem s)
         then Done (err, if pb_id pj = [] then Some (job_id j) else None, s') else Blocked)"
    by (intro exI [of _ j] exI [of _ err] exI [of _ s'] conjI)
      (use j e h job t x in \<open>simp_all add: grpc_put_eq rpc_put_eq\<close>)
  show "grpc_cancel F rank jid s = rpc_cancel F rank jid s" by (rule grpc_cancel_eq)
qed

text \<open>A delay of 584 years, which becomes less than a millisecond; the job of an RPC put is the same.\<close>

theorem servers_agree_witness:
  "\<exists>j err s'. grpc_put_with_id (cuckoo_ops length_hash id) (\<lambda>_. 0) 1000 1000
        (Some \<lparr>pb_id = ''a'', pb_delay_millis = 18446744073710, pb_body = [1]\<rparr>)
        (new_server (new_hub (new_filter 4, 0) 10 1000 1000) 4096) = Done (err, ''a'', s') \<and>
      trigger_at j = 1000 + 448384 \<and> job_id j = ''a'' \<and>
      hub_add (cuckoo_ops length_hash id) (\<lambda>_. 0) 1000 j (new_hub (new_filter 4, 0) 10 1000 1000) = (err, srv_hub s') \<and>
      rpc_put_with_id (cuckoo_ops length_hash id) (\<lambda>_. 0) 1000 1000
        \<lparr>aj_body = [1], aj_id = ''a'', aj_delay = 448384\<rparr>
        (new_server (new_hub (new_filter 4, 0) 10 1000 1000) 4096) = Done (err, None, s')"
proof -
  have f: "mm_fence_open (srv_mem (new_server (new_hub (new_filter 4, 0) 10 1000 1000) 4096))"
    by (simp add: new_server_def configure_mem_monitor_def mm_fence_open_def)
  have m: "millisecond * 18446744073710 = 448384" by (simp add: millisecond_def)
  from servers_agree [THEN conjunct1, of "cuckoo_ops length_hash id" "\<lambda>_. 0" 1000 1000
      "\<lparr>pb_id = ''a'', pb_delay_millis = 18446744073710, pb_body = [1]\<rparr>"
      "new_server (new_hub (new_filter 4, 0) 10 1000 1000) 4096"]
  show ?thesis using f m by (auto simp: new_server_def)
qed

end
