(* ===== verification/Client.thy ===== *)
theory Client
  imports Protocol
begin

text \<open>
  \<open>api/rpc/chronomq/rpcclient.go\<close>: the client of the RPC server, and a call of \<open>net/rpc\<close>
  between the two. A call reaches the handler, whose error comes back as its text and without
  the reply; a connection that was closed refuses every call.
\<close>

section \<open>Errors on the wire\<close>

definition error_text :: "go_error \<Rightarrow> string" where
  "error_text e =
     (case e of
        ErrJobOutOfSpokeBounds \<Rightarrow> ''The offered job is outside the bounds of this spoke ''
      | ErrCannotFindJob \<Rightarrow> ''Cannot find job''
      | ErrNoOwnerSpoke \<Rightarrow> ''Cannot find job owner spoke''
      | ErrDuplicateJob jid \<Rightarrow> ''Rejecting new job. Job with ID: '' @ jid @ '' already exists''
      | ErrNoSpokeForJob \<Rightarrow> ''Unable to find a spoke for job. This should never happen'')"

definition err_timeout :: string where
  "err_timeout = ''No new jobs available in given timeout''"

section \<open>Connections\<close>

datatype client_error = ErrClientDisconnected | Rpc_Shutdown | Server_Error string | Unexpected_Pong string

datatype conn = Conn_Open | Conn_Closed

record client =
  cl_conn :: "conn option"

text \<open>\<open>NewClient\<close>; \<open>dialed\<close> is the error of \<open>rpc.Dial\<close>, if any. The client is there either way.\<close>

definition client_connect :: "'e option \<Rightarrow> client \<Rightarrow> 'e option \<times> client" where
  "client_connect dialed c =
     (case dialed of Some e \<Rightarrow> (Some e, c) | None \<Rightarrow> (None, c\<lparr>cl_conn := Some Conn_Open\<rparr>))"

definition new_client :: "'e option \<Rightarrow> 'e option \<times> client" where
  "new_client dialed = client_connect dialed \<lparr>cl_conn = None\<rparr>"

text \<open>
  \<open>rpc.Client.Call\<close>: \<open>reply0\<close> is what the reply holds before, \<open>answer\<close> what the handler
  makes of the state \<open>s\<close>.
\<close>

definition rpc_call ::
  "conn \<Rightarrow> 'r \<Rightarrow> 's \<Rightarrow> (string option \<times> 'r \<times> 's) outcome \<Rightarrow> (client_error option \<times> 'r \<times> 's) outcome" where
  "rpc_call cn reply0 s answer =
     (case cn of
        Conn_Closed \<Rightarrow> Done (Some Rpc_Shutdown, reply0, s)
      | Conn_Open \<Rightarrow>
          map_outcome (\<lambda>(e, reply, s1).
            case e of Some t \<Rightarrow> (Some (Server_Error t), reply0, s1) | None \<Rightarrow> (None, reply, s1)) answer)"

section \<open>The calls\<close>

text \<open>What a call depends on beside the state: the filter, the map order and the clock readings.\<close>

record 'f call_env =
  ce_filter :: "'f filter_ops"
  ce_rank :: "bound \<Rightarrow> nat"
  ce_now1 :: instant
  ce_now2 :: instant
  ce_clk :: "nat \<Rightarrow> instant"
  ce_nows :: "nat \<Rightarrow> instant"
  ce_clks :: "nat \<Rightarrow> nat \<Rightarrow> instant"
  ce_env :: "nat \<Rightarrow> 'f server \<Rightarrow> 'f server"
  ce_fuel :: nat

text \<open>The reply of the put handler is a fresh empty string that it may set.\<close>

definition put_call ::
  "'f call_env \<Rightarrow> api_job \<Rightarrow> conn \<Rightarrow> string \<Rightarrow> 'f server \<Rightarrow> (client_error option \<times> string \<times> 'f server) outcome" where
  "put_call E aj cn reply0 s =
     rpc_call cn reply0 s
       (map_outcome (\<lambda>(e, r, s1). (map_option error_text e, (case r of None \<Rightarrow> [] | Some jid \<Rightarrow> jid), s1))
         (rpc_put_with_id (ce_filter E) (ce_rank E) (ce_now1 E) (ce_now2 E) aj s))"

definition client_put_with_id ::
  "'f call_env \<Rightarrow> string \<Rightarrow> bytes \<Rightarrow> duration \<Rightarrow> client \<Rightarrow> 'f server \<Rightarrow> (client_error option \<times> 'f server) outcome" where
  "client_put_with_id E jid b d c s =
     (case cl_conn c of
        None \<Rightarrow> Done (Some ErrClientDisconnected, s)
      | Some cn \<Rightarrow>
          map_outcome (\<lambda>(e, _, s1). (e, s1)) (put_call E \<lparr>aj_body = b, aj_id = jid, aj_delay = d\<rparr> cn jid s))"

definition client_put ::
  "'f call_env \<Rightarrow> bytes \<Rightarrow> duration \<Rightarrow> client \<Rightarrow> 'f server \<Rightarrow> (string \<times> client_error option \<times> 'f server) outcome" where
  "client_put E b d c s =
     (case cl_conn c of
        None \<Rightarrow> Done ([], Some ErrClientDisconnected, s)
      | Some cn \<Rightarrow>
          map_outcome (\<lambda>(e, jid, s1). (jid, e, s1)) (put_call E \<lparr>aj_body = b, aj_id = [], aj_delay = d\<rparr> cn [] s))"

definition client_cancel ::
  "'f call_env \<Rightarrow> string \<Rightarrow> client \<Rightarrow> 'f server \<Rightarrow> (client_error option \<times> 'f server) outcome" where
  "client_cancel E jid c s =
     (case cl_conn c of
        None \<Rightarrow> Done (Some ErrClientDisconnected, s)
      | Some cn \<Rightarrow>
          map_outcome (\<lambda>(e, _, s1). (e, s1))
            (rpc_call cn () s
              (map_outcome (\<lambda>(e, s1). (map_option error_text e, (), s1))
                (rpc_cancel (ce_filter E) (ce_rank E) jid s))))"

text \<open>\<open>None\<close>: the fuel of the poll loop has run out. \<open>Next\<close> answers the id and the body.\<close>

definition client_next ::
  "'f call_env \<Rightarrow> duration \<Rightarrow> client \<Rightarrow> 'f server \<Rightarrow>
   (string \<times> bytes \<times> client_error option \<times> 'f server) outcome option" where
  "client_next E timeout c s =
     (case cl_conn c of
        None \<Rightarrow> Some (Done ([], [], Some ErrClientDisconnected, s))
      | Some Conn_Closed \<Rightarrow> Some (Done ([], [], Some Rpc_Shutdown, s))
      | Some Conn_Open \<Rightarrow>
          map_option (\<lambda>answer.
            map_outcome (\<lambda>(e, (b, jid), s1). if e = None then (jid, b, None, s1) else ([], [], e, s1))
              (rpc_call Conn_Open ([], []) s
                (map_outcome (\<lambda>(r, s1).
                   case r of None \<Rightarrow> (Some err_timeout, ([], []), s1) | Some (b, jid) \<Rightarrow> (None, (b, jid), s1)) answer)))
            (rpc_next (ce_filter E) timeout (ce_clk E) (ce_now1 E) (ce_nows E) (ce_clks E) (ce_env E) (ce_fuel E) s))"

definition client_close :: "client \<Rightarrow> client_error option \<times> client" where
  "client_close c =
     (case cl_conn c of
        None \<Rightarrow> (None, c)
      | Some Conn_Open \<Rightarrow> (None, c\<lparr>cl_conn := Some Conn_Closed\<rparr>)
      | Some Conn_Closed \<Rightarrow> (Some Rpc_Shutdown, c))"

definition client_ping :: "client \<Rightarrow> 'f server \<Rightarrow> (client_error option \<times> 'f server) outcome" where
  "client_ping c s =
     (case cl_conn c of
        None \<Rightarrow> Done (Some ErrClientDisconnected, s)
      | Some cn \<Rightarrow>
          map_outcome (\<lambda>(e, pong, s1).
            if e \<noteq> None then (e, s1)
            else if pong \<noteq> ''pong'' then (Some (Unexpected_Pong pong), s1) else (None, s1))
            (rpc_call cn [] s (Done (None, rpc_ping, s))))"

text \<open>A client that is not connected answers without an error here.\<close>

definition client_inspect_n ::
  "'f call_env \<Rightarrow> 64 word \<Rightarrow> api_job list \<Rightarrow> client \<Rightarrow> 'f server \<Rightarrow>
   (client_error option \<times> api_job list \<times> 'f server) outcome" where
  "client_inspect_n E n jobs c s =
     (case cl_conn c of
        None \<Rightarrow> Done (None, jobs, s)
      | Some cn \<Rightarrow> rpc_call cn jobs s (Done (None, rpc_inspect_n (ce_rank E) (ce_nows E) n s, s)))"

section \<open>A client and its server\<close>

datatype client_op =
    Call_Put bytes duration
  | Call_Put_With_Id string bytes duration
  | Call_Cancel string
  | Call_Next duration
  | Call_Ping
  | Call_Inspect "64 word"
  | Call_Close

datatype client_reply =
    Reply_Error client_error
  | Reply_Ok
  | Reply_Id string
  | Reply_Job string bytes
  | Reply_Jobs "api_job list"

definition ok_or_error :: "client_error option \<Rightarrow> client_reply" where
  "ok_or_error e = (case e of None \<Rightarrow> Reply_Ok | Some e \<Rightarrow> Reply_Error e)"

definition client_do ::
  "'f call_env \<Rightarrow> client_op \<Rightarrow> client \<Rightarrow> 'f server \<Rightarrow> (client_reply \<times> client \<times> 'f server) outcome option" where
  "client_do E op c s =
     (case op of
        Call_Put b d \<Rightarrow> Some (map_outcome (\<lambda>(jid, e, s1).
          (if e = None then Reply_Id jid else ok_or_error e, c, s1)) (client_put E b d c s))
      | Call_Put_With_Id jid b d \<Rightarrow> Some (map_outcome (\<lambda>(e, s1). (ok_or_error e, c, s1))
          (client_put_with_id E jid b d c s))
      | Call_Cancel jid \<Rightarrow> Some (map_outcome (\<lambda>(e, s1). (ok_or_error e, c, s1)) (client_cancel E jid c s))
      | Call_Next t \<Rightarrow> map_option (map_outcome (\<lambda>(jid, b, e, s1).
          (if e = None then Reply_Job jid b else ok_or_error e, c, s1))) (client_next E t c s)
      | Call_Ping \<Rightarrow> Some (map_outcome (\<lambda>(e, s1). (ok_or_error e, c, s1)) (client_ping c s))
      | Call_Inspect n \<Rightarrow> Some (map_outcome (\<lambda>(e, jobs, s1).
          (if e = None then Reply_Jobs jobs else ok_or_error e, c, s1)) (client_inspect_n E n [] c s))
      | Call_Close \<Rightarrow> (let (e, c1) = client_close c in Some (Done (ok_or_error e, c1, s))))"

text \<open>The replies that a call of each kind may have.\<close>

definition reply_typed :: "client_op \<Rightarrow> client_reply \<Rightarrow> bool" where
  "reply_typed op r =
     (case (op, r) of
        (Call_Inspect n, Reply_Error e) \<Rightarrow> e = Rpc_Shutdown
      | (Call_Cancel jid, Reply_Error e) \<Rightarrow> e = ErrClientDisconnected \<or> e = Rpc_Shutdown
      | (Call_Ping, Reply_Error e) \<Rightarrow> e = ErrClientDisconnected \<or> e = Rpc_Shutdown
      | (Call_Close, Reply_Error e) \<Rightarrow> e = Rpc_Shutdown
      | (Call_Next t, Reply_Error e) \<Rightarrow> e \<in> {ErrClientDisconnected, Rpc_Shutdown, Server_Error err_timeout}
      | (_, Reply_Error e) \<Rightarrow> True
      | (Call_Put b d, Reply_Id jid) \<Rightarrow> jid \<noteq> []
      | (Call_Put_With_Id jid b d, Reply_Ok) \<Rightarrow> True
      | (Call_Cancel jid, Reply_Ok) \<Rightarrow> True
      | (Call_Next t, Reply_Job jid b) \<Rightarrow> True
      | (Call_Ping, Reply_Ok) \<Rightarrow> True
      | (Call_Inspect n, Reply_Jobs jobs) \<Rightarrow> True
      | (Call_Close, Reply_Ok) \<Rightarrow> True
      | _ \<Rightarrow> False)"

text \<open>The job that a put asks for, if the call reaches the server.\<close>

definition asked_job :: "instant \<Rightarrow> client_op \<Rightarrow> 'f server \<Rightarrow> job option" where
  "asked_job now op s =
     (case op of
        Call_Put b d \<Rightarrow> Some (fst (put_job [] (t_add now d) b s))
      | Call_Put_With_Id jid b d \<Rightarrow> Some (fst (put_job jid (t_add now d) b s))
      | _ \<Rightarrow> None)"

text \<open>
  What a call needs: room below one tebibyte for the job of a put, and for \<open>Next\<close> the polls
  200 milliseconds apart, fuel for them, and safe other handlers meanwhile.
\<close>

definition call_ready :: "'f call_env \<Rightarrow> client_op \<Rightarrow> 'f server \<Rightarrow> bool" where
  "call_ready E op s \<longleftrightarrow>
     (\<exists>leak. srv_ok leak s \<and> (\<forall>j. asked_job (ce_now1 E) op s = Some j \<longrightarrow>
       usage (hub_jobs (srv_hub s)) + leak + unat (size_of j) \<le> 2 ^ 40)) \<and>
     (\<forall>t. op = Call_Next t \<longrightarrow> env_safe (ce_env E) \<and> sleeps (ce_nows E) \<and>
       ce_now1 E \<le> ce_nows E 0 \<and> ce_fuel E = poll_fuel (sint t))"

lemma call_ready_safe: "call_ready E op s \<Longrightarrow> srv_safe s"
  by (auto simp: call_ready_def srv_safe_def)

text \<open>A put call over an open connection.\<close>

lemma put_call_cases:
  assumes "srv_ok leak s" and "mm_fence_open (srv_mem s)"
    and "put_job (aj_id aj) (t_add (ce_now1 E) (aj_delay aj)) (aj_body aj) s = (j, s1)"
    and "usage (hub_jobs (srv_hub s)) + leak + unat (size_of j) \<le> 2 ^ 40"
  obtains (accepted) s' where "put_call E aj Conn_Open reply0 s =
      Done (None, if aj_id aj = [] then job_id j else [], s')" "srv_ok leak s'"
      "hub_jobs (srv_hub s') = add_mset j (hub_jobs (srv_hub s))"
  | (rejected) e s' where "put_call E aj Conn_Open reply0 s = Done (Some (Server_Error (error_text e)), reply0, s')"
      "srv_ok (leak + unat (size_of j)) s'" "srv_hub s' = srv_hub s"
proof -
  from put_job_hub [OF assms(3)] have h: "srv_hub s1 = srv_hub s" "srv_mem s1 = srv_mem s" by simp_all
  then have ok: "srv_ok leak s1" using assms(1) by (simp add: srv_ok_def)
  have small: "usage (hub_jobs (srv_hub s1)) + leak + unat (size_of j) \<le> 2 ^ 40"
    using assms(4) h by simp
  show ?thesis
  proof (cases rule: put_effect_cases [OF ok small, of "ce_filter E" "ce_rank E" "ce_now2 E"])
    case (1 s')
    show ?thesis by (rule accepted [of s']) (use 1 assms(2,3) h in \<open>auto simp: put_call_def rpc_call_def rpc_put_eq\<close>)
  next
    case (2 e s')
    show ?thesis by (rule rejected [of e s']) (use 2 assms(2,3) h in \<open>auto simp: put_call_def rpc_call_def rpc_put_eq\<close>)
  qed
qed

lemma put_call_closed: "put_call E aj Conn_Closed reply0 s = Done (Some Rpc_Shutdown, reply0, s)"
  by (simp add: put_call_def rpc_call_def)

lemma put_call_blocked: "\<not> mm_fence_open (srv_mem s) \<Longrightarrow> put_call E aj Conn_Open reply0 s = Blocked"
  by (simp add: put_call_def rpc_call_def rpc_put_with_id_def)

lemma auto_id_nonempty: "put_job [] t b s = (j, s1) \<Longrightarrow> job_id j \<noteq> []"
  by (auto simp: put_job_def new_job_auto_id_def new_job_def Let_def sprintf_d_nonempty split: prod.splits)

definition is_error :: "client_reply \<Rightarrow> bool" where
  "is_error r = (case r of Reply_Error e \<Rightarrow> True | _ \<Rightarrow> False)"

text \<open>An answered call: a reply of its type, a safe server, and the job of a put taken in or not.\<close>

definition answered :: "instant \<Rightarrow> client_op \<Rightarrow> client \<Rightarrow> 'f server \<Rightarrow> client_reply \<Rightarrow> 'f server \<Rightarrow> bool" where
  "answered now op c s r s' \<longleftrightarrow>
     reply_typed op r \<and> srv_safe s' \<and> (cl_conn c \<noteq> Some Conn_Open \<longrightarrow> s' = s) \<and>
     (\<forall>j. asked_job now op s = Some j \<longrightarrow>
       hub_jobs (srv_hub s') = hub_jobs (srv_hub s) + (if is_error r then {#} else {#j#}))"

lemma put_answered:
  assumes ready: "call_ready E op s" and j: "asked_job (ce_now1 E) op s = Some j"
    and f: "mm_fence_open (srv_mem s)" and c: "cl_conn c = Some Conn_Open"
  shows "\<exists>r c' s'. client_do E op c s = Some (Done (r, c', s')) \<and> answered (ce_now1 E) op c s r s'"
proof -
  from ready j obtain leak where ok: "srv_ok leak s"
    and small: "usage (hub_jobs (srv_hub s)) + leak + unat (size_of j) \<le> 2 ^ 40"
    by (auto simp: call_ready_def)
  have safe: "srv_ok l s' \<Longrightarrow> srv_safe s'" for l s' by (auto simp: srv_safe_def)
  from j consider (auto) b d s1 where "op = Call_Put b d" "put_job [] (t_add (ce_now1 E) d) b s = (j, s1)"
    | (own) jid b d s1 where "op = Call_Put_With_Id jid b d" "put_job jid (t_add (ce_now1 E) d) b s = (j, s1)"
    by (cases op) (auto simp: asked_job_def, (metis prod.collapse)+)
  then show ?thesis
  proof cases
    case auto
    note id = auto_id_nonempty [OF auto(2)]
    show ?thesis
      by (cases rule: put_call_cases [OF ok f, of "\<lparr>aj_body = b, aj_id = [], aj_delay = d\<rparr>" E j s1 "[]"])
        (use auto small c id in \<open>auto simp: client_do_def client_put_def answered_def reply_typed_def
          ok_or_error_def is_error_def asked_job_def dest: safe\<close>)
  next
    case own
    show ?thesis
      by (cases rule: put_call_cases [OF ok f, of "\<lparr>aj_body = b, aj_id = jid, aj_delay = d\<rparr>" E j s1 jid])
        (use own small c in \<open>auto simp: client_do_def client_put_with_id_def answered_def reply_typed_def
          ok_or_error_def is_error_def asked_job_def dest: safe\<close>)
  qed
qed

lemma next_answered:
  assumes "call_ready E (Call_Next t) s" and c: "cl_conn c = Some Conn_Open"
  shows "\<exists>r c' s'. client_do E (Call_Next t) c s = Some (Done (r, c', s')) \<and>
    answered (ce_now1 E) (Call_Next t) c s r s'"
proof -
  have "next_result (\<lambda>k. if k = 0 then ce_clk E else ce_clks E (k - 1))
      (wait_next (ce_filter E) t (ce_clk E) (ce_now1 E) (ce_nows E) (ce_clks E) (ce_env E) (ce_fuel E) s)"
    using wait_next_result [OF call_ready_safe [OF assms(1)], of "ce_env E"] assms(1)
    by (simp add: call_ready_def)
  then obtain jo s' where r: "wait_next (ce_filter E) t (ce_clk E) (ce_now1 E) (ce_nows E) (ce_clks E)
      (ce_env E) (ce_fuel E) s = Some (Done (jo, s'))" "srv_safe s'" by (auto simp: next_result_def)
  then show ?thesis using c
    by (cases jo) (auto simp: client_do_def client_next_def rpc_next_def rpc_call_def answered_def
        reply_typed_def ok_or_error_def asked_job_def)
qed

lemma cancel_answered:
  assumes "srv_ok leak s" and c: "cl_conn c = Some Conn_Open"
  shows "\<exists>r c' s'. client_do E (Call_Cancel jid) c s = Some (Done (r, c', s')) \<and>
    answered now (Call_Cancel jid) c s r s'"
  by (cases rule: cancel_cases [OF assms(1), of "ce_filter E" "ce_rank E" jid])
    (use c in \<open>auto simp: client_do_def client_cancel_def rpc_call_def answered_def reply_typed_def
      ok_or_error_def asked_job_def srv_safe_def\<close>)

text \<open>Calls that never reach the server.\<close>

lemma unreached_answered:
  assumes "srv_safe s" and "cl_conn c \<noteq> Some Conn_Open"
  shows "\<exists>r c' s'. client_do E op c s = Some (Done (r, c', s')) \<and> answered (ce_now1 E) op c s r s'"
proof -
  from assms(2) consider "cl_conn c = None" | "cl_conn c = Some Conn_Closed" by (metis conn.exhaust option.exhaust)
  then show ?thesis
    by cases (use assms(1) in \<open>(cases op; auto simp: client_do_def client_put_def client_put_with_id_def
      client_cancel_def client_next_def client_close_def client_ping_def client_inspect_n_def put_call_closed
      rpc_call_def answered_def reply_typed_def ok_or_error_def is_error_def asked_job_def)+\<close>)
qed

section \<open>Properties\<close>

text \<open>
  C13: Every call of the client is answered with a reply of its type, or a put waits in the
  fence of the memory monitor. An error of \<open>Next\<close> that comes from the server is the timeout, and
  \<open>Cancel\<close> never fails on the server. The server stays in a safe state; it is not touched
  by a client without an open connection; and a put is answered without an error exactly if
  its job is in the hub.
\<close>

theorem client_calls_answered:
  assumes "call_ready E op s"
  shows "(\<exists>r c' s'. client_do E op c s = Some (Done (r, c', s')) \<and> answered (ce_now1 E) op c s r s') \<or>
    (client_do E op c s = Some Blocked \<and> asked_job (ce_now1 E) op s \<noteq> None \<and> \<not> mm_fence_open (srv_mem s))"
proof (cases "cl_conn c = Some Conn_Open")
  case False
  then show ?thesis using unreached_answered [OF call_ready_safe [OF assms]] by blast
next
  case c: True
  from assms obtain leak where ok: "srv_ok leak s" by (auto simp: call_ready_def)
  show ?thesis
  proof (cases "asked_job (ce_now1 E) op s")
    case (Some j)
    then show ?thesis
      using put_answered [OF assms Some _ c] put_call_blocked [of s E] c
      by (cases "mm_fence_open (srv_mem s)"; cases op)
        (auto simp: client_do_def client_put_def client_put_with_id_def asked_job_def)
  next
    case None
    have simple: "\<exists>r c' s'. client_do E op c s = Some (Done (r, c', s')) \<and> answered (ce_now1 E) op c s r s'"
      if "op = Call_Ping \<or> (\<exists>n. op = Call_Inspect n) \<or> op = Call_Close"
      using that c call_ready_safe [OF assms]
      by (auto simp: client_do_def client_ping_def client_inspect_n_def client_close_def rpc_call_def rpc_ping_def
          answered_def reply_typed_def ok_or_error_def asked_job_def)
    show ?thesis
      using None simple next_answered [of E _ s c] cancel_answered [OF ok c] assms c
      by (cases op) (auto simp: asked_job_def)
  qed
qed

definition demo_call :: "(cuckoo \<times> nat) call_env" where
  "demo_call =
     \<lparr>ce_filter = cuckoo_ops length_hash id, ce_rank = \<lambda>_. 0, ce_now1 = 1000, ce_now2 = 1001, ce_clk = \<lambda>_. 1002,
      ce_nows = \<lambda>k. 1003 + 200000000 * int k, ce_clks = \<lambda>k _. 1004 + 200000000 * int k, ce_env = \<lambda>_ s. s, ce_fuel = 2\<rparr>"

text \<open>A put without an id into an empty server: it is the first generated one.\<close>

theorem client_calls_answered_witness:
  "\<exists>r c' s'. client_do demo_call (Call_Put [1] 5) \<lparr>cl_conn = Some Conn_Open\<rparr>
       (new_server (new_hub (new_filter 4, 0) 10 0 0) 1000) = Some (Done (r, c', s')) \<and>
     answered 1000 (Call_Put [1] 5) \<lparr>cl_conn = Some Conn_Open\<rparr> (new_server (new_hub (new_filter 4, 0) 10 0 0) 1000) r s'"
proof -
  let ?s = "new_server (new_hub (new_filter 4, 0 :: nat) 10 0 0) 1000"
  have j: "asked_job 1000 (Call_Put [1] 5) ?s = Some (new_job ''1'' 1005 [1])" by code_simp
  have "unat (size_of (new_job ''1'' 1005 [1])) = 82" by (simp add: size_of_def new_job_def size_overhead_def)
  then have "usage (hub_jobs (srv_hub ?s)) + 0 + unat (size_of (new_job ''1'' 1005 [1])) \<le> 2 ^ 40"
    by (simp add: new_server_def new_hub_jobs)
  then have "call_ready demo_call (Call_Put [1] 5) ?s"
    using new_server_ok [of "(new_filter 4, 0 :: nat)" 10 0 0 1000] j by (auto simp: call_ready_def demo_call_def)
  moreover have "mm_fence_open (srv_mem ?s)"
    by (simp add: new_server_def configure_mem_monitor_def mm_fence_open_def)
  moreover have "ce_now1 demo_call = 1000" by (simp add: demo_call_def)
  ultimately show ?thesis
    using client_calls_answered [of demo_call "Call_Put [1] 5" ?s "\<lparr>cl_conn = Some Conn_Open\<rparr>"] by auto
qed

end
