(* ===== verification/Journal.thy ===== *)
theory Journal
  imports Chrono_Prelude
begin

unbundle bit_operations_syntax

text \<open>
  The journal format of the vendored \<open>goleveldb/leveldb/journal\<close>, which the persister
  writes and reads: a stream of blocks of 32 KiB, each a sequence of chunks with a header of
  7 bytes (checksum, length, type); a record is one full chunk, or a first, middle and last
  ones. This theory holds the constants, the checksum, the writer and the reader, as
  functions on their buffers and positions.
\<close>

section \<open>Constants and checksum\<close>

definition full_chunk :: "8 word" where "full_chunk = 1"
definition first_chunk :: "8 word" where "first_chunk = 2"
definition middle_chunk :: "8 word" where "middle_chunk = 3"
definition last_chunk :: "8 word" where "last_chunk = 4"

definition block_size :: nat where "block_size = 32 * 1024"
definition header_size :: nat where "header_size = 7"

text \<open>
  \<open>hash/crc32\<close> with the Castagnoli table, one bit at a time, and \<open>leveldb/util/crc32.go\<close>:
  \<open>NewCRC(b).Value()\<close> is the checksum rotated and masked.
\<close>

fun crc_bits :: "nat \<Rightarrow> 32 word \<Rightarrow> 32 word" where
  "crc_bits 0 c = c"
| "crc_bits (Suc n) c =
     crc_bits n (if bit c 0 then drop_bit 1 c XOR 0x82f63b78 else drop_bit 1 c)"

definition crc32_update :: "32 word \<Rightarrow> bytes \<Rightarrow> 32 word" where
  "crc32_update c bs = NOT (foldl (\<lambda>c b. crc_bits 8 (c XOR ucast b)) (NOT c) bs)"

definition new_crc :: "bytes \<Rightarrow> 32 word" where
  "new_crc bs = crc32_update 0 bs"

definition crc_value :: "32 word \<Rightarrow> 32 word" where
  "crc_value c = (drop_bit 15 c OR push_bit 17 c) + 0xa282ead8"

text \<open>\<open>binary.LittleEndian\<close>\<close>

definition put_uint16 :: "16 word \<Rightarrow> bytes" where
  "put_uint16 w = [ucast w, ucast (drop_bit 8 w)]"

definition put_uint32 :: "32 word \<Rightarrow> bytes" where
  "put_uint32 w = [ucast w, ucast (drop_bit 8 w), ucast (drop_bit 16 w), ucast (drop_bit 24 w)]"

definition get_uint16 :: "bytes \<Rightarrow> 16 word" where
  "get_uint16 b = ucast (b ! 0) OR push_bit 8 (ucast (b ! 1))"

definition get_uint32 :: "bytes \<Rightarrow> 32 word" where
  "get_uint32 b =
     ucast (b ! 0) OR push_bit 8 (ucast (b ! 1)) OR push_bit 16 (ucast (b ! 2)) OR push_bit 24 (ucast (b ! 3))"

text \<open>The slice \<open>b[i:j]\<close> and copying into a buffer at a position.\<close>

definition byte_slice :: "nat \<Rightarrow> nat \<Rightarrow> 'a list \<Rightarrow> 'a list" where
  "byte_slice i j b = take (j - i) (drop i b)"

definition blit :: "nat \<Rightarrow> 'a list \<Rightarrow> 'a list \<Rightarrow> 'a list" where
  "blit i xs b = take i b @ xs @ drop (i + length xs) b"

section \<open>The writer\<close>

text \<open>
  The underlying writer is a record of operations on a state that is threaded through every
  call; \<open>io_flush\<close> is there if that writer implements \<open>flusher\<close>.
\<close>

record ('s, 'e) io_ops =
  io_write :: "bytes \<Rightarrow> 's \<Rightarrow> 'e option \<times> 's"
  io_flush :: "('s \<Rightarrow> 'e option \<times> 's) option"

datatype 'e jw_error = Stale_Writer | Closed_Writer | Writer_Failed 'e

record 'e jwriter =
  jw_seq :: nat
  jw_i :: nat
  jw_j :: nat
  jw_written :: nat
  jw_first :: bool
  jw_pending :: bool
  jw_err :: "'e jw_error option"
  jw_buf :: bytes

definition new_writer :: "'e jwriter" where
  "new_writer =
     \<lparr>jw_seq = 0, jw_i = 0, jw_j = 0, jw_written = 0, jw_first = False, jw_pending = False,
      jw_err = None, jw_buf = replicate block_size 0\<rparr>"

text \<open>\<open>None\<close> is the panic on a bad writer state.\<close>

definition fill_header :: "bool \<Rightarrow> 'e jwriter \<Rightarrow> 'e jwriter option" where
  "fill_header is_last w =
     (if jw_i w + header_size > jw_j w \<or> jw_j w > block_size then None
      else let i = jw_i w; j = jw_j w;
               ty = (if is_last then (if jw_first w then full_chunk else last_chunk)
                     else (if jw_first w then first_chunk else middle_chunk));
               b1 = (jw_buf w)[i + 6 := ty];
               b2 = blit i (put_uint32 (crc_value (new_crc (byte_slice (i + 6) j b1)))) b1;
               b3 = blit (i + 4) (put_uint16 (word_of_nat (j - i - header_size))) b2
           in Some (w\<lparr>jw_buf := b3\<rparr>))"

definition write_block ::
  "('s, 'e) io_ops \<Rightarrow> 'e jwriter \<times> 's \<Rightarrow> 'e jwriter \<times> 's" where
  "write_block io ws =
     (let (w, s) = ws; (e, s1) = io_write io (drop (jw_written w) (jw_buf w)) s
      in (w\<lparr>jw_err := map_option Writer_Failed e, jw_i := 0, jw_j := header_size, jw_written := 0\<rparr>, s1))"

definition write_pending ::
  "('s, 'e) io_ops \<Rightarrow> 'e jwriter \<times> 's \<Rightarrow> ('e jwriter \<times> 's) option" where
  "write_pending io ws =
     (let (w, s) = ws
      in if jw_err w \<noteq> None then Some (w, s)
         else case (if jw_pending w then map_option (\<lambda>w. w\<lparr>jw_pending := False\<rparr>) (fill_header True w)
                    else Some w) of
           None \<Rightarrow> None
         | Some w1 \<Rightarrow>
             (let (e, s1) = io_write io (byte_slice (jw_written w1) (jw_j w1) (jw_buf w1)) s
              in Some (w1\<lparr>jw_err := map_option Writer_Failed e, jw_written := jw_j w1\<rparr>, s1)))"

definition jw_close ::
  "('s, 'e) io_ops \<Rightarrow> 'e jwriter \<times> 's \<Rightarrow> ('e jw_error option \<times> 'e jwriter \<times> 's) option" where
  "jw_close io ws =
     (let (w, s) = ws
      in case write_pending io (w\<lparr>jw_seq := jw_seq w + 1\<rparr>, s) of
           None \<Rightarrow> None
         | Some (w1, s1) \<Rightarrow>
             (if jw_err w1 \<noteq> None then Some (jw_err w1, w1, s1)
              else Some (None, w1\<lparr>jw_err := Some Closed_Writer\<rparr>, s1)))"

definition jw_flush ::
  "('s, 'e) io_ops \<Rightarrow> 'e jwriter \<times> 's \<Rightarrow> ('e jw_error option \<times> 'e jwriter \<times> 's) option" where
  "jw_flush io ws =
     (let (w, s) = ws
      in case write_pending io (w\<lparr>jw_seq := jw_seq w + 1\<rparr>, s) of
           None \<Rightarrow> None
         | Some (w1, s1) \<Rightarrow>
             (if jw_err w1 \<noteq> None then Some (jw_err w1, w1, s1)
              else case io_flush io of
                None \<Rightarrow> Some (None, w1, s1)
              | Some fl \<Rightarrow>
                  (let (e, s2) = fl s1; e1 = map_option Writer_Failed e
                   in Some (e1, w1\<lparr>jw_err := e1\<rparr>, s2))))"

text \<open>The answer is the sequence number that the single writer keeps, or the error.\<close>

definition jw_next ::
  "('s, 'e) io_ops \<Rightarrow> 'e jwriter \<times> 's \<Rightarrow> (('e jw_error + nat) \<times> 'e jwriter \<times> 's) option" where
  "jw_next io ws =
     (let (w, s) = ws; w1 = w\<lparr>jw_seq := jw_seq w + 1\<rparr>
      in case jw_err w1 of
           Some e \<Rightarrow> Some (Inl e, w1, s)
         | None \<Rightarrow>
             (case (if jw_pending w1 then fill_header True w1 else Some w1) of
                None \<Rightarrow> None
              | Some w2 \<Rightarrow>
                  (let w3 = w2\<lparr>jw_i := jw_j w2, jw_j := jw_j w2 + header_size\<rparr>;
                       (w4, s4) =
                         (if jw_j w3 > block_size
                          then write_block io
                                 (w3\<lparr>jw_buf := take (jw_i w3) (jw_buf w3) @
                                       replicate (block_size - jw_i w3) 0\<rparr>, s)
                          else (w3, s))
                   in case jw_err w4 of
                        Some e \<Rightarrow> Some (Inl e, w4, s4)
                      | None \<Rightarrow> Some (Inr (jw_seq w4), w4\<lparr>jw_first := True, jw_pending := True\<rparr>, s4))))"

lemma write_block_pos: "write_block io (w, s) = (w1, s1) \<Longrightarrow> jw_j w1 = header_size"
  by (auto simp: write_block_def split: prod.splits)

text \<open>
  The loop of \<open>Write\<close>. A position beyond the buffer makes the slice expression
  \<open>w.buf[w.j:]\<close> panic.
\<close>

function (sequential) jw_write_loop ::
  "('s, 'e) io_ops \<Rightarrow> bytes \<Rightarrow> 'e jwriter \<times> 's \<Rightarrow> ('e jw_error option \<times> 'e jwriter \<times> 's) option" where
  "jw_write_loop io p (w, s) =
     (if p = [] then Some (None, w, s)
      else case (if jw_j w = block_size
                 then map_option (\<lambda>w1. write_block io (w1, s)) (fill_header False w)
                 else Some (w, s)) of
        None \<Rightarrow> None
      | Some (w1, s1) \<Rightarrow>
          (if jw_j w = block_size \<and> jw_err w1 \<noteq> None then Some (jw_err w1, w1, s1)
           else let w2 = (if jw_j w = block_size then w1\<lparr>jw_first := False\<rparr> else w1)
                in if jw_j w2 > block_size then None
                   else let n = min (length p) (block_size - jw_j w2)
                        in jw_write_loop io (drop n p)
                             (w2\<lparr>jw_buf := blit (jw_j w2) (take n p) (jw_buf w2), jw_j := jw_j w2 + n\<rparr>, s1)))"
  by pat_completeness auto

termination
  by (relation "measure (\<lambda>(io, p, ws). length p)")
    (auto simp: block_size_def header_size_def min_def dest: write_block_pos split: if_splits)

declare jw_write_loop.simps [simp del]

definition jw_write ::
  "('s, 'e) io_ops \<Rightarrow> nat \<Rightarrow> bytes \<Rightarrow> 'e jwriter \<times> 's \<Rightarrow> ('e jw_error option \<times> 'e jwriter \<times> 's) option" where
  "jw_write io seq p ws =
     (let (w, s) = ws
      in if jw_seq w \<noteq> seq then Some (Some Stale_Writer, w, s)
         else if jw_err w \<noteq> None then Some (jw_err w, w, s)
         else jw_write_loop io p (w, s))"

end
