(* ===== verification/Journal_Reader.thy ===== *)
theory Journal_Reader
  imports Journal
begin

text \<open>
  The reader of the journal format (\<open>goleveldb/leveldb/journal\<close>): \<open>nextChunk\<close>, \<open>Next\<close>,
  the single reader, and \<open>ioutil.ReadAll\<close> on it. The dropper of the code is nil here, as
  the persister passes it.
\<close>

section \<open>State\<close>

text \<open>
  The underlying \<open>io.Reader\<close> is the bytes it still delivers, and the error it ends with,
  if not with \<open>EOF\<close>. Only the valid part of the buffer is kept: \<open>n\<close> of the code is its
  length.
\<close>

datatype 'e jr_error = Jr_EOF | Jr_Corrupted nat string | Jr_Failed 'e | Jr_Unexpected_EOF | Stale_Reader

record 'e jreader =
  jr_rest :: bytes
  jr_end :: "'e option"
  jr_strict :: bool
  jr_checksum :: bool
  jr_seq :: nat
  jr_i :: nat
  jr_j :: nat
  jr_last :: bool
  jr_err :: "'e jr_error option"
  jr_buf :: bytes

definition new_reader :: "bytes \<times> 'e option \<Rightarrow> bool \<Rightarrow> bool \<Rightarrow> 'e jreader" where
  "new_reader r strict checksum =
     \<lparr>jr_rest = fst r, jr_end = snd r, jr_strict = strict, jr_checksum = checksum, jr_seq = 0,
      jr_i = 0, jr_j = 0, jr_last = True, jr_err = None, jr_buf = []\<rparr>"

datatype 'e chunk_result = Chunk_Ok | Chunk_Skip | Chunk_Err "'e jr_error"

definition corrupt :: "nat \<Rightarrow> string \<Rightarrow> bool \<Rightarrow> 'e jreader \<Rightarrow> 'e chunk_result \<times> 'e jreader" where
  "corrupt n reason skip r =
     (if jr_strict r \<and> \<not> skip
      then (Chunk_Err (Jr_Corrupted n reason), r\<lparr>jr_err := Some (Jr_Corrupted n reason)\<rparr>)
      else (Chunk_Skip, r))"

definition drop_block :: "'e jreader \<Rightarrow> 'e jreader" where
  "drop_block r = r\<lparr>jr_i := length (jr_buf r), jr_j := length (jr_buf r)\<rparr>"

text \<open>The part of \<open>nextChunk\<close> for a header in the buffer.\<close>

definition parse_chunk :: "bool \<Rightarrow> 'e jreader \<Rightarrow> 'e chunk_result \<times> 'e jreader" where
  "parse_chunk first r =
     (let n = length (jr_buf r); h = drop (jr_j r) (jr_buf r);
          checksum = get_uint32 (take 4 h); len = get_uint16 (take 2 (drop 4 h)); ty = h ! 6;
          unproc = n - jr_j r;
          i = jr_j r + header_size; j = jr_j r + header_size + unat len
      in if checksum = 0 \<and> len = 0 \<and> ty = 0 then corrupt unproc ''zero header'' False (drop_block r)
         else if ty < full_chunk \<or> last_chunk < ty
         then corrupt unproc ''invalid chunk type'' False (drop_block r)
         else if n < j then corrupt unproc ''chunk length overflows block'' False (drop_block r)
         else if jr_checksum r \<and> checksum \<noteq> crc_value (new_crc (byte_slice (i - 1) j (jr_buf r)))
         then corrupt unproc ''checksum mismatch'' False (drop_block r)
         else if first \<and> ty \<noteq> full_chunk \<and> ty \<noteq> first_chunk
         then corrupt (j - i + header_size) ''orphan chunk'' True (r\<lparr>jr_i := j, jr_j := j\<rparr>)
         else (Chunk_Ok, r\<lparr>jr_i := i, jr_j := j, jr_last := (ty = full_chunk \<or> ty = last_chunk)\<rparr>))"

definition missing_or_eof :: "bool \<Rightarrow> 'e jreader \<Rightarrow> 'e chunk_result \<times> 'e jreader" where
  "missing_or_eof first r =
     (if \<not> first then corrupt 0 ''missing chunk part'' False r
      else (Chunk_Err Jr_EOF, r\<lparr>jr_err := Some Jr_EOF\<rparr>))"

definition refill :: "'e jreader \<Rightarrow> 'e jreader" where
  "refill r =
     r\<lparr>jr_rest := drop block_size (jr_rest r), jr_buf := take block_size (jr_rest r),
       jr_i := 0, jr_j := 0\<rparr>"

text \<open>
  \<open>io.ReadFull\<close> into a block: with fewer bytes than a block left, an error of the
  underlying reader is returned and the bytes are lost.
\<close>

function next_chunk :: "bool \<Rightarrow> 'e jreader \<Rightarrow> 'e chunk_result \<times> 'e jreader" where
  "next_chunk first r =
     (if jr_j r + header_size \<le> length (jr_buf r) then parse_chunk first r
      else if length (jr_buf r) < block_size \<and> 0 < length (jr_buf r) then missing_or_eof first r
      else if length (jr_rest r) < block_size \<and> jr_end r \<noteq> None
      then (Chunk_Err (Jr_Failed (the (jr_end r))), r\<lparr>jr_rest := []\<rparr>)
      else if jr_rest r = [] then missing_or_eof first r
      else next_chunk first (refill r))"
  by pat_completeness auto

termination
  by (relation "measure (\<lambda>(first, r). length (jr_rest r))") (auto simp: block_size_def refill_def)

declare next_chunk.simps [simp del]

text \<open>What is left to read; every chunk taken or skipped makes it smaller.\<close>

definition unread :: "'e jreader \<Rightarrow> nat" where
  "unread r = length (jr_rest r) + (length (jr_buf r) - jr_j r)"

lemma unread_simps [simp]:
  "unread (snd (corrupt n s b r)) = unread r"
  "unread (snd (missing_or_eof first r)) = unread r"
  "unread (drop_block r) = length (jr_rest r)"
  by (auto simp: corrupt_def missing_or_eof_def drop_block_def unread_def)

lemma unread_refill: "unread (refill r) = length (jr_rest r)"
  by (simp add: unread_def refill_def)

lemma parse_chunk_unread:
  assumes "jr_j r + header_size \<le> length (jr_buf r)"
  shows "unread (snd (parse_chunk first r)) < unread r"
proof -
  have "length (jr_rest r) < unread r" using assms by (simp add: unread_def header_size_def)
  moreover have "unread (r\<lparr>jr_i := i, jr_j := jr_j r + header_size + k\<rparr>) < unread r"
    "unread (r\<lparr>jr_i := i, jr_j := jr_j r + header_size + k, jr_last := l\<rparr>) < unread r" for i k l
    using assms by (simp_all add: unread_def header_size_def)
  ultimately show ?thesis by (simp add: parse_chunk_def Let_def)
qed

lemma next_chunk_cases:
  obtains (parse) "jr_j r + header_size \<le> length (jr_buf r)" "next_chunk first r = parse_chunk first r"
  | (missing) "jr_j r + header_size > length (jr_buf r)" "next_chunk first r = missing_or_eof first r"
  | (failed) e where "jr_end r = Some e" "next_chunk first r = (Chunk_Err (Jr_Failed e), r\<lparr>jr_rest := []\<rparr>)"
  | (refill) "jr_j r + header_size > length (jr_buf r)" "jr_rest r \<noteq> []"
      "next_chunk first r = next_chunk first (refill r)"
proof (cases "jr_j r + header_size \<le> length (jr_buf r)")
  case True
  then show ?thesis using parse by (simp add: next_chunk.simps [of first r])
next
  case False
  consider "length (jr_buf r) < block_size \<and> 0 < length (jr_buf r) \<or> jr_rest r = [] \<and> jr_end r = None"
    | e where "\<not> (length (jr_buf r) < block_size \<and> 0 < length (jr_buf r))" "length (jr_rest r) < block_size" "jr_end r = Some e"
    | "\<not> (length (jr_buf r) < block_size \<and> 0 < length (jr_buf r))" "\<not> (length (jr_rest r) < block_size \<and> jr_end r \<noteq> None)"
      "jr_rest r \<noteq> []"
    by (fastforce simp: block_size_def)
  then show ?thesis
  proof cases
    case 1
    then have "next_chunk first r = missing_or_eof first r"
      using False by (subst next_chunk.simps) auto
    with missing False show ?thesis by simp
  next
    case (2 e)
    then have "next_chunk first r = (Chunk_Err (Jr_Failed e), r\<lparr>jr_rest := []\<rparr>)"
      using False by (subst next_chunk.simps) auto
    with failed 2 show ?thesis by blast
  next
    case 3
    then have "next_chunk first r = next_chunk first (Journal_Reader.refill r)"
      using False by (subst next_chunk.simps) auto
    with refill 3 False show ?thesis by simp
  qed
qed

lemma next_chunk_unread: "unread (snd (next_chunk first r)) \<le> unread r"
proof (induction "length (jr_rest r)" arbitrary: r rule: less_induct)
  case less
  show ?case
  proof (cases rule: next_chunk_cases [of r first])
    case parse
    then show ?thesis using parse_chunk_unread [of r first] by simp
  next
    case refill
    have "length (jr_rest (Journal_Reader.refill r)) < length (jr_rest r)"
      using refill(2) by (simp add: refill_def block_size_def)
    from less [OF this] show ?thesis using refill(3) by (simp add: unread_refill) (simp add: unread_def)
  next
    case missing
    then show ?thesis by simp
  next
    case failed
    then show ?thesis by (simp add: unread_def)
  qed
qed

lemma parse_chunk_ok:
  assumes "parse_chunk first r = (Chunk_Ok, r')"
  shows "unread r' + (jr_j r' - jr_i r') + header_size = unread r" "jr_i r' \<le> jr_j r'"
    "jr_j r' \<le> length (jr_buf r')"
  using assms
  by (auto simp: parse_chunk_def Let_def unread_def corrupt_def header_size_def split: if_splits)

lemma next_chunk_progress:
  "next_chunk first r = (res, r') \<Longrightarrow>
   (res = Chunk_Ok \<longrightarrow> unread r' + (jr_j r' - jr_i r') < unread r \<and> jr_i r' \<le> jr_j r') \<and>
   (first \<and> res = Chunk_Skip \<longrightarrow> unread r' < unread r)"
proof (induction "length (jr_rest r)" arbitrary: r rule: less_induct)
  case less
  show ?case
  proof (cases rule: next_chunk_cases [of r first])
    case parse
    then have p: "parse_chunk first r = (res, r')" using less.prems by simp
    then have "unread r' < unread r" using parse_chunk_unread [OF parse(1), of first] by simp
    moreover have "res = Chunk_Ok \<Longrightarrow> unread r' + (jr_j r' - jr_i r') < unread r \<and> jr_i r' \<le> jr_j r'"
      using parse_chunk_ok [of first r r'] p by (auto simp: header_size_def)
    ultimately show ?thesis by blast
  next
    case refill
    have "length (jr_rest (Journal_Reader.refill r)) < length (jr_rest r)"
      using refill(2) by (simp add: refill_def block_size_def)
    from less(1) [OF this, unfolded unread_refill] less.prems [unfolded refill(3)]
    have "(res = Chunk_Ok \<longrightarrow> unread r' + (jr_j r' - jr_i r') < length (jr_rest r) \<and> jr_i r' \<le> jr_j r') \<and>
      (first \<and> res = Chunk_Skip \<longrightarrow> unread r' < length (jr_rest r))" by blast
    moreover have "length (jr_rest r) \<le> unread r" by (simp add: unread_def)
    ultimately show ?thesis by auto
  qed (use less.prems in \<open>auto simp: missing_or_eof_def corrupt_def split: if_splits\<close>)
qed

section \<open>Records\<close>

text \<open>\<open>Next\<close>: the sequence number that the single reader keeps.\<close>

function next_loop_chunks :: "'e jreader \<Rightarrow> 'e jr_error option \<times> 'e jreader" where
  "next_loop_chunks r =
     (case next_chunk True r of
        (Chunk_Ok, r1) \<Rightarrow> (None, r1)
      | (Chunk_Skip, r1) \<Rightarrow> next_loop_chunks r1
      | (Chunk_Err e, r1) \<Rightarrow> (Some e, r1))"
  by pat_completeness auto

termination
  by (relation "measure unread") (auto dest: next_chunk_progress [OF sym])

declare next_loop_chunks.simps [simp del]

definition jr_next :: "'e jreader \<Rightarrow> ('e jr_error + nat) \<times> 'e jreader" where
  "jr_next r =
     (let r1 = r\<lparr>jr_seq := jr_seq r + 1\<rparr>
      in case jr_err r1 of
           Some e \<Rightarrow> (Inl e, r1)
         | None \<Rightarrow>
             (case next_loop_chunks (r1\<lparr>jr_i := jr_j r1\<rparr>) of
                (Some e, r2) \<Rightarrow> (Inl e, r2)
              | (None, r2) \<Rightarrow> (Inr (jr_seq r2), r2)))"

text \<open>
  The single reader is its sequence number and its error. Its loop skips empty chunks; the
  answer is what \<open>Read\<close> returns, the error of the single reader, and the reader.
\<close>

definition chunk_error :: "'e chunk_result \<Rightarrow> 'e jr_error" where
  "chunk_error c = (case c of Chunk_Err e \<Rightarrow> e | _ \<Rightarrow> Jr_Unexpected_EOF)"

function skip_empty :: "'e jreader \<Rightarrow> 'e jr_error option \<times> 'e jr_error option \<times> 'e jreader" where
  "skip_empty r =
     (if jr_i r \<noteq> jr_j r then (None, None, r)
      else if jr_last r then (Some Jr_EOF, None, r)
      else case next_chunk False r of
        (Chunk_Ok, r1) \<Rightarrow> skip_empty r1
      | (c, r1) \<Rightarrow> (Some (chunk_error c), Some (chunk_error c), r1))"
  by pat_completeness auto

termination
  by (relation "measure unread") (auto dest: next_chunk_progress [OF sym])

declare skip_empty.simps [simp del]

text \<open>
  \<open>Read\<close> into a buffer of \<open>k\<close> bytes. \<open>None\<close> is the panic of the slice \<open>buf[i:j]\<close>
  for positions out of order or beyond the buffer.
\<close>

definition single_read ::
  "nat \<Rightarrow> nat \<Rightarrow> 'e jr_error option \<times> 'e jreader \<Rightarrow>
   (bytes \<times> 'e jr_error option \<times> 'e jr_error option \<times> 'e jreader) option" where
  "single_read seq k xr =
     (let (x, r) = xr
      in if jr_seq r \<noteq> seq then Some ([], Some Stale_Reader, x, r)
         else if x \<noteq> None then Some ([], x, x, r)
         else if jr_err r \<noteq> None then Some ([], jr_err r, x, r)
         else case skip_empty r of
           (Some e, x1, r1) \<Rightarrow> Some ([], Some e, x1, r1)
         | (None, x1, r1) \<Rightarrow>
             (if jr_j r1 < jr_i r1 \<or> length (jr_buf r1) < jr_j r1 then None
              else let b = take k (byte_slice (jr_i r1) (jr_j r1) (jr_buf r1))
                   in Some (b, None, x1, r1\<lparr>jr_i := jr_i r1 + length b\<rparr>)))"

lemma skip_empty_progress:
  "skip_empty r = (e, x, r1) \<Longrightarrow> jr_i r \<le> jr_j r \<Longrightarrow>
   unread r1 \<le> unread r \<and>
   (e = None \<longrightarrow> unread r1 + (jr_j r1 - jr_i r1) \<le> unread r + (jr_j r - jr_i r) \<and> jr_i r1 < jr_j r1)"
proof (induction r rule: skip_empty.induct)
  case (1 r)
  show ?case
  proof (cases "jr_i r \<noteq> jr_j r \<or> jr_last r")
    case True
    then show ?thesis using 1(2,3) by (auto simp: skip_empty.simps [of r] split: if_splits)
  next
    case False
    obtain c r2 where n: "next_chunk False r = (c, r2)" by fastforce
    note p = next_chunk_progress [OF n] and u = next_chunk_unread [of False r]
    show ?thesis
    proof (cases c)
      case Chunk_Ok
      with False n 1(2) have "skip_empty r2 = (e, x, r1)" by (simp add: skip_empty.simps [of r])
      with 1(1) [of c r2] False n Chunk_Ok p show ?thesis by auto
    next
      case Chunk_Skip
      with False n 1(2) u show ?thesis by (auto simp: skip_empty.simps [of r])
    next
      case (Chunk_Err e)
      with False n 1(2) u show ?thesis by (auto simp: skip_empty.simps [of r])
    qed
  qed
qed

lemma single_read_progress:
  assumes "single_read seq k (x, r) = Some (b, e, x1, r1)"
  shows "unread r1 \<le> unread r"
    "e = None \<Longrightarrow> 0 < k \<Longrightarrow> unread r1 + (jr_j r1 - jr_i r1) < unread r + (jr_j r - jr_i r)"
proof -
  have *: "unread r1 \<le> unread r \<and>
    (e = None \<and> 0 < k \<longrightarrow> unread r1 + (jr_j r1 - jr_i r1) < unread r + (jr_j r - jr_i r))"
  proof (cases "jr_seq r \<noteq> seq \<or> x \<noteq> None \<or> jr_err r \<noteq> None")
    case True
    then show ?thesis using assms by (auto simp: single_read_def split: if_splits)
  next
    case False
    obtain e2 x2 r2 where s: "skip_empty r = (e2, x2, r2)" by (cases "skip_empty r")
    have "jr_i r \<le> jr_j r"
    proof (rule ccontr)
      assume "\<not> jr_i r \<le> jr_j r"
      then have "skip_empty r = (None, None, r)" by (simp add: skip_empty.simps [of r])
      with \<open>\<not> jr_i r \<le> jr_j r\<close> False assms show False by (simp add: single_read_def)
    qed
    from skip_empty_progress [OF s this] show ?thesis
    proof (cases e2)
      case None
      then have "jr_i r2 < jr_j r2"
        and p: "unread r2 + (jr_j r2 - jr_i r2) \<le> unread r + (jr_j r - jr_i r)" "unread r2 \<le> unread r"
        using skip_empty_progress [OF s \<open>jr_i r \<le> jr_j r\<close>] by auto
      then have "b = take k (byte_slice (jr_i r2) (jr_j r2) (jr_buf r2))" "e = None"
        "r1 = r2\<lparr>jr_i := jr_i r2 + length b\<rparr>"
        using False assms s None by (auto simp: single_read_def Let_def split: if_splits)
      moreover from this have "unread r1 = unread r2" by (simp add: unread_def)
      moreover have "jr_j r2 \<le> length (jr_buf r2)"
        using False assms s None by (auto simp: single_read_def Let_def split: if_splits)
      moreover from this have "0 < k \<Longrightarrow> 0 < length b"
        using \<open>jr_i r2 < jr_j r2\<close> calculation(1) by (simp add: byte_slice_def)
      moreover have "jr_i r1 = jr_i r2 + length b" "jr_j r1 = jr_j r2"
        by (simp_all only: calculation(3)) simp_all
      ultimately show ?thesis using p \<open>jr_i r2 < jr_j r2\<close> by linarith
    next
      case (Some e')
      with False assms s skip_empty_progress [OF s \<open>jr_i r \<le> jr_j r\<close>] show ?thesis
        by (auto simp: single_read_def)
    qed
  qed
  then show "unread r1 \<le> unread r"
    "e = None \<Longrightarrow> 0 < k \<Longrightarrow> unread r1 + (jr_j r1 - jr_i r1) < unread r + (jr_j r - jr_i r)" by auto
qed

text \<open>
  \<open>ioutil.ReadAll\<close>: it reads until an error; the buffer of the \<open>k\<close>-th call has
  \<open>sizes k + 1\<close> bytes, and \<open>EOF\<close> is not an error of its own.
\<close>

function read_all ::
  "(nat \<Rightarrow> nat) \<Rightarrow> nat \<Rightarrow> nat \<Rightarrow> bytes \<Rightarrow> 'e jr_error option \<times> 'e jreader \<Rightarrow>
   ((bytes \<times> 'e jr_error option) \<times> 'e jreader) option" where
  "read_all sizes k seq acc (x, r) =
     (case single_read seq (Suc (sizes k)) (x, r) of
        None \<Rightarrow> None
      | Some (b, None, x1, r1) \<Rightarrow> read_all sizes (Suc k) seq (acc @ b) (x1, r1)
      | Some (b, Some e, x1, r1) \<Rightarrow> Some ((acc @ b, if e = Jr_EOF then None else Some e), r1))"
  by pat_completeness auto

termination
  by (relation "measure (\<lambda>(sizes, k, seq, acc, x, r). unread r + (jr_j r - jr_i r))")
    (auto dest: single_read_progress(2) [OF _ refl])

declare read_all.simps [simp del]

end
