(* ===== verification/Journal_Format.thy ===== *)
theory Journal_Format
  imports Journal_Reader
begin

text \<open>
  What the reader makes of a stream that is laid out as chunks in blocks, complete or cut
  off at any byte: the chunks one after the other, and the records they make up.
\<close>

section \<open>Chunks\<close>

type_synonym chunk = "8 word \<times> bytes"

fun enc_chunk :: "chunk \<Rightarrow> bytes" where
  "enc_chunk (ty, p) =
     put_uint32 (crc_value (new_crc (ty # p))) @ put_uint16 (word_of_nat (length p)) @ ty # p"

definition enc_chunks :: "chunk list \<Rightarrow> bytes" where
  "enc_chunks cs = concat (map enc_chunk cs)"

fun chunk_ok :: "chunk \<Rightarrow> bool" where
  "chunk_ok (ty, p) \<longleftrightarrow>
     ty \<in> {full_chunk, first_chunk, middle_chunk, last_chunk} \<and> length p + header_size \<le> block_size"

lemma length_enc_chunk [simp]: "length (enc_chunk (ty, p)) = header_size + length p"
  by (simp add: put_uint32_def put_uint16_def header_size_def)

declare enc_chunk.simps [simp del]

lemma encs_simps [simp]:
  "enc_chunks [] = []" "enc_chunks (c # cs) = enc_chunk c @ enc_chunks cs" "enc_chunks (cs @ ds) = enc_chunks cs @ enc_chunks ds"
  by (simp_all add: enc_chunks_def)

lemma get_put_uint16: "get_uint16 (put_uint16 w) = w"
  by (intro bit_word_eqI)
    (auto simp: get_uint16_def put_uint16_def bit_simps not_less)

lemma get_put_uint32: "get_uint32 (put_uint32 w) = w"
proof (rule bit_word_eqI)
  fix n :: nat
  assume "n < LENGTH(32)"
  then consider "n < 8" | "8 \<le> n" "n < 16" | "16 \<le> n" "n < 24" | "24 \<le> n" "n < 32" by fastforce
  then show "bit (get_uint32 (put_uint32 w)) n = bit w n"
    by cases (auto simp: get_uint32_def put_uint32_def bit_simps)
qed

lemma chunk_types:
  "ty \<in> {full_chunk, first_chunk, middle_chunk, last_chunk} \<Longrightarrow>
   ty \<noteq> 0 \<and> \<not> ty < full_chunk \<and> \<not> last_chunk < ty"
  by (auto simp: full_chunk_def first_chunk_def middle_chunk_def last_chunk_def)

text \<open>The parts of an encoded chunk, whatever follows.\<close>

lemma enc_chunk_parts:
  assumes "chunk_ok (ty, p)"
  shows "take 4 (enc_chunk (ty, p) @ post) = put_uint32 (crc_value (new_crc (ty # p)))"
    "take 2 (drop 4 (enc_chunk (ty, p) @ post)) = put_uint16 (word_of_nat (length p))"
    "(enc_chunk (ty, p) @ post) ! 6 = ty"
    "drop 6 (enc_chunk (ty, p) @ post) = ty # p @ post"
    "unat (word_of_nat (length p) :: 16 word) = length p"
proof -
  have "length p < 2 ^ 16" using assms by (simp add: block_size_def)
  then show "unat (word_of_nat (length p) :: 16 word) = length p"
    by (simp add: unat_of_nat take_bit_nat_eq_self)
qed (simp_all add: enc_chunk.simps put_uint32_def put_uint16_def)

section \<open>Parsing one chunk\<close>

lemma parse_enc_chunk:
  assumes "drop (jr_j r) (jr_buf r) = enc_chunk (ty, p) @ post" and "chunk_ok (ty, p)"
  shows "parse_chunk first r =
    (if first \<and> ty \<noteq> full_chunk \<and> ty \<noteq> first_chunk
     then (Chunk_Skip, r\<lparr>jr_i := jr_j r + header_size + length p, jr_j := jr_j r + header_size + length p\<rparr>)
     else (Chunk_Ok, r\<lparr>jr_i := jr_j r + header_size, jr_j := jr_j r + header_size + length p,
                      jr_last := (ty = full_chunk \<or> ty = last_chunk)\<rparr>))"
proof -
  have l: "length (jr_buf r) - jr_j r = header_size + length p + length post"
    using arg_cong [OF assms(1), of length] by simp
  then have n: "\<not> length (jr_buf r) < jr_j r + header_size + length p" by (simp add: header_size_def)
  have "drop (jr_j r + 6) (jr_buf r) = ty # p @ post"
    using arg_cong [OF assms(1), of "drop 6"] enc_chunk_parts(4) [OF assms(2), of post]
    by (simp add: add.commute)
  then have s: "byte_slice (jr_j r + header_size - 1) (jr_j r + header_size + length p) (jr_buf r) = ty # p"
    by (simp add: byte_slice_def header_size_def add.commute)
  have ty: "ty \<noteq> 0 \<and> \<not> ty < full_chunk \<and> \<not> last_chunk < ty"
    using assms(2) chunk_types [of ty] by simp
  show ?thesis
    unfolding parse_chunk_def Let_def assms(1) enc_chunk_parts [OF assms(2)] get_put_uint16 get_put_uint32 s
    using n ty by (simp add: corrupt_def)
qed

text \<open>A chunk cut off behind its header.\<close>

lemma parse_torn_chunk:
  assumes "drop (jr_j r) (jr_buf r) = t" and "t @ u = enc_chunk (ty, p)" and "u \<noteq> []"
    and "header_size \<le> length t" and "chunk_ok (ty, p)" and "\<not> jr_strict r"
  shows "parse_chunk first r = (Chunk_Skip, drop_block r)"
proof -
  have l: "length (jr_buf r) - jr_j r = length t" "length t < header_size + length p"
    using arg_cong [OF assms(1), of length] arg_cong [OF assms(2), of length] assms(3)
    by (simp_all add: neq_Nil_conv) auto
  then have n: "length (jr_buf r) < jr_j r + header_size + length p" by linarith
  have "6 < length t" using assms(4) by (simp add: header_size_def)
  then have h: "take 4 t = take 4 (t @ u)" "take 2 (drop 4 t) = take 2 (drop 4 (t @ u))" "t ! 6 = (t @ u) ! 6"
    by (simp_all add: nth_append)
  have ty: "ty \<noteq> 0 \<and> \<not> ty < full_chunk \<and> \<not> last_chunk < ty"
    using assms(5) chunk_types [of ty] by simp
  show ?thesis
    unfolding parse_chunk_def Let_def assms(1) h assms(2)
      enc_chunk_parts(1-3) [OF assms(5), of "[]", unfolded append_Nil2] enc_chunk_parts(5) [OF assms(5)]
      get_put_uint16
    using n ty assms(6) by (simp add: corrupt_def drop_block_def)
qed

section \<open>Streams\<close>

text \<open>
  The bytes that may follow the last whole chunk: fewer than a header, or the beginning of a
  chunk.
\<close>

definition torn :: "bytes \<Rightarrow> bool" where
  "torn t \<longleftrightarrow> length t < header_size \<or> (\<exists>ty p u. chunk_ok (ty, p) \<and> t @ u = enc_chunk (ty, p) \<and> u \<noteq> [])"

inductive stream_ok :: "bytes \<Rightarrow> chunk list \<Rightarrow> bool" where
  stream_nil: "stream_ok [] []"
| stream_final: "list_all chunk_ok cs \<Longrightarrow> torn t \<Longrightarrow> length (enc_chunks cs @ t) < block_size \<Longrightarrow>
    enc_chunks cs @ t \<noteq> [] \<Longrightarrow> stream_ok (enc_chunks cs @ t) cs"
| stream_block: "list_all chunk_ok cs \<Longrightarrow> length (enc_chunks cs @ pad) = block_size \<Longrightarrow>
    length pad < header_size \<Longrightarrow> stream_ok s ds \<Longrightarrow> stream_ok (enc_chunks cs @ pad @ s) (cs @ ds)"

text \<open>A reader that still has to deliver exactly the chunks \<open>cs\<close>.\<close>

definition reads_block :: "'e jreader \<Rightarrow> chunk list \<Rightarrow> bytes \<Rightarrow> chunk list \<Rightarrow> bool" where
  "reads_block r cs t ds \<longleftrightarrow>
     list_all chunk_ok cs \<and> drop (jr_j r) (jr_buf r) = enc_chunks cs @ t \<and> jr_j r \<le> length (jr_buf r) \<and>
     (0 < length (jr_buf r) \<and> length (jr_buf r) < block_size \<and> ds = [] \<and> torn t \<or>
      (jr_buf r = [] \<or> length (jr_buf r) = block_size) \<and> length t < header_size \<and> stream_ok (jr_rest r) ds)"

definition reader_clean :: "'e jreader \<Rightarrow> bool" where
  "reader_clean r \<longleftrightarrow> jr_err r = None \<and> jr_end r = None \<and> \<not> jr_strict r"

definition reads :: "'e jreader \<Rightarrow> chunk list \<Rightarrow> bool" where
  "reads r cs \<longleftrightarrow> reader_clean r \<and> (\<exists>cs1 t cs2. cs = cs1 @ cs2 \<and> reads_block r cs1 t cs2)"

lemma readsI: "reader_clean r \<Longrightarrow> reads_block r cs1 t cs2 \<Longrightarrow> reads r (cs1 @ cs2)"
  by (auto simp: reads_def)

lemma reader_clean_simps [simp]:
  "reader_clean (r\<lparr>jr_i := i\<rparr>) = reader_clean r"
  "reader_clean (r\<lparr>jr_j := i\<rparr>) = reader_clean r"
  "reader_clean (r\<lparr>jr_last := l\<rparr>) = reader_clean r"
  "reader_clean (r\<lparr>jr_seq := k\<rparr>) = reader_clean r"
  "reader_clean (drop_block r) = reader_clean r"
  "reader_clean (refill r) = reader_clean r"
  by (simp_all add: reader_clean_def drop_block_def refill_def)

lemma reads_simps [simp]:
  "reads (r\<lparr>jr_i := i\<rparr>) cs = reads r cs"
  "reads (r\<lparr>jr_seq := k\<rparr>) cs = reads r cs"
  by (simp_all add: reads_def reads_block_def)

text \<open>After the last whole chunk of its block, the reader takes the next block.\<close>

lemma stream_refill:
  assumes "stream_ok (jr_rest r) ds" and "jr_rest r \<noteq> []"
  obtains cs1 t cs2 where "ds = cs1 @ cs2" "reads_block (refill r) cs1 t cs2" "ds \<noteq> [] \<Longrightarrow> cs1 \<noteq> []"
  using assms(1)
proof cases
  case stream_nil
  then show ?thesis using assms(2) by simp
next
  case (stream_final t)
  have "reads_block (refill r) ds t []"
    using stream_final assms(2) by (simp add: reads_block_def refill_def)
  with that [of ds "[]" t] show ?thesis by simp
next
  case (stream_block cs pad s ds')
  have "take block_size (jr_rest r) = enc_chunks cs @ pad" "drop block_size (jr_rest r) = s"
    using stream_block(1,4) by simp_all
  then have "reads_block (refill r) cs pad ds'"
    using stream_block by (simp add: reads_block_def refill_def)
  moreover have "cs \<noteq> []"
    using stream_block(4,5) by (auto simp: block_size_def header_size_def)
  ultimately show ?thesis using that stream_block(2) by simp
qed

lemma stream_ok_empty: "stream_ok [] cs \<Longrightarrow> cs = []"
proof (induction "[] :: bytes" cs rule: stream_ok.induct)
  case (stream_block cs pad s ds)
  then show ?case by (simp add: block_size_def)
qed simp_all

text \<open>What one chunk does to the reader: it is delivered, or skipped if it is an orphan.\<close>

definition delivers :: "bool \<Rightarrow> chunk \<Rightarrow> 'e jreader \<Rightarrow> 'e chunk_result \<times> 'e jreader \<Rightarrow> bool" where
  "delivers first c r res \<longleftrightarrow>
     (case c of (ty, p) \<Rightarrow>
        (if first \<and> ty \<noteq> full_chunk \<and> ty \<noteq> first_chunk then fst res = Chunk_Skip
         else fst res = Chunk_Ok \<and> jr_i (snd res) \<le> jr_j (snd res) \<and>
              jr_j (snd res) \<le> length (jr_buf (snd res)) \<and>
              byte_slice (jr_i (snd res)) (jr_j (snd res)) (jr_buf (snd res)) = p \<and>
              jr_last (snd res) = (ty = full_chunk \<or> ty = last_chunk)) \<and>
        jr_seq (snd res) = jr_seq r)"

lemma delivers_refill [simp]: "delivers first c (refill r) res = delivers first c r res"
proof -
  have "jr_seq (refill r) = jr_seq r" by (simp add: refill_def)
  then show ?thesis unfolding delivers_def by simp
qed

lemma reads_parse:
  assumes "reader_clean r" and "reads_block r ((ty, p) # cs1) t cs2"
  shows "jr_j r + header_size \<le> length (jr_buf r)" "delivers first (ty, p) r (parse_chunk first r)"
    "reads (snd (parse_chunk first r)) (cs1 @ cs2)"
proof -
  have d: "drop (jr_j r) (jr_buf r) = enc_chunk (ty, p) @ enc_chunks cs1 @ t" and ok: "chunk_ok (ty, p)"
    and j: "jr_j r \<le> length (jr_buf r)"
    using assms(2) by (simp_all add: reads_block_def)
  have l: "length (jr_buf r) - jr_j r = header_size + length p + length (enc_chunks cs1 @ t)"
    using arg_cong [OF d, of length] by simp
  then show "jr_j r + header_size \<le> length (jr_buf r)" using j by (simp add: header_size_def)
  let ?j = "jr_j r + header_size + length p"
  have j': "?j \<le> length (jr_buf r)" using l j by linarith
  have "drop ?j (jr_buf r) = drop (header_size + length p) (drop (jr_j r) (jr_buf r))"
    by (simp add: ac_simps)
  also have "\<dots> = enc_chunks cs1 @ t" unfolding d by simp
  finally have d': "drop ?j (jr_buf r) = enc_chunks cs1 @ t" .
  have "byte_slice (jr_j r + header_size) ?j (jr_buf r) = take (length p) (drop header_size (drop (jr_j r) (jr_buf r)))"
    by (simp add: byte_slice_def add.commute)
  also have "\<dots> = p"
    unfolding d by (simp add: enc_chunk.simps put_uint16_def put_uint32_def header_size_def)
  finally have s: "byte_slice (jr_j r + header_size) ?j (jr_buf r) = p" .
  note pc = parse_enc_chunk [OF d ok, of first]
  show "delivers first (ty, p) r (parse_chunk first r)"
    using j' s by (simp add: delivers_def pc)
  have b: "reads_block (r\<lparr>jr_i := i, jr_j := ?j\<rparr>) cs1 t cs2" "reads_block (r\<lparr>jr_i := i, jr_j := ?j, jr_last := l\<rparr>) cs1 t cs2" for i l
    using assms(2) d' j' by (simp_all add: reads_block_def)
  show "reads (snd (parse_chunk first r)) (cs1 @ cs2)"
    using readsI [OF _ b(1)] readsI [OF _ b(2)] assms(1) by (simp add: pc)
qed

lemma next_chunk_refill:
  assumes "reader_clean r" and "length (jr_buf r) < jr_j r + header_size"
    and "jr_buf r = [] \<or> length (jr_buf r) = block_size" and "jr_rest r \<noteq> []"
  shows "next_chunk first r = next_chunk first (refill r)"
  using assms by (subst next_chunk.simps) (auto simp: reader_clean_def)

lemma reads_next:
  assumes "reads r ((ty, p) # cs)"
  obtains r' where "reads r' cs" "delivers first (ty, p) r (next_chunk first r)" "snd (next_chunk first r) = r'"
proof -
  obtain cs1 t cs2 where c: "(ty, p) # cs = cs1 @ cs2" and b: "reads_block r cs1 t cs2"
    and cl: "reader_clean r"
    using assms by (auto simp: reads_def)
  show ?thesis
  proof (cases cs1)
    case (Cons c1 cs1')
    with b c have b': "reads_block r ((ty, p) # cs1') t cs2" by simp
    note P = reads_parse [OF cl b']
    have "next_chunk first r = parse_chunk first r" using P(1) by (simp add: next_chunk.simps)
    with P(2,3) c Cons that show ?thesis by (metis append_Cons list.inject)
  next
    case Nil
    with b c have n: "length (jr_buf r) < jr_j r + header_size"
      "jr_buf r = [] \<or> length (jr_buf r) = block_size" "stream_ok (jr_rest r) ((ty, p) # cs)"
      using arg_cong [of "drop (jr_j r) (jr_buf r)" t length]
      by (auto simp: reads_block_def)
    from n(3) have ne: "jr_rest r \<noteq> []" using stream_ok_empty by fastforce
    obtain ds1 t' ds2 where d: "(ty, p) # cs = ds1 @ ds2" "reads_block (refill r) ds1 t' ds2" "ds1 \<noteq> []"
      by (rule stream_refill [OF n(3) ne]) blast
    then obtain ds1' where ds1: "ds1 = (ty, p) # ds1'" "cs = ds1' @ ds2" by (cases ds1) auto
    have clr: "reader_clean (refill r)" using cl by simp
    note P = reads_parse [OF clr d(2) [unfolded ds1(1)]]
    have "next_chunk first r = parse_chunk first (refill r)"
      using P(1) next_chunk_refill [OF cl n(1,2) ne, of first] by (simp add: next_chunk.simps)
    moreover have "delivers first (ty, p) r (parse_chunk first (refill r))"
      using P(2) [of first] by simp
    ultimately show ?thesis using that P(3) [of first] ds1(2) by simp
  qed
qed

text \<open>
  At the end of the chunks a reader finds \<open>EOF\<close>, possibly after a torn chunk, or, inside
  a record, that a part is missing.
\<close>

lemma reads_Nil_parse:
  assumes "reader_clean r" and "reads_block r [] t []" and "jr_j r + header_size \<le> length (jr_buf r)"
  shows "next_chunk first r = (Chunk_Skip, drop_block r)" "reads (drop_block r) []"
proof -
  have t: "drop (jr_j r) (jr_buf r) = t" and lt: "header_size \<le> length t"
    using assms(2,3) by (auto simp: reads_block_def)
  then have "torn t" and n: "0 < length (jr_buf r) \<and> length (jr_buf r) < block_size"
    using assms(2) by (auto simp: reads_block_def)
  with lt obtain ty p u where u: "chunk_ok (ty, p)" "t @ u = enc_chunk (ty, p)" "u \<noteq> []"
    by (auto simp: torn_def)
  show "next_chunk first r = (Chunk_Skip, drop_block r)"
    using parse_torn_chunk [OF t u(2,3) lt u(1), of first] assms(1,3)
    by (simp add: next_chunk.simps reader_clean_def)
  have "reads_block (drop_block r) [] [] []"
    using n by (simp add: reads_block_def drop_block_def torn_def header_size_def)
  from readsI [OF _ this] show "reads (drop_block r) []" using assms(1) by simp
qed

lemma reads_Nil:
  assumes "reads r []"
  obtains (skip) "next_chunk first r = (Chunk_Skip, drop_block r)" "reads (drop_block r) []"
      "jr_j r + header_size \<le> length (jr_buf r)"
  | (skip_refill) "next_chunk first r = (Chunk_Skip, drop_block (refill r))" "reads (drop_block (refill r)) []"
      "jr_rest r \<noteq> []"
  | (end_here) "next_chunk first r = missing_or_eof first r"
  | (end_refill) "next_chunk first r = missing_or_eof first (refill r)" "reads (refill r) []"
proof -
  obtain t where b: "reads_block r [] t []" and cl: "reader_clean r"
    using assms by (auto simp: reads_def)
  show ?thesis
  proof (cases "jr_j r + header_size \<le> length (jr_buf r)")
    case True
    with reads_Nil_parse(1) [OF cl b True, of first] reads_Nil_parse(2) [OF cl b True] skip show ?thesis by simp
  next
    case False
    show ?thesis
    proof (cases "0 < length (jr_buf r) \<and> length (jr_buf r) < block_size \<or> jr_rest r = []")
      case True
      then have "next_chunk first r = missing_or_eof first r"
        using False cl by (subst next_chunk.simps) (auto simp: reader_clean_def)
      with end_here show ?thesis by simp
    next
      case ne: False
      then have s: "stream_ok (jr_rest r) []" and e: "jr_buf r = [] \<or> length (jr_buf r) = block_size"
        using b by (auto simp: reads_block_def)
      have n: "next_chunk first r = next_chunk first (refill r)"
        using next_chunk_refill [OF cl _ e, of first] False ne by simp
      obtain t' where b': "reads_block (refill r) [] t' []"
        by (rule stream_refill [OF s]) (use ne in auto)
      have clr: "reader_clean (refill r)" using cl by simp
      show ?thesis
      proof (cases "jr_j (refill r) + header_size \<le> length (jr_buf (refill r))")
        case True
        with reads_Nil_parse(1) [OF clr b' True, of first] reads_Nil_parse(2) [OF clr b' True] n ne skip_refill show ?thesis by simp
      next
        case False
        moreover have "0 < length (jr_buf (refill r))" "length (jr_buf (refill r)) < block_size"
          using b' ne False by (auto simp: reads_block_def refill_def header_size_def block_size_def)
        ultimately have "next_chunk first (refill r) = missing_or_eof first (refill r)"
          by (subst next_chunk.simps) auto
        with n end_refill readsI [OF clr b'] show ?thesis by simp
      qed
    qed
  qed
qed

end
