(* ===== verification/Journal_Records.thy ===== *)
theory Journal_Records
  imports Journal_Format
begin

text \<open>
  Records as the reader delivers them: \<open>Next\<close> followed by \<open>ReadAll\<close> gives the next record
  of a well-formed stream, and an unexpected end of file for one that is cut off.
\<close>

section \<open>Records as chunks\<close>

definition is_record :: "bytes \<Rightarrow> chunk list \<Rightarrow> bool" where
  "is_record b cs \<longleftrightarrow> cs = [(full_chunk, b)] \<or>
     (\<exists>p ms q. cs = (first_chunk, p) # map (Pair middle_chunk) ms @ [(last_chunk, q)] \<and> b = p @ concat ms @ q)"

inductive is_records :: "bytes list \<Rightarrow> chunk list \<Rightarrow> bool" where
  no_records: "is_records [] []"
| more_records: "is_record b cs \<Longrightarrow> is_records bs ds \<Longrightarrow> is_records (b # bs) (cs @ ds)"

text \<open>The chunks of a record without its last one.\<close>

definition is_open :: "bytes \<Rightarrow> chunk list \<Rightarrow> bool" where
  "is_open b cs \<longleftrightarrow> (\<exists>p ms. cs = (first_chunk, p) # map (Pair middle_chunk) ms \<and> b = p @ concat ms)"

lemma chunk_types_distinct [simp]:
  "full_chunk \<noteq> first_chunk" "full_chunk \<noteq> middle_chunk" "full_chunk \<noteq> last_chunk"
  "first_chunk \<noteq> full_chunk" "first_chunk \<noteq> middle_chunk" "first_chunk \<noteq> last_chunk"
  "middle_chunk \<noteq> full_chunk" "middle_chunk \<noteq> first_chunk" "middle_chunk \<noteq> last_chunk"
  "last_chunk \<noteq> full_chunk" "last_chunk \<noteq> first_chunk" "last_chunk \<noteq> middle_chunk"
  by (simp_all add: full_chunk_def first_chunk_def middle_chunk_def last_chunk_def)

section \<open>Inside a record\<close>

text \<open>
  The reader is inside a record of which it still has to deliver \<open>b\<close>, and behind which the
  chunks \<open>ds\<close> follow; \<open>whole\<close> says that the record is complete.
\<close>

definition inside :: "'e jreader \<Rightarrow> bytes \<Rightarrow> bool \<Rightarrow> chunk list \<Rightarrow> bool" where
  "inside r b whole ds \<longleftrightarrow>
     jr_i r \<le> jr_j r \<and> jr_j r \<le> length (jr_buf r) \<and>
     (let s = byte_slice (jr_i r) (jr_j r) (jr_buf r)
      in if jr_last r then whole \<and> reads r ds \<and> b = s
         else \<exists>ms q. b = s @ concat ms @ q \<and>
           (if whole then reads r (map (Pair middle_chunk) ms @ (last_chunk, q) # ds)
            else q = [] \<and> ds = [] \<and> reads r (map (Pair middle_chunk) ms)))"

lemma insideI:
  assumes "\<not> jr_last r" and "b = byte_slice (jr_i r) (jr_j r) (jr_buf r) @ concat ms @ q"
    and "jr_i r \<le> jr_j r" and "jr_j r \<le> length (jr_buf r)"
    and "if whole then reads r (map (Pair middle_chunk) ms @ (last_chunk, q) # ds)
      else q = [] \<and> ds = [] \<and> reads r (map (Pair middle_chunk) ms)"
  shows "inside r b whole ds"
proof -
  have "\<exists>ms q. b = byte_slice (jr_i r) (jr_j r) (jr_buf r) @ concat ms @ q \<and>
    (if whole then reads r (map (Pair middle_chunk) ms @ (last_chunk, q) # ds)
     else q = [] \<and> ds = [] \<and> reads r (map (Pair middle_chunk) ms))" using assms by blast
  with assms(1,3,4) show ?thesis by (simp only: inside_def Let_def if_False simp_thms)
qed

lemma byte_slice_same [simp]: "byte_slice i i b = []"
  by (simp add: byte_slice_def)

lemma inside_next:
  assumes "inside r b whole ds" and "jr_i r = jr_j r" and "\<not> jr_last r" and "next_chunk False r = (c, r1)"
  shows "c = Chunk_Ok \<and> inside r1 b whole ds \<and> jr_seq r1 = jr_seq r \<or>
    c = Chunk_Skip \<and> \<not> whole \<and> b = [] \<and> ds = [] \<and> reads r1 []"
proof -
  obtain ms q where b: "b = concat ms @ q" and
    r: "if whole then reads r (map (Pair middle_chunk) ms @ (last_chunk, q) # ds)
        else q = [] \<and> ds = [] \<and> reads r (map (Pair middle_chunk) ms)"
    using assms(1-3) by (auto simp: inside_def Let_def)
  show ?thesis
  proof (cases ms)
    case (Cons m ms')
    let ?cs = "map (Pair middle_chunk) ms' @ (if whole then (last_chunk, q) # ds else [])"
    have "reads r ((middle_chunk, m) # ?cs)" using r Cons by (auto split: if_splits)
    then obtain r' where "reads r' ?cs" "delivers False (middle_chunk, m) r (c, r1)" "r1 = r'"
      by (rule reads_next [where first = False]) (simp add: assms(4))
    then have "c = Chunk_Ok \<and> inside r1 b whole ds \<and> jr_seq r1 = jr_seq r"
      using r b Cons by (auto simp: delivers_def inside_def Let_def split: if_splits)
    then show ?thesis ..
  next
    case Nil
    show ?thesis
    proof (cases whole)
      case True
      then have "reads r ((last_chunk, q) # ds)" using r Nil by simp
      then obtain r' where "reads r' ds" "delivers False (last_chunk, q) r (c, r1)" "r1 = r'"
        by (rule reads_next [where first = False]) (simp add: assms(4))
      then have "c = Chunk_Ok \<and> inside r1 b whole ds \<and> jr_seq r1 = jr_seq r"
        using True b Nil by (auto simp: delivers_def inside_def Let_def)
      then show ?thesis ..
    next
      case False
      then have "reads r []" using r Nil by simp
      then have "c = Chunk_Skip \<and> reads r1 []"
      proof (cases rule: reads_Nil [where first = False])
        case end_here
        then show ?thesis using \<open>reads r []\<close> assms(4)
          by (auto simp: missing_or_eof_def corrupt_def reads_def reader_clean_def)
      next
        case end_refill
        then show ?thesis using assms(4)
          by (auto simp: missing_or_eof_def corrupt_def reads_def reader_clean_def)
      qed (use assms(4) in auto)
      then show ?thesis using False r Nil b by simp
    qed
  qed
qed

lemma skip_empty_inside:
  "inside r b whole ds \<Longrightarrow>
   (\<exists>r1. skip_empty r = (None, None, r1) \<and> inside r1 b whole ds \<and> jr_i r1 < jr_j r1 \<and> jr_seq r1 = jr_seq r) \<or>
   (\<exists>r1. skip_empty r = (Some Jr_EOF, None, r1) \<and> whole \<and> b = [] \<and> reads r1 ds) \<or>
   (\<exists>r1. skip_empty r = (Some Jr_Unexpected_EOF, Some Jr_Unexpected_EOF, r1) \<and> \<not> whole \<and> ds = [] \<and> reads r1 [])"
proof (induction r rule: skip_empty.induct)
  case (1 r)
  consider "jr_i r \<noteq> jr_j r" | "jr_i r = jr_j r" "jr_last r" | "jr_i r = jr_j r" "\<not> jr_last r" by blast
  then show ?case
  proof cases
    case 1
    then have "jr_i r < jr_j r" using "1.prems" by (simp add: inside_def)
    then show ?thesis using 1 "1.prems" by (simp add: skip_empty.simps [of r])
  next
    case 2
    then show ?thesis using "1.prems" by (auto simp: inside_def Let_def skip_empty.simps [of r])
  next
    case 3
    obtain c r1 where n: "next_chunk False r = (c, r1)" by fastforce
    from inside_next [OF "1.prems" 3 n] show ?thesis
    proof
      assume ok: "c = Chunk_Ok \<and> inside r1 b whole ds \<and> jr_seq r1 = jr_seq r"
      then have "skip_empty r = skip_empty r1" using 3 n by (simp add: skip_empty.simps [of r])
      with "1.IH" [of c r1] 3 n ok show ?thesis by auto
    next
      assume sk: "c = Chunk_Skip \<and> \<not> whole \<and> b = [] \<and> ds = [] \<and> reads r1 []"
      then have "skip_empty r = (Some Jr_Unexpected_EOF, Some Jr_Unexpected_EOF, r1)"
        using 3 n by (simp add: skip_empty.simps [of r] chunk_error_def)
      with sk show ?thesis by auto
    qed
  qed
qed

lemma inside_advance:
  assumes "inside r b whole ds" and "n \<le> jr_j r - jr_i r"
  shows "inside (r\<lparr>jr_i := jr_i r + n\<rparr>) (drop n b) whole ds"
    "take n (byte_slice (jr_i r) (jr_j r) (jr_buf r)) = take n b"
proof -
  let ?s = "byte_slice (jr_i r) (jr_j r) (jr_buf r)"
  have l: "length ?s = jr_j r - jr_i r" using assms(1) by (auto simp: inside_def byte_slice_def)
  obtain u where b: "b = ?s @ u" using assms(1) by (auto simp: inside_def Let_def split: if_splits)
  show "take n ?s = take n b" using l assms(2) by (subst b) simp
  have "byte_slice (jr_i r + n) (jr_j r) (jr_buf r) = drop n ?s"
    by (simp add: byte_slice_def drop_take add.commute)
  moreover have "drop n (?s @ v) = drop n ?s @ v" for v using l assms(2) by simp
  moreover have "jr_i r \<le> jr_j r" using assms(1) by (simp add: inside_def)
  ultimately have i: "jr_i r + n \<le> jr_j r" "byte_slice (jr_i r + n) (jr_j r) (jr_buf r) = drop n ?s"
      "\<And>v. drop n (?s @ v) = drop n ?s @ v"
    using assms(2) by auto
  show "inside (r\<lparr>jr_i := jr_i r + n\<rparr>) (drop n b) whole ds"
  proof (cases "jr_last r")
    case True
    then show ?thesis using assms(1) i by (simp add: inside_def Let_def)
  next
    case False
    then obtain ms q where m: "b = ?s @ concat ms @ q"
      "if whole then reads r (map (Pair middle_chunk) ms @ (last_chunk, q) # ds)
       else q = [] \<and> ds = [] \<and> reads r (map (Pair middle_chunk) ms)"
      using assms(1) by (auto simp: inside_def Let_def)
    have "drop n b = drop n ?s @ concat ms @ q" unfolding m(1) by (rule i(3))
    moreover have "jr_j r \<le> length (jr_buf r)" using assms(1) by (simp add: inside_def)
    ultimately show ?thesis using m(2) False i(1,2) by (intro insideI [of _ _ ms q]) simp_all
  qed
qed

lemma inside_clean: "inside r b whole ds \<Longrightarrow> reader_clean r"
  by (auto simp: inside_def reads_def Let_def split: if_splits)

lemma single_read_inside:
  assumes "inside r b whole ds" and "jr_seq r = seq" and "0 < k"
  shows "(\<exists>n r1. single_read seq k (None, r) = Some (take n b, None, None, r1) \<and> inside r1 (drop n b) whole ds \<and>
      jr_seq r1 = seq \<and> 0 < n \<and> n \<le> length b) \<or>
    (\<exists>r1. single_read seq k (None, r) = Some ([], Some Jr_EOF, None, r1) \<and> whole \<and> b = [] \<and> reads r1 ds) \<or>
    (\<exists>r1. single_read seq k (None, r) = Some ([], Some Jr_Unexpected_EOF, Some Jr_Unexpected_EOF, r1) \<and>
      \<not> whole \<and> ds = [] \<and> reads r1 [])"
proof -
  have e: "jr_err r = None" using inside_clean [OF assms(1)] by (simp add: reader_clean_def)
  consider r1 where "skip_empty r = (None, None, r1)" "inside r1 b whole ds" "jr_i r1 < jr_j r1" "jr_seq r1 = seq"
    | r1 where "skip_empty r = (Some Jr_EOF, None, r1)" "whole" "b = []" "reads r1 ds"
    | r1 where "skip_empty r = (Some Jr_Unexpected_EOF, Some Jr_Unexpected_EOF, r1)" "\<not> whole" "ds = []" "reads r1 []"
    using skip_empty_inside [OF assms(1)] unfolding assms(2) by blast
  then show ?thesis
  proof cases
    case 1
    let ?n = "min k (jr_j r1 - jr_i r1)" and ?s = "byte_slice (jr_i r1) (jr_j r1) (jr_buf r1)"
    have l: "length ?s = jr_j r1 - jr_i r1" "jr_i r1 \<le> jr_j r1" "jr_j r1 \<le> length (jr_buf r1)"
      using 1(2) by (auto simp: inside_def byte_slice_def)
    have "take k ?s = take ?n ?s" unfolding l(1) [symmetric] by (simp add: min_def)
    then have t: "take k ?s = take ?n b" using inside_advance(2) [OF 1(2), of ?n] by simp
    have lt: "length (take k ?s) = ?n" using l(1) by simp
    then have lb: "length (take ?n b) = ?n" unfolding t .
    then have "?n \<le> length b" by simp
    moreover have "single_read seq k (None, r) =
        Some (take k ?s, None, None, r1\<lparr>jr_i := jr_i r1 + length (take k ?s)\<rparr>)"
      using 1 l assms(2) e by (simp add: single_read_def Let_def del: length_take)
    then have "single_read seq k (None, r) = Some (take ?n b, None, None, r1\<lparr>jr_i := jr_i r1 + ?n\<rparr>)"
      by (simp only: t lb)
    ultimately show ?thesis
      using inside_advance(1) [OF 1(2), of ?n] 1(3,4) assms(3) by (intro disjI1 exI [of _ ?n] exI) auto
  qed (use assms(2) e in \<open>simp_all add: single_read_def\<close>)
qed

lemma read_all_inside:
  "inside r b whole ds \<Longrightarrow> jr_seq r = seq \<Longrightarrow>
   \<exists>r' part. read_all sizes k seq acc (None, r) =
      Some ((if whole then (acc @ b, None) else (part, Some Jr_Unexpected_EOF)), r') \<and> reads r' ds"
proof (induction "length b" arbitrary: b r k acc rule: less_induct)
  case less
  from single_read_inside [OF less.prems, of "Suc (sizes k)", simplified]
  consider n r1 where "single_read seq (Suc (sizes k)) (None, r) = Some (take n b, None, None, r1)"
      "inside r1 (drop n b) whole ds" "jr_seq r1 = seq" "0 < n" "n \<le> length b"
    | r1 where "single_read seq (Suc (sizes k)) (None, r) = Some ([], Some Jr_EOF, None, r1)" "whole" "b = []" "reads r1 ds"
    | r1 where "single_read seq (Suc (sizes k)) (None, r) = Some ([], Some Jr_Unexpected_EOF, Some Jr_Unexpected_EOF, r1)"
      "\<not> whole" "ds = []" "reads r1 []"
    by blast
  then show ?case
  proof cases
    case 1
    then have "read_all sizes k seq acc (None, r) = read_all sizes (Suc k) seq (acc @ take n b) (None, r1)"
      by (simp add: read_all.simps [of sizes k])
    moreover have "length (drop n b) < length b" using 1 by simp
    from less.hyps [OF this 1(2,3), of "Suc k" "acc @ take n b"] obtain r' part where
      "read_all sizes (Suc k) seq (acc @ take n b) (None, r1) =
        Some ((if whole then ((acc @ take n b) @ drop n b, None) else (part, Some Jr_Unexpected_EOF)), r')"
      "reads r' ds" by blast
    ultimately show ?thesis by (intro exI [of _ r'] exI [of _ part]) simp
  qed (simp_all add: read_all.simps [of sizes k])
qed

section \<open>One record after the other\<close>

lemma next_loop_record:
  assumes "reads r ((ty, p) # cs)" and "ty = full_chunk \<or> ty = first_chunk"
  obtains r' where "next_loop_chunks r = (None, r')" "reads r' cs" "jr_seq r' = jr_seq r" "jr_i r' \<le> jr_j r'"
    "jr_j r' \<le> length (jr_buf r')" "byte_slice (jr_i r') (jr_j r') (jr_buf r') = p"
    "jr_last r' = (ty = full_chunk)"
proof -
  obtain c r' where n: "next_chunk True r = (c, r')" by fastforce
  obtain r'' where "reads r'' cs" "delivers True (ty, p) r (c, r')" "r' = r''"
    by (rule reads_next [OF assms(1), where first = True]) (simp add: n)
  with assms(2) n that [of r'] show ?thesis
    by (auto simp: delivers_def next_loop_chunks.simps [of r])
qed

lemma next_loop_end:
  assumes "reads r []"
  shows "\<exists>r'. next_loop_chunks r = (Some Jr_EOF, r')"
  using assms
proof (induction "unread r" arbitrary: r rule: less_induct)
  case less
  obtain c r' where n: "next_chunk True r = (c, r')" by fastforce
  have "c = Chunk_Err Jr_EOF \<or> c = Chunk_Skip \<and> reads r' []"
    using less.prems n
    by (cases rule: reads_Nil [where first = True]) (auto simp: missing_or_eof_def)
  then show ?case
    using less.hyps [of r'] next_chunk_progress [OF n] n
    by (auto simp: next_loop_chunks.simps [of r])
qed

lemma reads_jr_err: "reads r cs \<Longrightarrow> jr_err r = None"
  by (auto simp: reads_def reader_clean_def)

lemma jr_next_chunk:
  assumes "reads r ((ty, p) # cs)" and "ty = full_chunk \<or> ty = first_chunk"
  obtains r' where "jr_next r = (Inr (jr_seq r'), r')" "reads r' cs" "jr_i r' \<le> jr_j r'"
    "jr_j r' \<le> length (jr_buf r')" "byte_slice (jr_i r') (jr_j r') (jr_buf r') = p"
    "jr_last r' = (ty = full_chunk)"
proof -
  let ?r = "r\<lparr>jr_seq := jr_seq r + 1, jr_i := jr_j r\<rparr>"
  have "reads ?r ((ty, p) # cs)" using assms(1) by simp
  then show ?thesis
    by (rule next_loop_record [OF _ assms(2)])
      (use that reads_jr_err [OF assms(1)] in \<open>simp add: jr_next_def\<close>)
qed

lemma next_record:
  assumes "reads r (cs @ ds)" and "is_record b cs"
  obtains seq r1 r2 where "jr_next r = (Inr seq, r1)"
    "read_all sizes 0 seq [] (None, r1) = Some ((b, None), r2)" "reads r2 ds"
proof -
  consider "cs = [(full_chunk, b)]"
    | p ms q where "cs = (first_chunk, p) # map (Pair middle_chunk) ms @ [(last_chunk, q)]" "b = p @ concat ms @ q"
    using assms(2) by (auto simp: is_record_def)
  then obtain r1 where "jr_next r = (Inr (jr_seq r1), r1)" "inside r1 b True ds"
  proof cases
    case 1
    have "reads r ((full_chunk, b) # ds)" using assms(1) 1 by simp
    then show ?thesis
      by (rule jr_next_chunk) (use that in \<open>auto simp: inside_def Let_def\<close>)
  next
    case (2 p ms q)
    have "reads r ((first_chunk, p) # map (Pair middle_chunk) ms @ (last_chunk, q) # ds)"
      using assms(1) 2 by simp
    then obtain r1 where r1: "jr_next r = (Inr (jr_seq r1), r1)" "jr_i r1 \<le> jr_j r1"
      "reads r1 (map (Pair middle_chunk) ms @ (last_chunk, q) # ds)" "jr_j r1 \<le> length (jr_buf r1)"
      "byte_slice (jr_i r1) (jr_j r1) (jr_buf r1) = p" "\<not> jr_last r1"
      by (rule jr_next_chunk) simp_all
    then have "inside r1 b True ds" using 2(2) by (intro insideI [of _ _ ms q]) simp_all
    with r1(1) that show ?thesis by blast
  qed
  with read_all_inside [of r1 b True ds "jr_seq r1" sizes 0 "[]"] that show ?thesis by auto
qed

lemma next_open:
  assumes "reads r cs" and "is_open b cs"
  obtains seq r1 part r2 where "jr_next r = (Inr seq, r1)"
    "read_all sizes 0 seq [] (None, r1) = Some ((part, Some Jr_Unexpected_EOF), r2)" "reads r2 []"
proof -
  obtain p ms where c: "cs = (first_chunk, p) # map (Pair middle_chunk) ms" "b = p @ concat ms"
    using assms(2) by (auto simp: is_open_def)
  have "reads r ((first_chunk, p) # map (Pair middle_chunk) ms)" using assms(1) c by simp
  then obtain r1 where r1: "jr_next r = (Inr (jr_seq r1), r1)" "jr_i r1 \<le> jr_j r1"
    "reads r1 (map (Pair middle_chunk) ms)" "jr_j r1 \<le> length (jr_buf r1)"
    "byte_slice (jr_i r1) (jr_j r1) (jr_buf r1) = p" "\<not> jr_last r1"
    by (rule jr_next_chunk) simp_all
  then have "inside r1 b False []" using c(2) by (intro insideI [of _ _ ms "[]"]) simp_all
  with r1(1) read_all_inside [of r1 b False "[]" "jr_seq r1" sizes 0 "[]"] that show ?thesis by auto
qed

lemma next_eof:
  assumes "reads r []"
  obtains r1 where "jr_next r = (Inl Jr_EOF, r1)"
  using next_loop_end [of "r\<lparr>jr_seq := jr_seq r + 1, jr_i := jr_j r\<rparr>"] assms reads_jr_err [OF assms] that
  by (auto simp: jr_next_def)

lemma new_reader_reads:
  assumes "stream_ok s cs"
  shows "reads (new_reader (s, None) False checksum) cs"
proof -
  let ?r = "new_reader (s, None) False checksum"
  have "reader_clean ?r" by (simp add: reader_clean_def new_reader_def)
  moreover have "reads_block ?r [] [] cs"
    using assms by (simp add: reads_block_def new_reader_def header_size_def)
  ultimately have "reads ?r ([] @ cs)" by (rule readsI)
  then show ?thesis by simp
qed

section \<open>Streams that are cut off\<close>

lemma torn_take: "torn t \<Longrightarrow> torn (take n t)"
proof (cases "length (take n t) < header_size")
  case False
  moreover assume "torn t"
  ultimately obtain ty p u where u: "chunk_ok (ty, p)" "t @ u = enc_chunk (ty, p)" "u \<noteq> []"
    by (auto simp: torn_def)
  have "take n t @ drop n t @ u = enc_chunk (ty, p)" using u(2) by (simp flip: append_assoc)
  with u(1,3) show ?thesis unfolding torn_def by blast
qed (simp add: torn_def)

lemma encs_take:
  "list_all chunk_ok cs \<Longrightarrow> torn t \<Longrightarrow>
   \<exists>cs1 cs2 t'. cs = cs1 @ cs2 \<and> take n (enc_chunks cs @ t) = enc_chunks cs1 @ t' \<and> torn t'"
proof (induction cs arbitrary: n)
  case Nil
  then show ?case using torn_take [of t n] by auto
next
  case (Cons c cs)
  show ?case
  proof (cases "n < length (enc_chunk c)")
    case True
    obtain ty p where c: "c = (ty, p)" by (cases c)
    have "take n (enc_chunk c) @ drop n (enc_chunk c) = enc_chunk (ty, p)" "drop n (enc_chunk c) \<noteq> []"
      using True c by simp_all
    then have "torn (take n (enc_chunk c))"
      using Cons.prems(1) unfolding torn_def c by (metis list.pred_inject(2))
    moreover have "take n (enc_chunks (c # cs) @ t) = enc_chunks [] @ take n (enc_chunk c)" using True by simp
    ultimately show ?thesis by (metis append_Nil)
  next
    case False
    obtain cs1 cs2 t' where "cs = cs1 @ cs2" "take (n - length (enc_chunk c)) (enc_chunks cs @ t) = enc_chunks cs1 @ t'" "torn t'"
      using Cons by (metis list.pred_inject(2))
    then have "c # cs = (c # cs1) @ cs2" "take n (enc_chunks (c # cs) @ t) = enc_chunks (c # cs1) @ t'" "torn t'"
      using False by simp_all
    then show ?thesis by blast
  qed
qed

lemma stream_torn:
  assumes "list_all chunk_ok cs" and "torn t" and "length (enc_chunks cs @ t) < block_size"
  shows "stream_ok (enc_chunks cs @ t) cs"
proof (cases "enc_chunks cs @ t = []")
  case True
  then have "cs = []" using length_enc_chunk by (cases cs) (auto simp: enc_chunk.simps)
  with True stream_nil show ?thesis by simp
qed (use assms stream_final in blast)

lemma stream_take:
  "stream_ok s cs \<Longrightarrow> \<exists>cs1 cs2. cs = cs1 @ cs2 \<and> stream_ok (take n s) cs1"
proof (induction arbitrary: n rule: stream_ok.induct)
  case stream_nil
  then show ?case using stream_ok.stream_nil by simp
next
  case (stream_final cs t)
  obtain cs1 cs2 t' where c: "cs = cs1 @ cs2" "take n (enc_chunks cs @ t) = enc_chunks cs1 @ t'" "torn t'"
    using encs_take [OF stream_final(1,2)] by blast
  have "length (enc_chunks cs1 @ t') < block_size"
    using arg_cong [OF c(2), of length] stream_final(3) by simp
  with c stream_final(1) stream_torn [of cs1 t'] show ?case by (metis list_all_append)
next
  case (stream_block cs pad s ds)
  show ?case
  proof (cases "n < block_size")
    case True
    have "torn pad" using stream_block(3) by (simp add: torn_def)
    from encs_take [OF stream_block(1) this] obtain cs1 cs2 t' where
      c: "cs = cs1 @ cs2" "take n (enc_chunks cs @ pad) = enc_chunks cs1 @ t'" "torn t'" by blast
    have n: "take n (enc_chunks cs @ pad @ s) = take n (enc_chunks cs @ pad)"
      using True stream_block(2) by (simp flip: append_assoc)
    have "length (enc_chunks cs1 @ t') < block_size"
      using arg_cong [OF c(2), of length] True by simp
    with c stream_block(1) stream_torn [of cs1 t'] n show ?thesis
      by (metis append_assoc list_all_append)
  next
    case False
    obtain ds1 ds2 where d: "ds = ds1 @ ds2" "stream_ok (take (n - block_size) s) ds1"
      using stream_block.IH by blast
    have "take n (enc_chunks cs @ pad @ s) = enc_chunks cs @ pad @ take (n - block_size) s"
      using False stream_block(2) by (simp flip: append_assoc)
    with d stream_ok.stream_block [OF stream_block(1,2,3) d(2)] show ?thesis by (metis append_assoc)
  qed
qed

text \<open>The chunks of some records, cut off: whole records and possibly an open one.\<close>

lemma is_record_prefix:
  assumes "is_record b (ds @ es)"
  shows "es = [] \<or> ds = [] \<or> (\<exists>b. is_open b ds)"
proof (cases "es = [] \<or> ds = []")
  case False
  then obtain d ds' e where ds: "ds = d # ds'" "es \<noteq> []" by (cases ds) auto
  then obtain p ms q where r: "ds @ es = (first_chunk, p) # map (Pair middle_chunk) ms @ [(last_chunk, q)]"
    using assms by (auto simp: is_record_def)
  then have "ds' @ butlast es = map (Pair middle_chunk) ms"
    using ds by (metis append_Cons butlast_append butlast_snoc list.inject)
  then have "ds' = take (length ds') (map (Pair middle_chunk) ms)" by (metis append_eq_conv_conj)
  then have "ds = (first_chunk, p) # map (Pair middle_chunk) (take (length ds') ms)"
    using ds r by (simp add: take_map)
  then show ?thesis unfolding is_open_def by blast
qed auto

lemma is_records_prefix:
  "is_records recs cs \<Longrightarrow> cs = ds @ es \<Longrightarrow>
   \<exists>recs1 recs2 ds1 op. recs = recs1 @ recs2 \<and> ds = ds1 @ op \<and> is_records recs1 ds1 \<and>
     (op = [] \<or> (\<exists>b. is_open b op))"
proof (induction arbitrary: ds rule: is_records.induct)
  case no_records
  then show ?case using is_records.no_records by force
next
  case (more_records b cs1 bs cs2)
  from more_records.prems consider u where "cs1 = ds @ u" | u where "ds = cs1 @ u" "cs2 = u @ es"
    by (auto simp: append_eq_append_conv2)
  then show ?case
  proof cases
    case 1
    consider "u = []" | "ds = [] \<or> (\<exists>b. is_open b ds)"
      using is_record_prefix more_records.hyps(1) 1 by blast
    then show ?thesis
    proof cases
      case 1
      with \<open>cs1 = ds @ u\<close> is_records.more_records [OF more_records.hyps(1) is_records.no_records]
      have "b # bs = [b] @ bs" "ds = ds @ []" "is_records [b] ds" by simp_all
      then show ?thesis by blast
    next
      case 2
      then have "b # bs = [] @ (b # bs)" "ds = [] @ ds" "is_records [] []" "ds = [] \<or> (\<exists>b. is_open b ds)"
        by (simp_all add: is_records.no_records)
      then show ?thesis by blast
    qed
  next
    case 2
    obtain recs1 recs2 ds1 op where "bs = recs1 @ recs2" "u = ds1 @ op" "is_records recs1 ds1"
      "op = [] \<or> (\<exists>b. is_open b op)" using more_records.IH [OF 2(2)] by blast
    then have "b # bs = (b # recs1) @ recs2" "ds = (cs1 @ ds1) @ op" "is_records (b # recs1) (cs1 @ ds1)"
      "op = [] \<or> (\<exists>b. is_open b op)"
      using 2(1) is_records.more_records [OF more_records.hyps(1)] by simp_all
    then show ?thesis by blast
  qed
qed

section \<open>One reading of the bytes\<close>

text \<open>The bytes determine the chunks: a header says how long its chunk is.\<close>

lemma enc_chunk_unique:
  assumes "chunk_ok c" and "chunk_ok d" and "enc_chunk c @ x = enc_chunk d @ y"
  shows "c = d"
proof -
  obtain ty p ty' p' where c: "c = (ty, p)" and d: "d = (ty', p')" by (metis surj_pair)
  note ok = assms(1) [unfolded c] assms(2) [unfolded d]
  have "put_uint16 (word_of_nat (length p)) = put_uint16 (word_of_nat (length p'))"
    using assms(3) enc_chunk_parts(2) [OF ok(1), of x] enc_chunk_parts(2) [OF ok(2), of y] by (simp add: c d)
  then have "(word_of_nat (length p) :: 16 word) = word_of_nat (length p')" by (metis get_put_uint16)
  then have "length p = length p'" using enc_chunk_parts(5) [OF ok(1)] enc_chunk_parts(5) [OF ok(2)] by metis
  moreover have "ty # p @ x = ty' # p' @ y" 
    using assms(3) enc_chunk_parts(4) [OF ok(1), of x] enc_chunk_parts(4) [OF ok(2), of y] by (simp add: c d)
  ultimately show ?thesis by (simp add: c d)
qed

lemma torn_no_chunk:
  assumes "torn t" and "chunk_ok d" and "t = enc_chunk d @ y"
  shows False
proof -
  obtain ty p where d: "d = (ty, p)" by (cases d)
  then have "\<not> length t < header_size" using assms(3) by simp
  then obtain ty' p' u where u: "chunk_ok (ty', p')" "t @ u = enc_chunk (ty', p')" "u \<noteq> []"
    using assms(1) by (auto simp: torn_def)
  then have e: "enc_chunk d @ y @ u = enc_chunk (ty', p') @ []" using assms(3) by simp
  then have "d = (ty', p')" by (rule enc_chunk_unique [OF assms(2) u(1)])
  with e u(3) show False by simp
qed

lemma enc_chunks_unique:
  "list_all chunk_ok cs \<Longrightarrow> list_all chunk_ok ds \<Longrightarrow> torn t \<Longrightarrow> torn u \<Longrightarrow>
   enc_chunks cs @ t = enc_chunks ds @ u \<Longrightarrow> cs = ds"
proof (induction cs arbitrary: ds)
  case Nil
  then show ?case using torn_no_chunk [of t] by (cases ds) auto
next
  case (Cons c cs)
  have "ds \<noteq> []"
  proof
    assume "ds = []"
    then have "u = enc_chunk c @ enc_chunks cs @ t" using Cons.prems(5) by simp
    from torn_no_chunk [OF Cons.prems(4) _ this] show False using Cons.prems(1) by simp
  qed
  then obtain d ds' where ds: "ds = d # ds'" by (cases ds) simp_all
  then have "enc_chunk c @ enc_chunks cs @ t = enc_chunk d @ enc_chunks ds' @ u" using Cons.prems(5) by simp
  moreover from this have "c = d" by (rule enc_chunk_unique [rotated 2]) (use Cons.prems(1,2) ds in simp_all)
  ultimately have "cs = ds'" using Cons.prems ds by (intro Cons.IH) simp_all
  with \<open>c = d\<close> ds show ?case by simp
qed

lemma stream_unique: "stream_ok s cs \<Longrightarrow> stream_ok s ds \<Longrightarrow> cs = ds"
proof (induction arbitrary: ds rule: stream_ok.induct)
  case stream_nil
  then show ?case by (metis stream_ok_empty)
next
  case (stream_final cs t)
  note final = stream_final.hyps
  from stream_final.prems show ?case
  proof (cases rule: stream_ok.cases)
    case (stream_final u)
    show ?thesis by (rule enc_chunks_unique [OF final(1) stream_final(2) final(2) stream_final(3,1)])
  next
    case (stream_block cs' pad s ds')
    then have "block_size \<le> length (enc_chunks cs @ t)" by simp
    with final(3) show ?thesis by simp
  qed (use final(4) in simp)
next
  case (stream_block cs pad s es)
  from stream_block.prems show ?case
  proof (cases rule: stream_ok.cases)
    case stream_nil
    with stream_block.hyps(2) show ?thesis by (auto simp: block_size_def)
  next
    case (stream_final u)
    have "block_size \<le> length (enc_chunks cs @ pad @ s)" using stream_block.hyps(2) by simp
    with stream_final show ?thesis by simp
  next
    case (stream_block cs' pad' s' es')
    have l: "length (enc_chunks cs @ pad) = length (enc_chunks cs' @ pad')"
      using stream_block(4) \<open>length (enc_chunks cs @ pad) = block_size\<close> by simp
    have "(enc_chunks cs @ pad) @ s = (enc_chunks cs' @ pad') @ s'" using stream_block(1) by simp
    with l have e: "enc_chunks cs @ pad = enc_chunks cs' @ pad'" "s = s'"
      using append_eq_append_conv [of "enc_chunks cs @ pad" "enc_chunks cs' @ pad'" s s'] by blast+
    have "cs = cs'"
      by (rule enc_chunks_unique [OF _ _ _ _ e(1)])
        (use stream_block \<open>list_all chunk_ok cs\<close> \<open>length pad < header_size\<close> in \<open>simp_all add: torn_def\<close>)
    moreover have "es = es'" using stream_block.IH stream_block(6) e(2) by simp
    ultimately show ?thesis using stream_block(2) by simp
  qed
qed

text \<open>The first chunks of a stream are a stream, up to some byte.\<close>

lemma stream_cut: "stream_ok s cs \<Longrightarrow> cs = ds @ es \<Longrightarrow> \<exists>m \<le> length s. stream_ok (take m s) ds"
proof (induction arbitrary: ds rule: stream_ok.induct)
  case stream_nil
  then show ?case using stream_ok.stream_nil by simp
next
  case (stream_final cs t)
  have "stream_ok (enc_chunks ds @ []) ds"
    by (rule stream_torn) (use stream_final in \<open>simp_all add: torn_def header_size_def\<close>)
  then show ?case using stream_final.prems by (intro exI [of _ "length (enc_chunks ds)"]) simp
next
  case (stream_block cs pad s xs)
  from stream_block.prems consider u where "ds = cs @ u" "xs = u @ es" | u where "cs = ds @ u" "u \<noteq> []"
  proof (cases "\<exists>u. ds = cs @ u \<and> xs = u @ es")
    case False
    then obtain u where u: "cs = ds @ u" "u @ xs = es" using stream_block.prems by (auto simp: append_eq_append_conv2)
    then have "u \<noteq> []" using False by auto
    with u(1) that(2) show ?thesis by blast
  qed (use that(1) in blast)
  then show ?case
  proof cases
    case 1
    obtain m where m: "m \<le> length s" "stream_ok (take m s) u" using stream_block.IH [OF 1(2)] by blast
    have "take (block_size + m) (enc_chunks cs @ pad @ s) = enc_chunks cs @ pad @ take m s"
      using stream_block.hyps(2) by simp
    with stream_ok.stream_block [OF stream_block.hyps(1-3) m(2)] 1(1) m(1) stream_block.hyps(2) show ?thesis
      by (intro exI [of _ "block_size + m"]) simp
  next
    case 2
    then obtain ty p v where "u = (ty, p) # v" by (cases u) auto
    then have "length (enc_chunks ds @ []) < block_size" using 2 stream_block.hyps(2) by (simp add: header_size_def)
    then have "stream_ok (enc_chunks ds @ []) ds"
      by (intro stream_torn) (use 2 stream_block.hyps(1) in \<open>simp_all add: torn_def header_size_def\<close>)
    then show ?thesis using 2 by (intro exI [of _ "length (enc_chunks ds)"]) simp
  qed
qed

section \<open>How many records\<close>

text \<open>The chunks that end a record.\<close>

definition record_ends :: "chunk list \<Rightarrow> nat" where
  "record_ends cs = length (filter (\<lambda>(ty, p). ty = full_chunk \<or> ty = last_chunk) cs)"

lemma record_ends_simps [simp]:
  "record_ends [] = 0" "record_ends (cs @ ds) = record_ends cs + record_ends ds"
  "record_ends ((ty, p) # cs) = (if ty = full_chunk \<or> ty = last_chunk then 1 else 0) + record_ends cs"
  by (simp_all add: record_ends_def)

lemma record_ends_middle [simp]: "record_ends (map (Pair middle_chunk) ms) = 0"
  by (induction ms) simp_all

lemma is_records_ends: "is_records recs cs \<Longrightarrow> record_ends cs = length recs"
  by (induction rule: is_records.induct) (auto simp: is_record_def)

lemma is_open_ends: "is_open b cs \<Longrightarrow> record_ends cs = 0"
  by (auto simp: is_open_def)

lemma is_records_take: "is_records recs cs \<Longrightarrow> \<exists>ds es. cs = ds @ es \<and> is_records (take i recs) ds"
proof (induction arbitrary: i rule: is_records.induct)
  case no_records
  then show ?case using is_records.no_records by simp
next
  case (more_records b cs bs xs)
  show ?case
  proof (cases i)
    case 0
    then show ?thesis using is_records.no_records by (intro exI [of _ "[]"] exI [of _ "cs @ xs"]) simp
  next
    case (Suc n)
    obtain ds es where "xs = ds @ es" "is_records (take n bs) ds" using more_records.IH by blast
    then show ?thesis using Suc is_records.more_records [OF more_records.hyps(1)] by (metis append.assoc take_Suc_Cons)
  qed
qed

end
