(* ===== verification/Journal_Writer.thy ===== *)
theory Journal_Writer
  imports Journal_Records
begin

text \<open>
  The writer of the journal as a refinement of an append-only list of records: the relation
  between its buffer, what it has written, and the records so far, and the simulation of
  \<open>Next\<close>, \<open>Write\<close>, \<open>Flush\<close> and \<open>Close\<close>.
\<close>

section \<open>Blocks and buffers\<close>

inductive full_blocks :: "bytes \<Rightarrow> chunk list \<Rightarrow> bool" where
  no_blocks: "full_blocks [] []"
| more_blocks: "full_blocks bl cs \<Longrightarrow> list_all chunk_ok ds \<Longrightarrow> length (enc_chunks ds @ pad) = block_size \<Longrightarrow>
    length pad < header_size \<Longrightarrow> full_blocks (bl @ enc_chunks ds @ pad) (cs @ ds)"

lemma full_blocks_stream: "full_blocks bl cs \<Longrightarrow> stream_ok s ds \<Longrightarrow> stream_ok (bl @ s) (cs @ ds)"
proof (induction arbitrary: s ds rule: full_blocks.induct)
  case (more_blocks bl cs es pad)
  have "stream_ok (enc_chunks es @ pad @ s) (es @ ds)"
    by (rule stream_block) (use more_blocks in simp_all)
  from more_blocks.IH [OF this] show ?case by simp
qed simp

lemma encs_stream:
  assumes "list_all chunk_ok cs" and "length (enc_chunks cs) \<le> block_size"
  shows "stream_ok (enc_chunks cs) cs"
proof (cases "length (enc_chunks cs) = block_size")
  case True
  with stream_block [OF assms(1), of "[]", OF _ _ stream_nil] show ?thesis by (simp add: header_size_def)
next
  case False
  with assms stream_torn [OF assms(1), of "[]"] show ?thesis by (simp add: torn_def header_size_def)
qed

text \<open>
  The buffer holds the chunks \<open>cs2\<close> up to position \<open>e\<close>, and the blocks before it the
  chunks \<open>cs1\<close>; \<open>c\<close> is what the underlying writer has got so far.
\<close>

definition buffered :: "'e jwriter \<Rightarrow> bytes \<Rightarrow> nat \<Rightarrow> chunk list \<Rightarrow> bool" where
  "buffered w c e cs \<longleftrightarrow>
     jw_err w = None \<and> length (jw_buf w) = block_size \<and> jw_written w \<le> e \<and> e \<le> block_size \<and>
     (\<exists>bl cs1 cs2. cs = cs1 @ cs2 \<and> full_blocks bl cs1 \<and> list_all chunk_ok cs2 \<and>
        take e (jw_buf w) = enc_chunks cs2 \<and> c = bl @ take (jw_written w) (jw_buf w))"

definition idle :: "'e jwriter \<Rightarrow> bytes \<Rightarrow> chunk list \<Rightarrow> bool" where
  "idle w c cs \<longleftrightarrow> \<not> jw_pending w \<and> buffered w c (jw_j w) cs"

text \<open>A chunk is open whose payload so far is \<open>p\<close>.\<close>

definition busy :: "'e jwriter \<Rightarrow> bytes \<Rightarrow> chunk list \<Rightarrow> bytes \<Rightarrow> bool" where
  "busy w c cs p \<longleftrightarrow>
     jw_pending w \<and> buffered w c (jw_i w) cs \<and> jw_i w + header_size \<le> jw_j w \<and> jw_j w \<le> block_size \<and>
     byte_slice (jw_i w + header_size) (jw_j w) (jw_buf w) = p"

definition chunk_type :: "bool \<Rightarrow> bool \<Rightarrow> 8 word" where
  "chunk_type is_last is_first =
     (if is_last then (if is_first then full_chunk else last_chunk)
      else (if is_first then first_chunk else middle_chunk))"

lemma fill_header_eq:
  assumes "busy w c cs p"
  shows "fill_header is_last w = Some (w\<lparr>jw_buf := take (jw_i w) (jw_buf w) @
      enc_chunk (chunk_type is_last (jw_first w), p) @ drop (jw_j w) (jw_buf w)\<rparr>)"
proof -
  let ?i = "jw_i w" and ?j = "jw_j w" and ?b = "jw_buf w" and ?ty = "chunk_type is_last (jw_first w)"
  have pos: "?i + header_size \<le> ?j" "?j \<le> block_size" "length ?b = block_size"
    and p: "byte_slice (?i + header_size) ?j ?b = p"
    using assms by (auto simp: busy_def buffered_def)
  define pre post h where "pre = take ?i ?b" and "post = drop ?j ?b" and "h = take header_size (drop ?i ?b)"
  have lh: "length h = 7" using pos by (simp add: h_def header_size_def)
  then obtain h0 h1 h2 h3 h4 h5 h6 where h: "h = [h0, h1, h2, h3, h4, h5, h6]"
    by (auto simp: length_Suc_conv eval_nat_numeral)
  have "drop (?i + header_size) ?b = p @ post"
  proof -
    have "drop (?j - (?i + header_size)) (drop (?i + header_size) ?b) = post"
      using pos by (simp add: post_def)
    then show ?thesis using p unfolding byte_slice_def by (metis append_take_drop_id)
  qed
  moreover have "drop ?i ?b = h @ drop (?i + header_size) ?b"
    unfolding h_def by (metis append_take_drop_id drop_drop add.commute)
  ultimately have b: "?b = pre @ h @ p @ post"
    unfolding pre_def by (metis append_take_drop_id)
  have li: "length pre = ?i" using pos by (simp add: pre_def)
  have lj: "?j = ?i + 7 + length p"
    using pos p by (auto simp: byte_slice_def header_size_def)
  have b1: "?b[?i + 6 := ?ty] = pre @ [h0, h1, h2, h3, h4, h5, ?ty] @ p @ post"
    unfolding b h by (simp add: list_update_append li)
  have s: "byte_slice (?i + 6) ?j (pre @ [h0, h1, h2, h3, h4, h5, ?ty] @ p @ post) = ?ty # p"
    by (simp add: byte_slice_def lj flip: li)
  have "fill_header is_last w = Some (w\<lparr>jw_buf := blit (?i + 4) (put_uint16 (word_of_nat (?j - ?i - header_size)))
      (blit ?i (put_uint32 (crc_value (new_crc (byte_slice (?i + 6) ?j (?b[?i + 6 := ?ty]))))) (?b[?i + 6 := ?ty]))\<rparr>)"
    using pos by (auto simp: fill_header_def chunk_type_def Let_def)
  also have "blit (?i + 4) (put_uint16 (word_of_nat (?j - ?i - header_size)))
      (blit ?i (put_uint32 (crc_value (new_crc (byte_slice (?i + 6) ?j (?b[?i + 6 := ?ty]))))) (?b[?i + 6 := ?ty])) =
      pre @ enc_chunk (?ty, p) @ post"
    unfolding b1 s by (simp add: blit_def put_uint16_def put_uint32_def enc_chunk.simps lj header_size_def flip: li)
  finally show ?thesis by (simp add: pre_def post_def)
qed

text \<open>Closing the open chunk.\<close>

lemma fill_header_buffered:
  assumes "busy w c cs p"
  obtains w' where "fill_header is_last w = Some w'"
    "buffered w' c (jw_j w) (cs @ [(chunk_type is_last (jw_first w), p)])"
    "jw_j w' = jw_j w" "jw_first w' = jw_first w" "jw_seq w' = jw_seq w" "jw_pending w' = jw_pending w"
proof -
  let ?c = "(chunk_type is_last (jw_first w), p)"
    and ?b = "take (jw_i w) (jw_buf w) @ enc_chunk (chunk_type is_last (jw_first w), p) @ drop (jw_j w) (jw_buf w)"
  have pos: "jw_i w + header_size \<le> jw_j w" "jw_j w \<le> block_size" "length (jw_buf w) = block_size"
    "jw_written w \<le> jw_i w" and e: "jw_err w = None"
    and lp: "jw_j w = jw_i w + header_size + length p"
    using assms by (auto simp: busy_def buffered_def byte_slice_def)
  obtain bl cs1 cs2 where r: "cs = cs1 @ cs2" "full_blocks bl cs1" "list_all chunk_ok cs2"
    "take (jw_i w) (jw_buf w) = enc_chunks cs2" "c = bl @ take (jw_written w) (jw_buf w)"
    using assms by (auto simp: busy_def buffered_def)
  have l2: "length (enc_chunks cs2) = jw_i w" using arg_cong [OF r(4), of length] pos by simp
  have "chunk_ok ?c" using lp pos by (simp add: chunk_type_def)
  moreover have "take (jw_j w) ?b = enc_chunks (cs2 @ [?c])"
    using pos lp r(4) l2 by simp
  moreover have "take (jw_written w) ?b = take (jw_written w) (jw_buf w)"
    using pos lp by (simp add: min_def)
  moreover have "length ?b = block_size" using pos lp by simp
  ultimately have "buffered (w\<lparr>jw_buf := ?b\<rparr>) c (jw_j w) (cs @ [?c])"
    using r pos e unfolding buffered_def
    by (intro conjI exI [of _ bl] exI [of _ cs1] exI [of _ "cs2 @ [?c]"]) simp_all
  with fill_header_eq [OF assms, of is_last] that [of "w\<lparr>jw_buf := ?b\<rparr>"] show ?thesis by simp
qed

section \<open>Records\<close>

lemma is_records_snoc: "is_records bs cs \<Longrightarrow> is_record b ds \<Longrightarrow> is_records (bs @ [b]) (cs @ ds)"
proof (induction rule: is_records.induct)
  case no_records
  from more_records [OF this is_records.no_records] show ?case by simp
next
  case (more_records b' cs bs ds')
  from is_records.more_records [OF more_records(1) more_records.IH [OF more_records.prems]]
  show ?case by simp
qed

text \<open>
  The writer has got the records \<open>recs\<close>, and after them the open record \<open>cur\<close>, if any.
\<close>

definition wrote :: "'e jwriter \<Rightarrow> bytes \<Rightarrow> bytes list \<Rightarrow> bytes option \<Rightarrow> bool" where
  "wrote w c recs cur \<longleftrightarrow>
     (case cur of
        None \<Rightarrow> \<exists>cs. idle w c cs \<and> is_records recs cs
      | Some b \<Rightarrow>
          \<exists>cs op p b0. busy w c (cs @ op) p \<and> is_records recs cs \<and> b = b0 @ p \<and>
            (if jw_first w then op = [] \<and> b0 = [] else is_open b0 op))"

lemma busy_wrote:
  "busy w c (cs @ op) p \<Longrightarrow> is_records recs cs \<Longrightarrow>
   (if jw_first w then op = [] \<and> b0 = [] else is_open b0 op) \<Longrightarrow> wrote w c recs (Some (b0 @ p))"
  unfolding wrote_def option.case by blast

definition finished :: "bytes list \<Rightarrow> bytes option \<Rightarrow> bytes list" where
  "finished recs cur = recs @ (case cur of None \<Rightarrow> [] | Some b \<Rightarrow> [b])"

lemma buffered_simps [simp]:
  "buffered (w\<lparr>jw_seq := k\<rparr>) c e cs = buffered w c e cs"
  "buffered (w\<lparr>jw_pending := b\<rparr>) c e cs = buffered w c e cs"
  "buffered (w\<lparr>jw_first := b\<rparr>) c e cs = buffered w c e cs"
  "buffered (w\<lparr>jw_i := k\<rparr>) c e cs = buffered w c e cs"
  "buffered (w\<lparr>jw_j := k\<rparr>) c e cs = buffered w c e cs"
  by (simp_all add: buffered_def)

lemma wrote_seq [simp]: "wrote (w\<lparr>jw_seq := k\<rparr>) c recs cur = wrote w c recs cur"
  by (simp add: wrote_def idle_def busy_def split: option.splits)

lemma wrote_close:
  assumes "wrote w c recs cur"
  obtains w2 cs where "(if jw_pending w then fill_header True w else Some w) = Some w2"
    "buffered w2 c (jw_j w2) cs" "is_records (finished recs cur) cs" "jw_seq w2 = jw_seq w"
proof (cases cur)
  case None
  then obtain cs where "idle w c cs" "is_records recs cs" using assms by (auto simp: wrote_def)
  with that [of w cs] None show ?thesis by (simp add: idle_def finished_def)
next
  case (Some b)
  then obtain cs op p b0 where b: "busy w c (cs @ op) p" "is_records recs cs" "b = b0 @ p"
    "if jw_first w then op = [] \<and> b0 = [] else is_open b0 op" using assms by (auto simp: wrote_def)
  have "is_record b (op @ [(chunk_type True (jw_first w), p)])"
    using b(3,4) by (auto simp: is_record_def is_open_def chunk_type_def split: if_splits)
  from is_records_snoc [OF b(2) this]
  have r: "is_records (finished recs cur) ((cs @ op) @ [(chunk_type True (jw_first w), p)])"
    using Some by (simp add: finished_def)
  have "jw_pending w" using b(1) by (simp add: busy_def)
  obtain w' where "fill_header True w = Some w'"
    "buffered w' c (jw_j w) ((cs @ op) @ [(chunk_type True (jw_first w), p)])"
    "jw_j w' = jw_j w" "jw_seq w' = jw_seq w"
    by (rule fill_header_buffered [OF b(1), of True])
  with that [OF _ _ r] \<open>jw_pending w\<close> show ?thesis by simp
qed

lemma new_writer_wrote: "wrote new_writer [] [] None"
proof -
  have "buffered new_writer [] 0 []"
    unfolding buffered_def new_writer_def
    by (intro conjI exI [of _ "[]"]) (simp_all add: no_blocks)
  then show ?thesis
    unfolding wrote_def idle_def by (auto simp: new_writer_def no_records intro!: exI [of _ "[]"])
qed

text \<open>Copying bytes into the open chunk.\<close>

lemma busy_copy:
  assumes "busy w c cs p" and "jw_j w + length x \<le> block_size"
  shows "busy (w\<lparr>jw_buf := blit (jw_j w) x (jw_buf w), jw_j := jw_j w + length x\<rparr>) c cs (p @ x)"
proof -
  let ?b = "blit (jw_j w) x (jw_buf w)"
  have pos: "jw_i w + header_size \<le> jw_j w" "length (jw_buf w) = block_size" "jw_written w \<le> jw_i w"
    and p: "p = byte_slice (jw_i w + header_size) (jw_j w) (jw_buf w)"
    using assms(1) by (auto simp: busy_def buffered_def)
  have t: "take e ?b = take e (jw_buf w)" if "e \<le> jw_i w" for e
    using that pos assms(2) by (simp add: blit_def)
  have "length ?b = block_size" using pos assms(2) by (simp add: blit_def)
  moreover have "byte_slice (jw_i w + header_size) (jw_j w + length x) ?b = p @ x"
    using pos assms(2) by (simp add: byte_slice_def blit_def p drop_take)
  ultimately show ?thesis
    using assms t [of "jw_i w"] t [OF pos(3)] unfolding busy_def buffered_def by simp
qed

section \<open>Writing blocks\<close>

text \<open>The bytes \<open>c\<close> are a journal with the records \<open>recs\<close>.\<close>

definition journal_of :: "bytes \<Rightarrow> bytes list \<Rightarrow> bool" where
  "journal_of c recs \<longleftrightarrow> (\<exists>cs. stream_ok c cs \<and> is_records recs cs)"

text \<open>
  What the writer relies on: an underlying writer that, in a good state, accepts everything
  and keeps it in order.
\<close>

locale byte_sink =
  fixes io :: "('s, 'e) io_ops" and good :: "'s \<Rightarrow> bool" and content :: "'s \<Rightarrow> bytes"
  assumes write_ok: "good s \<Longrightarrow> io_write io b s = (e, s') \<Longrightarrow> e = None \<and> good s' \<and> content s' = content s @ b"
    and flush_ok: "good s \<Longrightarrow> io_flush io = Some fl \<Longrightarrow> fl s = (e, s') \<Longrightarrow> e = None \<and> good s' \<and> content s' = content s"
begin

text \<open>A full buffer goes out, and the header of the next chunk is reserved.\<close>

lemma write_block_ok:
  assumes "good s" and "buffered w (content s) e cs" and "jw_buf w = take e (jw_buf w) @ pad"
    and "length pad < header_size"
  obtains w' s' where "write_block io (w, s) = (w', s')" "good s'" "buffered w' (content s') 0 cs"
    "jw_i w' = 0" "jw_j w' = header_size" "jw_first w' = jw_first w" "jw_pending w' = jw_pending w"
    "jw_seq w' = jw_seq w" "jw_err w' = None" "length (jw_buf w') = block_size"
proof -
  obtain er s' where w: "io_write io (drop (jw_written w) (jw_buf w)) s = (er, s')" by fastforce
  from write_ok [OF assms(1) w] have s': "er = None" "good s'"
    "content s' = content s @ drop (jw_written w) (jw_buf w)" by simp_all
  obtain bl cs1 cs2 where r: "cs = cs1 @ cs2" "full_blocks bl cs1" "list_all chunk_ok cs2"
    "take e (jw_buf w) = enc_chunks cs2" "content s = bl @ take (jw_written w) (jw_buf w)"
    and l: "length (jw_buf w) = block_size"
    using assms(2) by (auto simp: buffered_def)
  have c: "content s' = bl @ enc_chunks cs2 @ pad" using s'(3) r(4,5) assms(3) by simp
  have "length (enc_chunks cs2 @ pad) = block_size" using assms(3) l r(4) by simp
  from more_blocks [OF r(2,3) this assms(4)] have f: "full_blocks (content s') cs" using c r(1) by simp
  let ?w = "w\<lparr>jw_err := None, jw_i := 0, jw_j := header_size, jw_written := 0\<rparr>"
  have "buffered ?w (content s') 0 cs"
    using f l unfolding buffered_def
    by (intro conjI exI [of _ "content s'"] exI [of _ cs] exI [of _ "[]"]) simp_all
  moreover have "write_block io (w, s) = (?w, s')" using w s'(1) by (simp add: write_block_def)
  ultimately show ?thesis using that [of ?w s'] s'(2) l by simp
qed

text \<open>\<open>Next\<close> finishes the open record and opens an empty one.\<close>

lemma jw_next_wrote:
  assumes "good s" and "wrote w (content s) recs cur"
  obtains w' s' where "jw_next io (w, s) = Some (Inr (jw_seq w'), w', s')" "good s'"
    "wrote w' (content s') (finished recs cur) (Some [])" "jw_seq w' = jw_seq w + 1"
proof -
  let ?w1 = "w\<lparr>jw_seq := jw_seq w + 1\<rparr>"
  obtain w2 cs where w2: "(if jw_pending ?w1 then fill_header True ?w1 else Some ?w1) = Some w2"
    "buffered w2 (content s) (jw_j w2) cs" "is_records (finished recs cur) cs" "jw_seq w2 = jw_seq w + 1"
    by (rule wrote_close [of ?w1 "content s" recs cur]) (use assms(2) in auto)
  have e: "jw_err w = None" using assms(2)
    by (auto simp: wrote_def idle_def busy_def buffered_def split: option.splits)
  have b2: "jw_err w2 = None" "length (jw_buf w2) = block_size" "jw_j w2 \<le> block_size" "jw_written w2 \<le> jw_j w2"
    using w2(2) by (auto simp: buffered_def)
  have opened: "wrote (w4\<lparr>jw_first := True, jw_pending := True\<rparr>) c (finished recs cur) (Some [])"
    if "buffered w4 c (jw_i w4) cs" "jw_j w4 = jw_i w4 + header_size" "jw_j w4 \<le> block_size" for w4 c
    using busy_wrote [of "w4\<lparr>jw_first := True, jw_pending := True\<rparr>" c cs "[]" "[]" "finished recs cur" "[]"]
      that w2(3) by (simp add: busy_def)
  show ?thesis
  proof (cases "jw_j w2 + header_size \<le> block_size")
    case True
    let ?w4 = "w2\<lparr>jw_i := jw_j w2, jw_j := jw_j w2 + header_size\<rparr>"
    have "jw_next io (w, s) = Some (Inr (jw_seq ?w4), ?w4\<lparr>jw_first := True, jw_pending := True\<rparr>, s)"
      unfolding jw_next_def Let_def split_conv w2(1) using e b2 True by (simp add: not_less)
    with that [OF _ assms(1) opened [of ?w4]] w2(2,4) True show ?thesis by simp
  next
    case False
    let ?w3 = "w2\<lparr>jw_i := jw_j w2, jw_j := jw_j w2 + header_size,
        jw_buf := take (jw_j w2) (jw_buf w2) @ replicate (block_size - jw_j w2) 0\<rparr>"
    have "take (jw_written w2) (take (jw_j w2) (jw_buf w2)) = take (jw_written w2) (jw_buf w2)"
      using b2(4) by (simp add: min_def)
    then have b: "buffered ?w3 (content s) (jw_j w2) cs"
      using w2(2) b2 unfolding buffered_def by (simp add: min_absorb1 min_absorb2)
    obtain w4 s' where w4: "write_block io (?w3, s) = (w4, s')" "good s'" "buffered w4 (content s') 0 cs"
      "jw_i w4 = 0" "jw_j w4 = header_size" "jw_seq w4 = jw_seq ?w3" "jw_err w4 = None"
      by (rule write_block_ok [OF assms(1) b, of "replicate (block_size - jw_j w2) 0"])
        (use False b2 in auto)
    have "jw_next io (w, s) = Some (Inr (jw_seq w4), w4\<lparr>jw_first := True, jw_pending := True\<rparr>, s')"
      unfolding jw_next_def Let_def split_conv w2(1) using e b2 False w4(1,7) by simp
    with that [OF _ w4(2) opened [of w4]] w4 w2(4) show ?thesis
      by (simp add: block_size_def header_size_def)
  qed
qed

text \<open>A full block in the middle of a record.\<close>

lemma write_full_block:
  assumes "good s" and "wrote w (content s) recs (Some b)" and "jw_j w = block_size"
  obtains w1 w2 s' where "fill_header False w = Some w1" "write_block io (w1, s) = (w2, s')" "good s'"
    "wrote (w2\<lparr>jw_first := False\<rparr>) (content s') recs (Some b)" "jw_j w2 = header_size"
    "jw_err w2 = None" "jw_seq w2 = jw_seq w"
proof -
  obtain cs op p b0 where b: "busy w (content s) (cs @ op) p" "is_records recs cs" "b = b0 @ p"
    "if jw_first w then op = [] \<and> b0 = [] else is_open b0 op" using assms(2) by (auto simp: wrote_def)
  let ?op = "op @ [(chunk_type False (jw_first w), p)]"
  obtain w1 where w1: "fill_header False w = Some w1" "buffered w1 (content s) (jw_j w) ((cs @ op) @ [(chunk_type False (jw_first w), p)])"
    "jw_j w1 = jw_j w" "jw_first w1 = jw_first w" "jw_seq w1 = jw_seq w" "jw_pending w1 = jw_pending w"
    by (rule fill_header_buffered [OF b(1), of False])
  have "jw_buf w1 = take (jw_j w) (jw_buf w1) @ []" using w1(2) assms(3) by (simp add: buffered_def)
  then obtain w2 s' where w2: "write_block io (w1, s) = (w2, s')" "good s'"
    "buffered w2 (content s') 0 ((cs @ op) @ [(chunk_type False (jw_first w), p)])"
    "jw_i w2 = 0" "jw_j w2 = header_size" "jw_pending w2 = jw_pending w1" "jw_seq w2 = jw_seq w1" "jw_err w2 = None"
    by (rule write_block_ok [OF assms(1) w1(2)]) (simp add: header_size_def)
  have "busy (w2\<lparr>jw_first := False\<rparr>) (content s') (cs @ ?op) []"
    using w2 b(1) w1(6) by (simp add: busy_def byte_slice_def header_size_def block_size_def)
  moreover have "is_open b ?op"
  proof (cases "jw_first w")
    case True
    then show ?thesis using b(3,4) by (auto simp: is_open_def chunk_type_def)
  next
    case False
    then obtain q ms where "op = (first_chunk, q) # map (Pair middle_chunk) ms" "b0 = q @ concat ms"
      using b(4) by (auto simp: is_open_def)
    then have "?op = (first_chunk, q) # map (Pair middle_chunk) (ms @ [p])" "b = q @ concat (ms @ [p])"
      using False b(3) by (simp_all add: chunk_type_def)
    then show ?thesis unfolding is_open_def by blast
  qed
  ultimately have "wrote (w2\<lparr>jw_first := False\<rparr>) (content s') recs (Some (b @ []))"
    by (intro busy_wrote [OF _ b(2)]) simp_all
  with that [OF w1(1) w2(1,2)] w2 w1(5) show ?thesis by simp
qed

lemma jw_write_loop_wrote:
  "good s \<Longrightarrow> wrote w (content s) recs (Some b) \<Longrightarrow>
   \<exists>w' s'. jw_write_loop io q (w, s) = Some (None, w', s') \<and> good s' \<and>
     wrote w' (content s') recs (Some (b @ q)) \<and> jw_seq w' = jw_seq w"
proof (induction "length q" arbitrary: q w s b rule: less_induct)
  case less
  show ?case
  proof (cases "q = []")
    case True
    then show ?thesis using less.prems by (simp add: jw_write_loop.simps)
  next
    case False
    obtain w1 s1 where w1: "good s1" "wrote w1 (content s1) recs (Some b)" "jw_j w1 < block_size" "jw_seq w1 = jw_seq w"
      and step: "jw_write_loop io q (w, s) =
        (let n = min (length q) (block_size - jw_j w1)
         in jw_write_loop io (drop n q)
              (w1\<lparr>jw_buf := blit (jw_j w1) (take n q) (jw_buf w1), jw_j := jw_j w1 + n\<rparr>, s1))"
    proof (cases "jw_j w = block_size")
      case True
      obtain w1 w2 s' where f: "fill_header False w = Some w1" "write_block io (w1, s) = (w2, s')" "good s'"
        "wrote (w2\<lparr>jw_first := False\<rparr>) (content s') recs (Some b)" "jw_j w2 = header_size"
        "jw_err w2 = None" "jw_seq w2 = jw_seq w"
        by (rule write_full_block [OF less.prems True])
      have l: "jw_j (w2\<lparr>jw_first := False\<rparr>) < block_size" using f(5) by (simp add: header_size_def block_size_def)
      show ?thesis
        by (rule that [OF f(3,4) l]) (use f True False l in \<open>simp_all add: jw_write_loop.simps [of io q w s]\<close>)
    next
      case ne: False
      moreover have "jw_j w \<le> block_size" using less.prems(2) by (auto simp: wrote_def busy_def)
      ultimately have l: "jw_j w < block_size" by simp
      show ?thesis
        by (rule that [OF less.prems l]) (use False l in \<open>simp_all add: jw_write_loop.simps [of io q w s] not_less\<close>)
    qed
    let ?n = "min (length q) (block_size - jw_j w1)"
    let ?w = "w1\<lparr>jw_buf := blit (jw_j w1) (take ?n q) (jw_buf w1), jw_j := jw_j w1 + ?n\<rparr>"
    obtain cs op p b0 where b: "busy w1 (content s1) (cs @ op) p" "is_records recs cs" "b = b0 @ p"
      "if jw_first w1 then op = [] \<and> b0 = [] else is_open b0 op" using w1(2) by (auto simp: wrote_def)
    have ln: "length (take ?n q) = ?n" by simp
    have "busy ?w (content s1) (cs @ op) (p @ take ?n q)"
      using busy_copy [OF b(1), of "take ?n q"] w1(3) unfolding ln by simp
    from busy_wrote [OF this b(2)] b(3,4)
    have "wrote ?w (content s1) recs (Some (b @ take ?n q))" by simp
    moreover have "length (drop ?n q) < length q" using False w1(3) by simp
    ultimately obtain w' s' where "jw_write_loop io (drop ?n q) (?w, s1) = Some (None, w', s')" "good s'"
      "wrote w' (content s') recs (Some ((b @ take ?n q) @ drop ?n q))" "jw_seq w' = jw_seq ?w"
      using less.hyps [OF _ w1(1)] by blast
    then show ?thesis unfolding step Let_def using w1(4) by simp
  qed
qed

lemma jw_write_wrote:
  assumes "good s" and "wrote w (content s) recs (Some b)"
  obtains w' s' where "jw_write io (jw_seq w) q (w, s) = Some (None, w', s')" "good s'"
    "wrote w' (content s') recs (Some (b @ q))" "jw_seq w' = jw_seq w"
proof -
  have "jw_err w = None" using assms(2) by (auto simp: wrote_def busy_def buffered_def)
  with jw_write_loop_wrote [OF assms, of q] that show ?thesis by (auto simp: jw_write_def)
qed

text \<open>Finishing the open record writes everything out.\<close>

lemma write_pending_wrote:
  assumes "good s" and "wrote w (content s) recs cur"
  obtains w' s' where "write_pending io (w, s) = Some (w', s')" "good s'" "jw_err w' = None"
    "wrote w' (content s') (finished recs cur) None" "journal_of (content s') (finished recs cur)"
proof -
  obtain w1 cs where w1: "(if jw_pending w then fill_header True w else Some w) = Some w1"
    "buffered w1 (content s) (jw_j w1) cs" "is_records (finished recs cur) cs"
    by (rule wrote_close [OF assms(2)])
  have e: "jw_err w = None" using assms(2)
    by (auto simp: wrote_def idle_def busy_def buffered_def split: option.splits)
  obtain w2 where w2: "(if jw_pending w then map_option (\<lambda>w. w\<lparr>jw_pending := False\<rparr>) (fill_header True w) else Some w) = Some w2"
    "buffered w2 (content s) (jw_j w2) cs" "\<not> jw_pending w2"
    using w1(1,2) by (cases "jw_pending w") auto
  obtain bl cs1 cs2 where r: "cs = cs1 @ cs2" "full_blocks bl cs1" "list_all chunk_ok cs2"
    "take (jw_j w2) (jw_buf w2) = enc_chunks cs2" "content s = bl @ take (jw_written w2) (jw_buf w2)"
    and l: "jw_written w2 \<le> jw_j w2" "jw_j w2 \<le> block_size" "length (jw_buf w2) = block_size"
    using w2(2) by (auto simp: buffered_def)
  obtain er s' where w: "io_write io (byte_slice (jw_written w2) (jw_j w2) (jw_buf w2)) s = (er, s')" by fastforce
  from write_ok [OF assms(1) w] have s': "er = None" "good s'"
    "content s' = content s @ byte_slice (jw_written w2) (jw_j w2) (jw_buf w2)" by simp_all
  have "take (jw_written w2) (jw_buf w2) @ byte_slice (jw_written w2) (jw_j w2) (jw_buf w2) = take (jw_j w2) (jw_buf w2)"
    using l by (simp add: byte_slice_def flip: take_add)
  then have c: "content s' = bl @ enc_chunks cs2" "content s' = bl @ take (jw_j w2) (jw_buf w2)"
    using s'(3) r(4,5) by simp_all
  have "length (enc_chunks cs2) \<le> block_size" using arg_cong [OF r(4), of length] l by simp
  from full_blocks_stream [OF r(2) encs_stream [OF r(3) this]]
  have j: "journal_of (content s') (finished recs cur)"
    using c(1) r(1) w1(3) by (auto simp: journal_of_def)
  let ?w = "w2\<lparr>jw_err := None, jw_written := jw_j w2\<rparr>"
  have "buffered ?w (content s') (jw_j w2) cs"
    using r l c(2) unfolding buffered_def
    by (intro conjI exI [of _ bl] exI [of _ cs1] exI [of _ cs2]) simp_all
  then have "wrote ?w (content s') (finished recs cur) None"
    using w2(3) w1(3) by (auto simp: wrote_def idle_def)
  moreover have "write_pending io (w, s) = Some (?w, s')"
    unfolding write_pending_def Let_def split_conv w2(1) using e w s'(1) by simp
  ultimately show ?thesis using that s'(2) j by simp
qed

lemma jw_flush_wrote:
  assumes "good s" and "wrote w (content s) recs cur"
  obtains w' s' where "jw_flush io (w, s) = Some (None, w', s')" "good s'"
    "wrote w' (content s') (finished recs cur) None" "journal_of (content s') (finished recs cur)"
proof -
  obtain w1 s1 where w1: "write_pending io (w\<lparr>jw_seq := jw_seq w + 1\<rparr>, s) = Some (w1, s1)" "good s1"
    "jw_err w1 = None" "wrote w1 (content s1) (finished recs cur) None" "journal_of (content s1) (finished recs cur)"
    by (rule write_pending_wrote [OF assms(1), of "w\<lparr>jw_seq := jw_seq w + 1\<rparr>" recs cur]) (use assms(2) in auto)
  show ?thesis
  proof (cases "io_flush io")
    case None
    with w1 that show ?thesis by (simp add: jw_flush_def)
  next
    case (Some fl)
    obtain e s2 where f: "fl s1 = (e, s2)" by fastforce
    note fl = flush_ok [OF w1(2) Some f]
    have "w1\<lparr>jw_err := None\<rparr> = w1" using w1(3) by simp
    with w1 that Some f fl show ?thesis by (simp add: jw_flush_def Let_def)
  qed
qed

lemma jw_close_wrote:
  assumes "good s" and "wrote w (content s) recs cur"
  obtains w' s' where "jw_close io (w, s) = Some (None, w', s')" "good s'"
    "journal_of (content s') (finished recs cur)"
proof -
  obtain w1 s1 where "write_pending io (w\<lparr>jw_seq := jw_seq w + 1\<rparr>, s) = Some (w1, s1)" "good s1"
    "jw_err w1 = None" "journal_of (content s1) (finished recs cur)"
    by (rule write_pending_wrote [OF assms(1), of "w\<lparr>jw_seq := jw_seq w + 1\<rparr>" recs cur]) (use assms(2) in auto)
  with that show ?thesis by (simp add: jw_close_def)
qed

end

end
