(* ===== verification/Blob_Store.thy ===== *)
theory Blob_Store
  imports Journal_Writer
begin

text \<open>
  \<open>pkg/persistence/store.go\<close> and \<open>blobstore.go\<close>: the storage of the persister on a bucket
  of blobs. The bucket is the vendored \<open>gocloud.dev/blob\<close>, reached through a record of its
  operations; what it promises is the locale \<open>blob_bucket\<close>, and \<open>memblob\<close>, which the
  in-memory storage uses, is an instance.
\<close>

section \<open>Interfaces\<close>

text \<open>
  \<open>Storage\<close>, on its state. A writer is opened at most once at a time, so the open writer
  is part of the state; \<open>st_flush\<close> is there if that writer has a \<open>Flush\<close> method. A reader
  is what it delivers and the error it ends with, if any.
\<close>

record ('s, 'e) storage_ops =
  st_reset :: "'s \<Rightarrow> 'e option \<times> 's"
  st_writer :: "'s \<Rightarrow> 'e option \<times> 's"
  st_write :: "bytes \<Rightarrow> 's \<Rightarrow> 'e option \<times> 's"
  st_flush :: "('s \<Rightarrow> 'e option \<times> 's) option"
  st_close :: "'s \<Rightarrow> 'e option \<times> 's"
  st_reader :: "'s \<Rightarrow> 'e + bytes \<times> 'e option"
  st_string :: "'s \<Rightarrow> string"
  st_verify_access :: "'s \<Rightarrow> 'e option \<times> 's"

definition writer_io :: "('s, 'e) storage_ops \<Rightarrow> ('s, 'e) io_ops" where
  "writer_io S = \<lparr>io_write = st_write S, io_flush = st_flush S\<rparr>"

text \<open>The methods of \<open>blob.Bucket\<close> and \<open>blob.Writer\<close> that the store calls.\<close>

record ('b, 'w, 'e) bucket_ops =
  bk_exists :: "string \<Rightarrow> 'b \<Rightarrow> 'e + bool"
  bk_read_all :: "string \<Rightarrow> 'b \<Rightarrow> 'e + bytes"
  bk_write_all :: "string \<Rightarrow> bytes \<Rightarrow> 'b \<Rightarrow> 'e option \<times> 'b"
  bk_delete :: "string \<Rightarrow> 'b \<Rightarrow> 'e option \<times> 'b"
  bk_new_writer :: "string \<Rightarrow> 'b \<Rightarrow> 'e + 'w"
  bk_writer_write :: "bytes \<Rightarrow> 'w \<times> 'b \<Rightarrow> 'e option \<times> 'w \<times> 'b"
  bk_writer_close :: "'w \<times> 'b \<Rightarrow> 'e option \<times> 'b"
  bk_new_reader :: "string \<Rightarrow> 'b \<Rightarrow> 'e + bytes \<times> 'e option"

text \<open>
  \<open>blob.PrefixedBucket\<close>: every key gets the prefix; writing to the empty key is an error
  (\<open>bad_key\<close>) of its own, as the prefix would make the key valid.
\<close>

definition prefixed_bucket :: "'e \<Rightarrow> string \<Rightarrow> ('b, 'w, 'e) bucket_ops \<Rightarrow> ('b, 'w, 'e) bucket_ops" where
  "prefixed_bucket bad_key p B = B\<lparr>
     bk_exists := \<lambda>k. bk_exists B (p @ k), bk_read_all := \<lambda>k. bk_read_all B (p @ k),
     bk_write_all := \<lambda>k d b. if k = [] then (Some bad_key, b) else bk_write_all B (p @ k) d b,
     bk_delete := \<lambda>k. bk_delete B (p @ k),
     bk_new_writer := \<lambda>k b. if k = [] then Inl bad_key else bk_new_writer B (p @ k) b,
     bk_new_reader := \<lambda>k. bk_new_reader B (p @ k)\<rparr>"

section \<open>The blob store\<close>

definition verify_access_key :: string where "verify_access_key = ''accesscheck''"
definition data_key :: string where "data_key = ''jobs.snapshot''"

datatype 'e blob_error = Bucket_Error 'e | Integrity_Failed | No_Open_Writer

record ('b, 'w) blob_store =
  bs_bucket :: 'b
  bs_url :: string
  bs_writer :: "'w option"

definition lift_error :: "'e option \<Rightarrow> 'e blob_error option" where
  "lift_error e = map_option Bucket_Error e"

definition bs_reset ::
  "('b, 'w, 'e) bucket_ops \<Rightarrow> ('b, 'w) blob_store \<Rightarrow> 'e blob_error option \<times> ('b, 'w) blob_store" where
  "bs_reset B s =
     (case bk_exists B data_key (bs_bucket s) of
        Inl e \<Rightarrow> (Some (Bucket_Error e), s)
      | Inr ok \<Rightarrow>
          (if \<not> ok then (None, s)
           else let (e, b) = bk_delete B data_key (bs_bucket s) in (lift_error e, s\<lparr>bs_bucket := b\<rparr>)))"

definition bs_open_writer ::
  "('b, 'w, 'e) bucket_ops \<Rightarrow> ('b, 'w) blob_store \<Rightarrow> 'e blob_error option \<times> ('b, 'w) blob_store" where
  "bs_open_writer B s =
     (case bk_new_writer B data_key (bs_bucket s) of
        Inl e \<Rightarrow> (Some (Bucket_Error e), s)
      | Inr w \<Rightarrow> (None, s\<lparr>bs_writer := Some w\<rparr>))"

definition bs_write ::
  "('b, 'w, 'e) bucket_ops \<Rightarrow> bytes \<Rightarrow> ('b, 'w) blob_store \<Rightarrow> 'e blob_error option \<times> ('b, 'w) blob_store" where
  "bs_write B d s =
     (case bs_writer s of
        None \<Rightarrow> (Some No_Open_Writer, s)
      | Some w \<Rightarrow>
          (let (e, w1, b) = bk_writer_write B d (w, bs_bucket s)
           in (lift_error e, s\<lparr>bs_bucket := b, bs_writer := Some w1\<rparr>)))"

definition bs_close ::
  "('b, 'w, 'e) bucket_ops \<Rightarrow> ('b, 'w) blob_store \<Rightarrow> 'e blob_error option \<times> ('b, 'w) blob_store" where
  "bs_close B s =
     (case bs_writer s of
        None \<Rightarrow> (Some No_Open_Writer, s)
      | Some w \<Rightarrow>
          (let (e, b) = bk_writer_close B (w, bs_bucket s)
           in (lift_error e, s\<lparr>bs_bucket := b, bs_writer := None\<rparr>)))"

text \<open>A missing snapshot reads as an empty one.\<close>

definition bs_reader ::
  "('b, 'w, 'e) bucket_ops \<Rightarrow> ('b, 'w) blob_store \<Rightarrow> 'e blob_error + bytes \<times> 'e blob_error option" where
  "bs_reader B s =
     (case bk_exists B data_key (bs_bucket s) of
        Inl e \<Rightarrow> Inl (Bucket_Error e)
      | Inr False \<Rightarrow> Inr ([], None)
      | Inr True \<Rightarrow>
          (case bk_new_reader B data_key (bs_bucket s) of
             Inl e \<Rightarrow> Inl (Bucket_Error e)
           | Inr (d, e) \<Rightarrow> Inr (d, lift_error e)))"

text \<open>\<open>verifyAccess\<close>; \<open>now\<close> is the printed time of the check.\<close>

definition bs_verify_access ::
  "('b, 'w, 'e) bucket_ops \<Rightarrow> string \<Rightarrow> ('b, 'w) blob_store \<Rightarrow> 'e blob_error option \<times> ('b, 'w) blob_store" where
  "bs_verify_access B now s =
     (let wd = bytes_of (''access_check__'' @ now); (e, b) = bk_write_all B verify_access_key wd (bs_bucket s);
          s1 = s\<lparr>bs_bucket := b\<rparr>
      in case e of
           Some e \<Rightarrow> (Some (Bucket_Error e), s1)
         | None \<Rightarrow>
             (case bk_read_all B verify_access_key b of
                Inl e \<Rightarrow> (Some (Bucket_Error e), s1)
              | Inr rd \<Rightarrow>
                  (if wd \<noteq> rd then (Some Integrity_Failed, s1)
                   else let (e, b2) = bk_delete B verify_access_key b
                        in (lift_error e, s1\<lparr>bs_bucket := b2\<rparr>))))"

definition blob_storage ::
  "('b, 'w, 'e) bucket_ops \<Rightarrow> string \<Rightarrow> (('b, 'w) blob_store, 'e blob_error) storage_ops" where
  "blob_storage B now =
     \<lparr>st_reset = bs_reset B, st_writer = bs_open_writer B, st_write = bs_write B, st_flush = None,
      st_close = bs_close B, st_reader = bs_reader B, st_string = bs_url,
      st_verify_access = bs_verify_access B now\<rparr>"

text \<open>\<open>NewBlobStore\<close>: \<open>opened\<close> is the answer of \<open>blob.OpenBucket\<close> for the URL.\<close>

definition new_blob_store ::
  "'e \<Rightarrow> ('b, 'w, 'e) bucket_ops \<Rightarrow> string \<Rightarrow> 'e + 'b \<Rightarrow> string \<Rightarrow> 'e blob_error + ('b, 'w) blob_store" where
  "new_blob_store bad_key B url opened now =
     (case opened of
        Inl e \<Rightarrow> Inl (Bucket_Error e)
      | Inr b \<Rightarrow>
          (case bs_verify_access (prefixed_bucket bad_key ''journal/'' B) now
                  \<lparr>bs_bucket = b, bs_url = url, bs_writer = None\<rparr> of
             (Some e, s) \<Rightarrow> Inl e
           | (None, s) \<Rightarrow> Inr s))"

section \<open>What a bucket promises\<close>

text \<open>
  The documented behaviour of a bucket in which nothing fails: \<open>blobs\<close> are the blobs that
  can be read, \<open>pend\<close> is what a writer that is open
  (\<open>writing\<close>) has got so far. A blob that is being written is
  readable only after \<open>Close\<close>; until then the previous one is.
\<close>

locale blob_bucket =
  fixes B :: "('b, 'w, 'e) bucket_ops"
    and blobs :: "'b \<Rightarrow> string \<Rightarrow> bytes option"
    and pend :: "'w \<Rightarrow> string \<times> bytes"
    and writing :: "'w \<Rightarrow> bool"
  assumes exists_ok: "bk_exists B k b = Inr (blobs b k \<noteq> None)"
    and read_all_ok: "blobs b k = Some d \<Longrightarrow> bk_read_all B k b = Inr d"
    and write_all_ok: "k \<noteq> [] \<Longrightarrow> bk_write_all B k d b = (e, b') \<Longrightarrow> e = None \<and> blobs b' = (blobs b)(k \<mapsto> d)"
    and delete_ok: "blobs b k \<noteq> None \<Longrightarrow> bk_delete B k b = (e, b') \<Longrightarrow> e = None \<and> blobs b' = (blobs b)(k := None)"
    and new_writer_ok: "k \<noteq> [] \<Longrightarrow> \<exists>w. bk_new_writer B k b = Inr w \<and> writing w \<and> pend w = (k, [])"
    and writer_write_ok: "writing w \<Longrightarrow> bk_writer_write B d (w, b) = (e, w', b') \<Longrightarrow>
      e = None \<and> writing w' \<and> pend w' = (fst (pend w), snd (pend w) @ d) \<and> blobs b' = blobs b"
    and writer_close_ok: "writing w \<Longrightarrow> bk_writer_close B (w, b) = (e, b') \<Longrightarrow>
      e = None \<and> blobs b' = (blobs b)(fst (pend w) \<mapsto> snd (pend w))"
    and new_reader_ok: "blobs b k = Some d \<Longrightarrow> bk_new_reader B k b = Inr (d, None)"
begin

text \<open>A store with an open writer, and what that writer has got.\<close>

definition store_open :: "('b, 'w) blob_store \<Rightarrow> bool" where
  "store_open s \<longleftrightarrow> (\<exists>w. bs_writer s = Some w \<and> writing w \<and> fst (pend w) = data_key)"

definition store_content :: "('b, 'w) blob_store \<Rightarrow> bytes" where
  "store_content s = (case bs_writer s of None \<Rightarrow> [] | Some w \<Rightarrow> snd (pend w))"

lemma data_key_nonempty: "data_key \<noteq> []" "verify_access_key \<noteq> []" "verify_access_key \<noteq> data_key"
  by (simp_all add: data_key_def verify_access_key_def)

lemma open_writer_ok:
  obtains s' where "bs_open_writer B s = (None, s')" "store_open s'" "store_content s' = []"
    "bs_bucket s' = bs_bucket s"
proof -
  obtain w where "bk_new_writer B data_key (bs_bucket s) = Inr w" "writing w" "pend w = (data_key, [])"
    using new_writer_ok data_key_nonempty(1) by blast
  with that [of "s\<lparr>bs_writer := Some w\<rparr>"] show ?thesis
    by (simp add: bs_open_writer_def store_open_def store_content_def)
qed

lemma close_ok:
  assumes "store_open s"
  obtains s' where "bs_close B s = (None, s')"
    "blobs (bs_bucket s') = (blobs (bs_bucket s))(data_key \<mapsto> store_content s)"
proof -
  obtain w where w: "bs_writer s = Some w" "writing w" "fst (pend w) = data_key"
    using assms by (auto simp: store_open_def)
  obtain e b where c: "bk_writer_close B (w, bs_bucket s) = (e, b)" by fastforce
  from writer_close_ok [OF w(2) c] w c that [of "s\<lparr>bs_bucket := b, bs_writer := None\<rparr>"] show ?thesis
    by (simp add: bs_close_def lift_error_def store_content_def)
qed

lemma reader_ok:
  "bs_reader B s = Inr (case blobs (bs_bucket s) data_key of None \<Rightarrow> ([], None) | Some d \<Rightarrow> (d, None))"
  by (auto simp: bs_reader_def exists_ok new_reader_ok lift_error_def split: option.splits bool.splits)

text \<open>The check at the start finds the store good and leaves no blob behind.\<close>

lemma verify_access_ok:
  obtains s' where "bs_verify_access B now s = (None, s')"
    "blobs (bs_bucket s') = (blobs (bs_bucket s))(verify_access_key := None)"
    "bs_url s' = bs_url s" "bs_writer s' = bs_writer s"
proof -
  let ?wd = "bytes_of (''access_check__'' @ now)"
  obtain e b where w: "bk_write_all B verify_access_key ?wd (bs_bucket s) = (e, b)" by fastforce
  note wo = write_all_ok [OF data_key_nonempty(2) w]
  then have k: "blobs b verify_access_key = Some ?wd" by simp
  obtain e2 b2 where d: "bk_delete B verify_access_key b = (e2, b2)" by fastforce
  have "e2 = None \<and> blobs b2 = (blobs b)(verify_access_key := None)"
    by (rule delete_ok [OF _ d]) (simp add: k)
  with that [of "s\<lparr>bs_bucket := b2\<rparr>"] w wo d read_all_ok [OF k] show ?thesis
    by (simp add: bs_verify_access_def Let_def lift_error_def)
qed

lemma reset_ok:
  obtains s' where "bs_reset B s = (None, s')" "blobs (bs_bucket s') = (blobs (bs_bucket s))(data_key := None)"
proof (cases "blobs (bs_bucket s) data_key = None")
  case True
  with that [of s] show ?thesis by (simp add: bs_reset_def exists_ok fun_upd_idem)
next
  case False
  obtain e b where d: "bk_delete B data_key (bs_bucket s) = (e, b)" by fastforce
  from delete_ok [OF False d] d False that [of "s\<lparr>bs_bucket := b\<rparr>"] show ?thesis
    by (simp add: bs_reset_def exists_ok lift_error_def)
qed

end

sublocale blob_bucket \<subseteq> sink: byte_sink "writer_io (blob_storage B now)"
  "\<lambda>s. store_open s \<and> blobs (bs_bucket s) = b0" store_content for now b0
proof
  fix s b e s'
  assume s: "store_open s \<and> blobs (bs_bucket s) = b0"
    and w: "io_write (writer_io (blob_storage B now)) b s = (e, s')"
  then obtain w where o: "bs_writer s = Some w" "writing w" "fst (pend w) = data_key" by (auto simp: store_open_def)
  obtain e1 w1 b1 where r: "bk_writer_write B b (w, bs_bucket s) = (e1, w1, b1)" by (cases "bk_writer_write B b (w, bs_bucket s)")
  from writer_write_ok [OF o(2) r] s w o r
  show "e = None \<and> (store_open s' \<and> blobs (bs_bucket s') = b0) \<and> store_content s' = store_content s @ b"
    by (auto simp: writer_io_def blob_storage_def bs_write_def lift_error_def store_open_def store_content_def)
qed (simp add: writer_io_def blob_storage_def)

section \<open>The bucket in memory\<close>

text \<open>
  \<open>gocloud.dev/blob/memblob\<close> behind \<open>blob.Bucket\<close>: a map of blobs; a writer is its key and
  its buffer, which \<open>Close\<close> puts into the map. An empty key is invalid. Attributes of the
  blobs are left out, and the content of a blob is the bytes written.
\<close>

type_synonym mem_blobs = "string \<Rightarrow> bytes option"
type_synonym mem_writer = "string \<times> bytes"

datatype mem_error = Not_Found | Invalid_Key

definition mem_bucket :: "(mem_blobs, mem_writer, mem_error) bucket_ops" where
  "mem_bucket =
     \<lparr>bk_exists = \<lambda>k b. Inr (b k \<noteq> None),
      bk_read_all = \<lambda>k b. case b k of None \<Rightarrow> Inl Not_Found | Some d \<Rightarrow> Inr d,
      bk_write_all = \<lambda>k d b. if k = [] then (Some Invalid_Key, b) else (None, b(k \<mapsto> d)),
      bk_delete = \<lambda>k b. if b k = None then (Some Not_Found, b) else (None, b(k := None)),
      bk_new_writer = \<lambda>k b. if k = [] then Inl Invalid_Key else Inr (k, []),
      bk_writer_write = \<lambda>d (w, b). (None, (fst w, snd w @ d), b),
      bk_writer_close = \<lambda>(w, b). (None, b(fst w \<mapsto> snd w)),
      bk_new_reader = \<lambda>k b. case b k of None \<Rightarrow> Inl Not_Found | Some d \<Rightarrow> Inr (d, None)\<rparr>"

interpretation mem: blob_bucket mem_bucket "\<lambda>b. b" "\<lambda>w. w" "\<lambda>w. True"
  by unfold_locales (auto simp: mem_bucket_def split: if_splits)

text \<open>The bucket that \<open>InMemStorage\<close> works on, with its keys under \<open>journal/\<close>.\<close>

definition journal_bucket :: "(mem_blobs, mem_writer, mem_error) bucket_ops" where
  "journal_bucket = prefixed_bucket Invalid_Key ''journal/'' mem_bucket"

definition journal_blobs :: "mem_blobs \<Rightarrow> string \<Rightarrow> bytes option" where
  "journal_blobs b k = b (''journal/'' @ k)"

definition journal_prefix :: string where "journal_prefix = ''journal/''"

lemma journal_blobs_upd [simp]: "journal_blobs (b(journal_prefix @ k := x)) = (journal_blobs b)(k := x)"
  by (simp add: journal_blobs_def journal_prefix_def fun_eq_iff)

lemma journal_bucket_ops:
  "bk_exists journal_bucket k b = Inr (journal_blobs b k \<noteq> None)"
  "bk_read_all journal_bucket k b = (case journal_blobs b k of None \<Rightarrow> Inl Not_Found | Some d \<Rightarrow> Inr d)"
  "bk_write_all journal_bucket k d b = (if k = [] then (Some Invalid_Key, b) else (None, b(journal_prefix @ k \<mapsto> d)))"
  "bk_delete journal_bucket k b =
     (if journal_blobs b k = None then (Some Not_Found, b) else (None, b(journal_prefix @ k := None)))"
  "bk_new_writer journal_bucket k b = (if k = [] then Inl Invalid_Key else Inr (journal_prefix @ k, []))"
  "bk_writer_write journal_bucket d (w, b) = (None, (fst w, snd w @ d), b)"
  "bk_writer_close journal_bucket (w, b) = (None, b(fst w \<mapsto> snd w))"
  "bk_new_reader journal_bucket k b = (case journal_blobs b k of None \<Rightarrow> Inl Not_Found | Some d \<Rightarrow> Inr (d, None))"
  by (simp_all add: journal_bucket_def prefixed_bucket_def mem_bucket_def journal_blobs_def journal_prefix_def)

interpretation jmem: blob_bucket journal_bucket journal_blobs
  "\<lambda>w. (drop (length journal_prefix) (fst w), snd w)" "\<lambda>w. take (length journal_prefix) (fst w) = journal_prefix"
proof unfold_locales
  fix w :: mem_writer and b e b'
  assume t: "take (length journal_prefix) (fst w) = journal_prefix"
    and c: "bk_writer_close journal_bucket (w, b) = (e, b')"
  obtain k where k: "fst w = journal_prefix @ k" using t by (metis append_take_drop_id)
  have "e = None" "b' = b(journal_prefix @ k \<mapsto> snd w)" using c k by (simp_all add: journal_bucket_ops)
  then show "e = None \<and> journal_blobs b' = (journal_blobs b)
      (fst (drop (length journal_prefix) (fst w), snd w) \<mapsto> snd (drop (length journal_prefix) (fst w), snd w))"
    using k by simp
qed (auto simp: journal_bucket_ops)

text \<open>\<open>InMemStorage\<close>: every call opens a bucket of its own.\<close>

definition in_mem_storage :: "string \<Rightarrow> mem_error blob_error + (mem_blobs, mem_writer) blob_store" where
  "in_mem_storage now = new_blob_store Invalid_Key mem_bucket ''mem:'' (Inr (\<lambda>_. None)) now"

end
