(* ===== verification/Hub_Filter.thy ===== *)
theory Hub_Filter
  imports Hub_Steps Cuckoo_Filter
begin

text \<open>
  What the membership filter brings to the hub, proved from its contract: no two jobs of one
  id, and every held job found by its id, along every run in which no insertion into the
  filter fails and no call cancels an id the hub does not hold but the filter claims to
  know. The last lemma is what happens otherwise.
\<close>

definition hub_filtered ::
  "('f \<Rightarrow> bool) \<Rightarrow> ('f \<Rightarrow> 'c multiset) \<Rightarrow> (string \<Rightarrow> 'c) \<Rightarrow> 'f hub \<Rightarrow> bool" where
  "hub_filtered valid content cls h \<longleftrightarrow> hub_wf h \<and> hub_mapped h \<and>
     filter_covers valid content cls (job_filter_state h) (hub_ids h) \<and>
     (\<forall>x. count (hub_ids h) x \<le> 1)"

text \<open>
  The two things that can go wrong with one call: the filter has no room for the id of a job
  that is taken in, or a cancel is for an id that only the filter claims to know.
\<close>

fun clean_op :: "'f filter_ops \<Rightarrow> hub_op \<Rightarrow> 'f hub \<Rightarrow> bool" where
  "clean_op F (OpAdd rank now j) h \<longleftrightarrow>
     (fst (hub_add F rank now j h) = None \<longrightarrow> fst (f_insert F (job_id j) (job_filter_state h)))"
| "clean_op F (OpNext clk) h \<longleftrightarrow> True"
| "clean_op F (OpCancel rank jid) h \<longleftrightarrow>
     (f_lookup F jid (job_filter_state h) \<longrightarrow> find_owner_spoke rank jid h \<noteq> Inl ErrNoOwnerSpoke)"

fun clean_run :: "'f filter_ops \<Rightarrow> hub_op list \<Rightarrow> 'f hub \<Rightarrow> bool" where
  "clean_run F [] h \<longleftrightarrow> True"
| "clean_run F (op # ops) h \<longleftrightarrow> clean_op F op h \<and>
     (case hub_do F op h of None \<Rightarrow> True | Some (r, h1) \<Rightarrow> clean_run F ops h1)"

lemma hub_ids_owned:
  assumes "hub_wf h" and "hub_mapped h"
  shows "jid \<in># hub_ids h \<longleftrightarrow> (\<exists>a \<in> set (live h). owns_job jid (spoke_at h a))"
proof
  assume "jid \<in># hub_ids h"
  then obtain j where "job_id j = jid" "j \<in># hub_jobs h" by (auto simp: hub_ids_def)
  then obtain a where "a \<in> set (live h)" "jid \<in> spoke_ids (spoke_at h a)"
    using hub_jobs_where by (force simp: spoke_ids_def)
  then show "\<exists>a \<in> set (live h). owns_job jid (spoke_at h a)"
    using live_inv [OF assms(1)] assms(2) spoke_mapped_owns by (auto simp: hub_mapped_def)
next
  assume "\<exists>a \<in> set (live h). owns_job jid (spoke_at h a)"
  then show "jid \<in># hub_ids h"
    using owns_job_ids [OF live_inv [OF assms(1)]] spoke_ids_hub by blast
qed

lemma hub_ids_add: "hub_jobs h' = add_mset j (hub_jobs h) \<Longrightarrow> hub_ids h' = add_mset (job_id j) (hub_ids h)"
  by (simp add: hub_ids_def)

lemma distinct_add: "\<forall>x. count M x \<le> 1 \<Longrightarrow> y \<notin># M \<Longrightarrow> \<forall>x. count (add_mset y M) x \<le> 1"
  by (simp add: not_in_iff)

lemma distinct_sub: "\<forall>x. count (add_mset y M) x \<le> 1 \<Longrightarrow> \<forall>x. count M x \<le> 1 \<and> y \<notin># M"
  by (metis count_add_mset le_SucI not_in_iff Suc_le_mono One_nat_def le_zero_eq)

context job_filter
begin

abbreviation filtered :: "'f hub \<Rightarrow> bool" where
  "filtered \<equiv> hub_filtered valid content cls"

lemma filteredD:
  assumes "filtered h"
  shows filtered_wf: "hub_wf h" and filtered_mapped: "hub_mapped h"
    and filtered_covers: "covers (job_filter_state h) (hub_ids h)"
    and filtered_valid: "valid (job_filter_state h)"
    and filtered_distinct: "\<forall>x. count (hub_ids h) x \<le> 1"
    and filtered_owned: "jid \<in># hub_ids h \<longleftrightarrow> (\<exists>a \<in> set (live h). owns_job jid (spoke_at h a))"
  using assms hub_ids_owned by (auto simp: hub_filtered_def filter_covers_def)

lemma new_hub_filtered: "valid f \<Longrightarrow> filtered (new_hub f span now1 now2)"
  by (simp add: hub_filtered_def new_hub_wf new_hub_mapped filter_covers_def hub_ids_def new_hub_jobs)
    (simp add: new_hub_def)

lemma filtered_lookup: "filtered h \<Longrightarrow> jid \<in># hub_ids h \<Longrightarrow> f_lookup F jid (job_filter_state h)"
  using covers_lookup filtered_covers by blast

lemma add_known:
  assumes "filtered h" and "job_id j \<in># hub_ids h"
  shows "hub_add F rank now j h = (Some (ErrDuplicateJob (job_id j)), h)"
proof -
  have "f_lookup F (job_id j) (job_filter_state h)" using assms by (rule filtered_lookup)
  moreover have "\<exists>a \<in> set (live h). owns_job (job_id j) (spoke_at h a)"
    using assms filtered_owned by blast
  ultimately show ?thesis
    by (cases rule: find_owner_cases [OF filtered_wf [OF assms(1)], of rank "job_id j"])
      (auto simp: hub_add_def)
qed

lemma add_unknown:
  assumes f: "filtered h" and new: "job_id j \<notin># hub_ids h"
    and ins: "f_insert F (job_id j) (job_filter_state h) = (True, f')" and ok: "accepts now j h"
  shows "\<exists>h'. hub_add F rank now j h = (None, h') \<and> filtered h' \<and>
    hub_jobs h' = add_mset j (hub_jobs h)"
proof (cases rule: hub_add_cases [OF filtered_wf [OF f], of F rank now j])
  case (1 a)
  then show ?thesis using filtered_owned [OF f] new by blast
next
  case 2
  then show ?thesis using ok by simp
next
  case (3 ok h')
  have "covers (job_filter_state h') (add_mset (job_id j) (hub_ids h))"
    using covers_insert [OF filtered_covers [OF f] ins] 3(3) ins by simp
  moreover have "hub_mapped h'" using 3(8) filtered_mapped [OF f] new by blast
  ultimately have "filtered h'"
    using 3(5) distinct_add [OF filtered_distinct [OF f] new]
    unfolding hub_filtered_def hub_ids_add [OF 3(6)] by blast
  with 3 show ?thesis by blast
qed

lemma delete_filtered:
  assumes f: "filtered h" and jobs: "hub_jobs h = add_mset j (hub_jobs h')"
    and "hub_wf h'" "hub_mapped h'"
    and del: "f_delete F (job_id j) (job_filter_state h) = (ok, job_filter_state h')"
  shows "filtered h'" and "job_id j \<notin># hub_ids h'" and ok
proof -
  note ids = hub_ids_add [OF jobs]
  from filtered_covers [OF f] have "covers (job_filter_state h) (add_mset (job_id j) (hub_ids h'))"
    by (simp add: ids)
  from covers_delete [OF this del] have c: "ok" "covers (job_filter_state h') (hub_ids h')" by simp_all
  then show ok by simp
  have d: "\<forall>x. count (hub_ids h') x \<le> 1 \<and> job_id j \<notin># hub_ids h'"
    by (rule distinct_sub [OF filtered_distinct [OF f, unfolded ids]])
  then show "job_id j \<notin># hub_ids h'" by simp
  show "filtered h'" using assms c d by (simp add: hub_filtered_def)
qed

lemma next_filtered:
  assumes f: "filtered h" and n: "hub_next F clk h = Some (r, h')"
  shows "filtered h'"
proof (cases rule: hub_next_cases [OF filtered_wf [OF f], of F clk])
  case (1 h1)
  then show ?thesis using f n by (auto simp: hub_filtered_def jobs_kept_def hub_ids_def)
next
  case (2 j h1 ok)
  from 2(1) n have "h1 = h'" by simp
  then show ?thesis using delete_filtered(1) [OF f 2(4,3) 2(6) 2(8)] filtered_mapped [OF f] by simp
qed

lemma cancel_known:
  assumes f: "filtered h" and known: "jid \<in># hub_ids h"
  shows "\<exists>j h'. hub_cancel F rank jid h = Some (Inr (Some j), h') \<and> job_id j = jid \<and>
    hub_jobs h = add_mset j (hub_jobs h') \<and> filtered h' \<and> jid \<notin># hub_ids h'"
proof (cases rule: hub_cancel_cases [OF filtered_wf [OF f], of F rank jid])
  case 1
  then show ?thesis using filtered_lookup [OF f known] by simp
next
  case (2 ok h')
  then show ?thesis using filtered_owned [OF f] known by blast
next
  case (3 j ok h')
  then have "f_delete F (job_id j) (job_filter_state h) = (ok, job_filter_state h')" by simp
  from delete_filtered [OF f 3(5,4) _ this] 3 filtered_mapped [OF f] show ?thesis by auto
qed

lemma cancel_unknown:
  assumes f: "filtered h" and unknown: "jid \<notin># hub_ids h"
  shows "\<exists>h'. hub_cancel F rank jid h = Some (Inr None, h') \<and> hub_jobs h' = hub_jobs h \<and>
    (\<not> f_lookup F jid (job_filter_state h) \<longrightarrow> h' = h)"
proof (cases rule: hub_cancel_cases [OF filtered_wf [OF f], of F rank jid])
  case (2 ok h')
  then have "hub_jobs h' = hub_jobs h" by (metis hub_jobs_update(1))
  with 2 show ?thesis by auto
next
  case (3 j ok h')
  then show ?thesis using unknown by (simp add: hub_ids_def)
qed simp

lemma clean_do:
  assumes f: "filtered h" and clean: "clean_op F op h" and do: "hub_do F op h = Some (r, h')"
  shows "filtered h'"
proof (cases op)
  case (OpAdd rank now j)
  with do obtain e where e: "hub_add F rank now j h = (e, h')"
    by (auto split: prod.splits)
  show ?thesis
  proof (cases "job_id j \<in># hub_ids h")
    case True
    then show ?thesis using add_known [OF f] e f by simp
  next
    case False
    show ?thesis
    proof (cases "e = None")
      case True
      obtain f' where "f_insert F (job_id j) (job_filter_state h) = (True, f')"
        using clean OpAdd e True by (metis clean_op.simps(1) fst_conv prod.collapse)
      from add_unknown [OF f \<open>job_id j \<notin># hub_ids h\<close> this, of now rank] e f show ?thesis
        by (cases rule: hub_add_cases [OF filtered_wf [OF f], of F rank now j]) auto
    next
      case False
      then show ?thesis
        using e f by (cases rule: hub_add_cases [OF filtered_wf [OF f], of F rank now j]) auto
    qed
  qed
next
  case (OpNext clk)
  with do show ?thesis using next_filtered [OF f] by auto
next
  case (OpCancel rank jid)
  with do obtain r' where r': "hub_cancel F rank jid h = Some (r', h')" by auto
  show ?thesis
  proof (cases "jid \<in># hub_ids h")
    case True
    then show ?thesis using cancel_known [OF f True, of rank] r' by auto
  next
    case False
    then have "find_owner_spoke rank jid h = Inl ErrNoOwnerSpoke"
      by (cases rule: find_owner_cases [OF filtered_wf [OF f], of rank jid])
        (use filtered_owned [OF f] in auto)
    then have "\<not> f_lookup F jid (job_filter_state h)" using clean OpCancel by simp
    then show ?thesis using cancel_unknown [OF f False, of rank] r' f by auto
  qed
qed

lemma clean_run_filtered:
  "filtered h \<Longrightarrow> clean_run F ops h \<Longrightarrow> hub_run F ops h = Some (rs, h') \<Longrightarrow> filtered h'"
proof (induction ops arbitrary: h rs)
  case (Cons op ops)
  then obtain r h1 rs' where "hub_do F op h = Some (r, h1)" "hub_run F ops h1 = Some (rs', h')"
    by (auto split: option.splits prod.splits)
  with Cons.IH [of h1 rs'] Cons.prems clean_do [OF Cons.prems(1), of op r h1] show ?case by simp
qed simp

text \<open>
  Cancelling an id \<open>d\<close> the hub does not hold, whose entry in the filter collides with the
  only entry of a held job: the call answers like any idempotent cancel, but afterwards the
  held job can no longer be cancelled, and a second job of its id is taken in.
\<close>

lemma cancel_breaks:
  assumes f: "filtered h" and e: "job_id j \<in># hub_ids h" and d: "d \<notin># hub_ids h"
    and coll: "cls d = cls (job_id j)" and one: "count (content (job_filter_state h)) (cls (job_id j)) = 1"
    and ok: "accepts now j h"
  shows "\<exists>h1. hub_cancel F rank d h = Some (Inr None, h1) \<and> hub_jobs h1 = hub_jobs h \<and>
    hub_cancel F rank (job_id j) h1 = Some (Inr None, h1) \<and>
    (\<exists>h2. hub_add F rank now j h1 = (None, h2) \<and> hub_jobs h2 = add_mset j (hub_jobs h))"
proof -
  have l: "f_lookup F d (job_filter_state h)"
    using filtered_lookup [OF f e] lookup_iff [OF filtered_valid [OF f]] coll by simp
  have own: "\<And>a. a \<in> set (live h) \<Longrightarrow> \<not> owns_job d (spoke_at h a)"
    using filtered_owned [OF f] d by blast
  show ?thesis
  proof (cases rule: hub_cancel_cases [OF filtered_wf [OF f], of F rank d])
    case 1
    then show ?thesis using l by simp
  next
    case (2 ok' h1)
    obtain g where h1: "h1 = h\<lparr>job_filter_state := g\<rparr>" using 2(2) by blast
    have wf1: "hub_wf h1" using filtered_wf [OF f] by (simp add: h1)
    have nl: "\<not> f_lookup F (job_id j) (job_filter_state h1)"
      using delete_collision [OF filtered_valid [OF f] coll one 2(4)] by simp
    have "accepts now j h1" using ok by (simp add: accepts_def h1)
    with nl have "\<exists>h2. hub_add F rank now j h1 = (None, h2) \<and> hub_jobs h2 = add_mset j (hub_jobs h1)"
      by (cases rule: hub_add_cases [OF wf1, of F rank now j]) auto
    moreover have "hub_cancel F rank (job_id j) h1 = Some (Inr None, h1)"
      using nl by (simp add: hub_cancel_def)
    moreover have "hub_jobs h1 = hub_jobs h" by (simp add: h1)
    ultimately show ?thesis using 2(1) by auto
  next
    case (3 k ok' h')
    then show ?thesis using d by (simp add: hub_ids_def)
  qed
qed

end

end
