(* ===== verification/Gob.thy ===== *)
theory Gob
  imports Chrono_Prelude
begin

unbundle bit_operations_syntax

text \<open>
  What the program uses of the Go package \<open>encoding/gob\<close>: an encoder that is given
  strings, byte slices and signed integers one after the other, and a decoder that reads
  them back. Each \<open>Encode\<close> writes one message: its length, the number of the basic type,
  a zero byte (the value is not a field of a struct) and the value. Numbers of at most 7
  bits are one byte, larger ones a negated byte count and their big-endian bytes; a signed
  number is shifted left by one and complemented when negative.
\<close>

section \<open>Numbers\<close>

fun be_bytes :: "nat \<Rightarrow> bytes" where
  "be_bytes n = (if n < 256 then [word_of_nat n] else be_bytes (n div 256) @ [word_of_nat (n mod 256)])"

declare be_bytes.simps [simp del]

definition be_value :: "bytes \<Rightarrow> nat" where
  "be_value bs = foldl (\<lambda>x b. x * 256 + unat b) 0 bs"

definition enc_uint :: "nat \<Rightarrow> bytes" where
  "enc_uint x =
     (if x \<le> 127 then [word_of_nat x]
      else let bs = be_bytes x in word_of_nat (256 - length bs) # bs)"

definition enc_int :: "64 word \<Rightarrow> bytes" where
  "enc_int i =
     enc_uint (unat (if sint i < 0 then push_bit 1 (NOT i) OR 1 else push_bit 1 i))"

section \<open>Errors\<close>

text \<open>The callers only tell \<open>io.EOF\<close> from the other errors.\<close>

datatype gob_error = GobEOF | GobError

text \<open>\<open>decodeUintReader\<close>: the value and the bytes left.\<close>

definition dec_uint :: "bytes \<Rightarrow> gob_error + nat \<times> bytes" where
  "dec_uint bs =
     (case bs of
        [] \<Rightarrow> Inl GobEOF
      | b # r \<Rightarrow>
          (if unat b \<le> 127 then Inr (unat b, r)
           else let n = 256 - unat b
                in if 8 < n \<or> length r < n then Inl GobError
                   else Inr (be_value (take n r), drop n r)))"

definition to_int :: "64 word \<Rightarrow> 64 word" where
  "to_int x = (if x AND 1 \<noteq> 0 then NOT (drop_bit 1 x) else drop_bit 1 x)"

definition dec_int :: "bytes \<Rightarrow> gob_error + 64 word \<times> bytes" where
  "dec_int bs = map_sum id (\<lambda>(x, r). (to_int (word_of_nat x), r)) (dec_uint bs)"

section \<open>Messages\<close>

definition too_big :: nat where
  "too_big = 2 ^ 33"

definition enc_message :: "64 word \<Rightarrow> bytes \<Rightarrow> gob_error + bytes" where
  "enc_message tid val =
     (let m = enc_int tid @ enc_uint 0 @ val
      in if too_big \<le> length m then Inl GobError else Inr (enc_uint (length m) @ m))"

definition int_type :: "64 word" where "int_type = 2"
definition bytes_type :: "64 word" where "bytes_type = 5"
definition string_type :: "64 word" where "string_type = 6"

definition enc_int_val :: "64 word \<Rightarrow> gob_error + bytes" where
  "enc_int_val i = enc_message int_type (enc_int i)"

definition enc_bytes_val :: "bytes \<Rightarrow> gob_error + bytes" where
  "enc_bytes_val bs = enc_message bytes_type (enc_uint (length bs) @ bs)"

definition enc_string_val :: "bytes \<Rightarrow> gob_error + bytes" where
  "enc_string_val bs = enc_message string_type (enc_uint (length bs) @ bs)"

text \<open>
  The start of every \<open>Decode\<close>: the next message, whose type has to be \<open>tid\<close> and whose
  singleton mark has to be zero. The result is the rest of the message and the rest of the
  input.
\<close>

definition dec_message :: "64 word \<Rightarrow> bytes \<Rightarrow> gob_error + bytes \<times> bytes" where
  "dec_message tid bs =
     (case dec_uint bs of
        Inl e \<Rightarrow> Inl e
      | Inr (n, r) \<Rightarrow>
          (if too_big \<le> n \<or> length r < n then Inl GobError
           else case dec_int (take n r) of
             Inl e \<Rightarrow> Inl e
           | Inr (t, m) \<Rightarrow>
               (if t \<noteq> tid then Inl GobError
                else case dec_uint m of
                  Inl e \<Rightarrow> Inl e
                | Inr (z, v) \<Rightarrow> if z \<noteq> 0 then Inl GobError else Inr (v, drop n r))))"

definition dec_int_val :: "bytes \<Rightarrow> gob_error + 64 word \<times> bytes" where
  "dec_int_val bs =
     (case dec_message int_type bs of
        Inl e \<Rightarrow> Inl e
      | Inr (m, r) \<Rightarrow> (case dec_int m of Inl e \<Rightarrow> Inl e | Inr (i, _) \<Rightarrow> Inr (i, r)))"

text \<open>Into an \<open>int32\<close>: a value out of range is an error.\<close>

definition dec_int32_val :: "bytes \<Rightarrow> gob_error + 32 word \<times> bytes" where
  "dec_int32_val bs =
     (case dec_int_val bs of
        Inl e \<Rightarrow> Inl e
      | Inr (i, r) \<Rightarrow>
          (if sint i < - (2 ^ 31) \<or> 2 ^ 31 \<le> sint i then Inl GobError
           else Inr (word_of_int (sint i), r)))"

definition dec_blob :: "64 word \<Rightarrow> bytes \<Rightarrow> gob_error + bytes \<times> bytes" where
  "dec_blob tid bs =
     (case dec_message tid bs of
        Inl e \<Rightarrow> Inl e
      | Inr (m, r) \<Rightarrow>
          (case dec_uint m of
             Inl e \<Rightarrow> Inl e
           | Inr (n, v) \<Rightarrow> if length v < n then Inl GobError else Inr (take n v, r)))"

definition dec_bytes_val :: "bytes \<Rightarrow> gob_error + bytes \<times> bytes" where
  "dec_bytes_val = dec_blob bytes_type"

definition dec_string_val :: "bytes \<Rightarrow> gob_error + bytes \<times> bytes" where
  "dec_string_val = dec_blob string_type"

section \<open>Round trips\<close>

lemma be_value_snoc: "be_value (bs @ [b]) = be_value bs * 256 + unat b"
  by (simp add: be_value_def)

lemma unat_byte: "n < 256 \<Longrightarrow> unat (word_of_nat n :: 8 word) = n"
  by (simp add: unsigned_of_nat take_bit_nat_eq_self)

lemma be_value_bytes: "be_value (be_bytes n) = n"
proof (induction n rule: be_bytes.induct)
  case (1 n)
  show ?case
  proof (cases "n < 256")
    case True
    then show ?thesis by (subst be_bytes.simps) (simp add: be_value_def unat_byte)
  next
    case False
    then show ?thesis
      using 1 by (subst be_bytes.simps) (simp add: be_value_snoc unat_byte)
  qed
qed

lemma be_bytes_length: "n < 256 ^ k \<Longrightarrow> 0 < k \<Longrightarrow> length (be_bytes n) \<le> k \<and> be_bytes n \<noteq> []"
proof (induction n arbitrary: k rule: be_bytes.induct)
  case (1 n)
  show ?case
  proof (cases "n < 256")
    case True
    then show ?thesis using 1(3) by (subst be_bytes.simps, subst (2) be_bytes.simps) simp
  next
    case False
    with 1(2,3) obtain m where k: "k = Suc m" "0 < m" by (cases k; cases "k - 1") auto
    then have "n div 256 < 256 ^ m" using 1(2) by (simp add: div_less_iff_less_mult mult.commute)
    with 1(1) [OF False this k(2)] False k show ?thesis
      by (subst be_bytes.simps, subst (2) be_bytes.simps) simp
  qed
qed

lemma dec_enc_uint:
  assumes "x < 2 ^ 64"
  shows "dec_uint (enc_uint x @ r) = Inr (x, r)"
proof (cases "x \<le> 127")
  case True
  then show ?thesis by (simp add: enc_uint_def dec_uint_def unat_byte)
next
  case False
  have "x < 256 ^ 8" using assms by simp
  from be_bytes_length [OF this] have l: "length (be_bytes x) \<le> 8" "0 < length (be_bytes x)" by auto
  then have "unat (word_of_nat (256 - length (be_bytes x)) :: 8 word) = 256 - length (be_bytes x)"
    by (intro unat_byte) simp
  with l False show ?thesis
    by (simp add: enc_uint_def dec_uint_def Let_def be_value_bytes)
qed

lemma enc_uint_length: "x < 2 ^ 64 \<Longrightarrow> length (enc_uint x) \<le> 9"
  using be_bytes_length [of x 8] by (auto simp: enc_uint_def Let_def)

text \<open>Shifting a word without top bit, and a mark in the lowest bit.\<close>

lemma drop_push:
  assumes "\<not> bit w 63" and "k = 1"
  shows "drop_bit k (push_bit k w) = (w :: 64 word)" and "drop_bit k (push_bit k w OR 1) = w"
    and "push_bit k w AND 1 = 0" and "(push_bit k w OR 1) AND 1 = 1"
proof -
  have n: "n < 63" if "bit w n" for n
  proof -
    have "n < 64" using bit_imp_le_length [OF that] by simp
    moreover have "n \<noteq> 63" using that assms by blast
    ultimately show ?thesis by simp
  qed
  show "drop_bit k (push_bit k w) = w" "drop_bit k (push_bit k w OR 1) = w"
    "push_bit k w AND 1 = 0" "(push_bit k w OR 1) AND 1 = 1"
  proof -
    have k: "0 < k" "k < 2" using assms(2) by simp_all
    have sum: "k + m < 64" if "bit w m" for m using n [OF that] k by simp
    show "drop_bit k (push_bit k w) = w" "drop_bit k (push_bit k w OR 1) = w"
      using k sum by (auto intro!: bit_word_eqI simp: bit_simps)
    show "push_bit k w AND 1 = 0" "(push_bit k w OR 1) AND 1 = 1"
      using k by (auto intro!: bit_word_eqI simp: bit_simps)
  qed
qed

lemma to_int_enc:
  "to_int (if sint i < 0 then push_bit 1 (NOT i) OR 1 else push_bit 1 i) = i"
proof (cases "sint i < 0")
  case True
  then have "\<not> bit (NOT i) 63" using bit_last_iff [of i] by (simp add: bit_not_iff)
  from drop_push [OF this refl] True show ?thesis by (simp only: to_int_def) simp
next
  case False
  then have "\<not> bit i 63" using bit_last_iff [of i] by simp
  from drop_push [OF this refl] False show ?thesis by (simp only: to_int_def) simp
qed

lemma dec_enc_int: "dec_int (enc_int i @ r) = Inr (i, r)"
proof -
  have "unat w < 2 ^ 64" for w :: "64 word" using unsigned_less [of w] by simp
  then show ?thesis by (simp add: dec_int_def enc_int_def dec_enc_uint to_int_enc del: push_bit_Suc)
qed

lemma enc_int_length: "length (enc_int i) \<le> 9"
proof -
  have "unat w < 2 ^ 64" for w :: "64 word" using unsigned_less [of w] by simp
  then show ?thesis unfolding enc_int_def by (rule enc_uint_length)
qed

text \<open>A message is read back whole, and what follows it is left.\<close>

lemma dec_enc_message:
  assumes "enc_message tid val = Inr m"
  shows "dec_message tid (m @ r) = Inr (val, r)"
proof -
  let ?m = "enc_int tid @ enc_uint 0 @ val"
  from assms have l: "length ?m < too_big" and m: "m = enc_uint (length ?m) @ ?m"
    by (auto simp: enc_message_def Let_def split: if_splits)
  have "length ?m < 2 ^ 64" using l by (simp add: too_big_def)
  then have "dec_uint (m @ r) = Inr (length ?m, ?m @ r)"
    unfolding m by (metis append.assoc dec_enc_uint)
  moreover have "dec_uint (enc_uint 0 @ val) = Inr (0, val)" by (rule dec_enc_uint) simp
  ultimately show ?thesis using l by (simp add: dec_message_def dec_enc_int)
qed

lemma dec_enc_int_val: "enc_int_val i = Inr m \<Longrightarrow> dec_int_val (m @ r) = Inr (i, r)"
  using dec_enc_int [of i "[]"] by (simp add: enc_int_val_def dec_int_val_def dec_enc_message)

lemma dec_enc_int32_val:
  assumes "enc_int_val (scast i) = Inr m"
  shows "dec_int32_val (m @ r) = Inr (i, r)"
proof -
  have "sint (scast i :: 64 word) = sint i" 
    using sint_greater_eq [of i] sint_less [of i]
    by (simp add: signed_scast_eq signed_take_bit_int_eq_self)
  then show ?thesis using dec_enc_int_val [OF assms] sint_greater_eq [of i] sint_less [of i]
    by (simp add: dec_int32_val_def)
qed

lemma dec_enc_blob:
  assumes "enc_message tid (enc_uint (length bs) @ bs) = Inr m"
  shows "dec_blob tid (m @ r) = Inr (bs, r)"
proof -
  have "length bs < 2 ^ 64"
    using assms by (auto simp: enc_message_def Let_def too_big_def split: if_splits)
  then show ?thesis using dec_enc_message [OF assms] by (simp add: dec_blob_def dec_enc_uint)
qed

lemma dec_enc_bytes_val: "enc_bytes_val bs = Inr m \<Longrightarrow> dec_bytes_val (m @ r) = Inr (bs, r)"
  by (simp add: enc_bytes_val_def dec_bytes_val_def dec_enc_blob)

lemma dec_enc_string_val: "enc_string_val bs = Inr m \<Longrightarrow> dec_string_val (m @ r) = Inr (bs, r)"
  by (simp add: enc_string_val_def dec_string_val_def dec_enc_blob)

text \<open>Encoding fails only for huge values.\<close>

lemma enc_message_ok: "length val + 18 < too_big \<Longrightarrow> \<exists>m. enc_message tid val = Inr m"
  using enc_int_length [of tid] enc_uint_length [of 0]
  by (simp add: enc_message_def Let_def)

lemma enc_vals_ok:
  "\<exists>m. enc_int_val i = Inr m"
  "length bs + 27 < too_big \<Longrightarrow> \<exists>m. enc_bytes_val bs = Inr m"
  "length bs + 27 < too_big \<Longrightarrow> \<exists>m. enc_string_val bs = Inr m"
proof -
  show "\<exists>m. enc_int_val i = Inr m"
    unfolding enc_int_val_def using enc_int_length [of i] by (intro enc_message_ok) (simp add: too_big_def)
  assume l: "length bs + 27 < too_big"
  then have "length (enc_uint (length bs)) \<le> 9" by (intro enc_uint_length) (simp add: too_big_def)
  with l show "\<exists>m. enc_bytes_val bs = Inr m" "\<exists>m. enc_string_val bs = Inr m"
    unfolding enc_bytes_val_def enc_string_val_def by (intro enc_message_ok, simp)+
qed

end
