(* ===== verification/Job_Gob.thy ===== *)
theory Job_Gob
  imports Gob Job
begin

text \<open>
  \<open>GobEncode\<close> and \<open>GobDecode\<close> of \<open>pkg/chronomq/job.go\<close>: the form in which a
  job is persisted, five values one after the other. A decoder fills the fields of an
  existing job; after an error the fields read so far keep their new values.
\<close>

definition gob_encode :: "job \<Rightarrow> gob_error + bytes" where
  "gob_encode j =
     (case enc_string_val (bytes_of (job_id j)) of Inl e \<Rightarrow> Inl e | Inr b1 \<Rightarrow>
      (case enc_int_val (scast (pri j)) of Inl e \<Rightarrow> Inl e | Inr b2 \<Rightarrow>
      (case enc_int_val (unix_nano (trigger_at j)) of Inl e \<Rightarrow> Inl e | Inr b3 \<Rightarrow>
      (case enc_int_val (ttr j) of Inl e \<Rightarrow> Inl e | Inr b4 \<Rightarrow>
      (case enc_bytes_val (body j) of Inl e \<Rightarrow> Inl e | Inr b5 \<Rightarrow>
         Inr (b1 @ b2 @ b3 @ b4 @ b5))))))"

definition gob_decode :: "bytes \<Rightarrow> job \<Rightarrow> gob_error option \<times> job" where
  "gob_decode bs j =
     (case dec_string_val bs of Inl e \<Rightarrow> (Some e, j) | Inr (v, bs) \<Rightarrow>
      (let j = j\<lparr>job_id := string_of v\<rparr> in
      (case dec_int32_val bs of Inl e \<Rightarrow> (Some e, j) | Inr (v, bs) \<Rightarrow>
      (let j = j\<lparr>pri := v\<rparr> in
      (case dec_int_val bs of Inl e \<Rightarrow> (Some e, j) | Inr (v, bs) \<Rightarrow>
      (let j = j\<lparr>trigger_at := time_unix0 v\<rparr> in
      (case dec_int_val bs of Inl e \<Rightarrow> (Some e, j) | Inr (v, bs) \<Rightarrow>
      (let j = j\<lparr>ttr := v\<rparr> in
      (case dec_bytes_val bs of
         Inl e \<Rightarrow> (if e = GobEOF then None else Some e, j)
       | Inr (v, bs) \<Rightarrow> (None, j\<lparr>body := v\<rparr>))))))))))"

text \<open>\<open>new(Job)\<close>\<close>

definition zero_job :: job where
  "zero_job = \<lparr>job_id = [], trigger_at = 0, body = [], pri = 0, ttr = 0\<rparr>"

section \<open>The round trip\<close>

text \<open>The instants that \<open>UnixNano\<close> represents: the years 1678 to 2262.\<close>

definition unix_range :: "instant \<Rightarrow> bool" where
  "unix_range t \<longleftrightarrow> - (2 ^ 63) \<le> t - unix_epoch \<and> t - unix_epoch < 2 ^ 63"

definition gob_small :: "job \<Rightarrow> bool" where
  "gob_small j \<longleftrightarrow> length (job_id j) + 27 < too_big \<and> length (body j) + 27 < too_big"

lemma gob_encode_parts:
  assumes "gob_encode j = Inr bs"
  obtains b1 b2 b3 b4 b5 where "bs = b1 @ b2 @ b3 @ b4 @ b5"
    "enc_string_val (bytes_of (job_id j)) = Inr b1" "enc_int_val (scast (pri j)) = Inr b2"
    "enc_int_val (unix_nano (trigger_at j)) = Inr b3" "enc_int_val (ttr j) = Inr b4"
    "enc_bytes_val (body j) = Inr b5"
  using assms that by (auto simp: gob_encode_def split: sum.splits)

lemma gob_encode_ok: "gob_small j \<Longrightarrow> \<exists>bs. gob_encode j = Inr bs"
  using enc_vals_ok(1) [of "scast (pri j)"] enc_vals_ok(1) [of "unix_nano (trigger_at j)"]
    enc_vals_ok(1) [of "ttr j"] enc_vals_ok(2) [of "body j"] enc_vals_ok(3) [of "bytes_of (job_id j)"]
  by (auto simp: gob_encode_def gob_small_def)

lemma gob_decode_encode:
  assumes "gob_encode j = Inr bs"
  shows "gob_decode bs j0 = (None, j\<lparr>trigger_at := time_unix0 (unix_nano (trigger_at j))\<rparr>)"
proof -
  obtain b1 b2 b3 b4 b5 where p: "bs = b1 @ b2 @ b3 @ b4 @ b5"
    "enc_string_val (bytes_of (job_id j)) = Inr b1" "enc_int_val (scast (pri j)) = Inr b2"
    "enc_int_val (unix_nano (trigger_at j)) = Inr b3" "enc_int_val (ttr j) = Inr b4"
    "enc_bytes_val (body j) = Inr b5" by (rule gob_encode_parts [OF assms])
  have "dec_bytes_val b5 = Inr (body j, [])" using dec_enc_bytes_val [OF p(6), of "[]"] by simp
  then show ?thesis
    unfolding p(1) gob_decode_def
    by (simp add: dec_enc_string_val [OF p(2)] dec_enc_int32_val [OF p(3)] dec_enc_int_val [OF p(4)]
        dec_enc_int_val [OF p(5)])
qed

lemma gob_round_trip:
  "gob_encode j = Inr bs \<Longrightarrow> unix_range (trigger_at j) \<Longrightarrow> gob_decode bs j0 = (None, j)"
  by (simp add: gob_decode_encode time_unix0_unix_nano unix_range_def)

section \<open>Properties\<close>

text \<open>
  C32: A job survives persistence: unless a field is huge, \<open>GobEncode\<close> succeeds, and
  \<open>GobDecode\<close> of its bytes into any job gives back every field, the trigger time within
  the range of \<open>UnixNano\<close>; outside that range the trigger time comes back wrapped around.
\<close>

theorem gob_job_round_trip:
  assumes "gob_small j"
  shows "\<exists>bs. gob_encode j = Inr bs \<and>
    gob_decode bs j0 = (None, j\<lparr>trigger_at := time_unix0 (unix_nano (trigger_at j))\<rparr>) \<and>
    (unix_range (trigger_at j) \<longrightarrow> gob_decode bs j0 = (None, j))"
  using gob_encode_ok [OF assms] gob_decode_encode gob_round_trip by blast

theorem gob_job_round_trip_witness:
  "\<exists>bs. gob_encode (new_job ''a'' unix_epoch [1, 2]) = Inr bs \<and>
     gob_decode bs zero_job = (None, new_job ''a'' unix_epoch [1, 2])"
  using gob_job_round_trip [of "new_job ''a'' unix_epoch [1, 2]" zero_job]
  by (auto simp: gob_small_def new_job_def too_big_def unix_range_def)

text \<open>
  An encoding that ends after the fourth value is accepted: \<open>GobDecode\<close> takes the end
  of the input where the body should start as no error and leaves the body as it was.
\<close>

theorem gob_decode_without_body:
  assumes "enc_string_val (bytes_of (job_id j)) = Inr b1" and "enc_int_val (scast (pri j)) = Inr b2"
    and "enc_int_val (unix_nano (trigger_at j)) = Inr b3" and "enc_int_val (ttr j) = Inr b4"
  shows "gob_decode (b1 @ b2 @ b3 @ b4) j0 =
    (None, j\<lparr>trigger_at := time_unix0 (unix_nano (trigger_at j)), body := body j0\<rparr>)"
proof -
  have "dec_int_val b4 = Inr (ttr j, [])" using dec_enc_int_val [OF assms(4), of "[]"] by simp
  moreover have "dec_bytes_val [] = Inl GobEOF"
    by (simp add: dec_bytes_val_def dec_blob_def dec_message_def dec_uint_def)
  ultimately show ?thesis
    unfolding gob_decode_def
    by (simp add: dec_enc_string_val [OF assms(1)] dec_enc_int32_val [OF assms(2)]
        dec_enc_int_val [OF assms(3)])
qed

theorem gob_decode_without_body_witness:
  "\<exists>bs. gob_decode bs zero_job = (None, new_job ''a'' unix_epoch [])"
proof -
  let ?j = "new_job ''a'' unix_epoch [7]"
  obtain b1 where 1: "enc_string_val (bytes_of (job_id ?j)) = Inr b1"
    using enc_vals_ok(3) [of "bytes_of (job_id ?j)"] by (auto simp: new_job_def too_big_def)
  obtain b2 where 2: "enc_int_val (scast (pri ?j)) = Inr b2" using enc_vals_ok(1) by blast
  obtain b3 where 3: "enc_int_val (unix_nano (trigger_at ?j)) = Inr b3" using enc_vals_ok(1) by blast
  obtain b4 where 4: "enc_int_val (ttr ?j) = Inr b4" using enc_vals_ok(1) by blast
  have "time_unix0 (unix_nano unix_epoch) = unix_epoch" by (rule time_unix0_unix_nano) simp_all
  then show ?thesis using gob_decode_without_body [OF 1 2 3 4, of zero_job]
    by (auto simp: new_job_def zero_job_def)
qed

end
