(* ===== verification/Hub_Persist.thy ===== *)
theory Hub_Persist
  imports Hub_Filter Hub_Inspect Job_Gob
begin

text \<open>
  Saving and restoring a hub: \<open>PersistLocked\<close> of a spoke and of the hub, and
  \<open>Restore\<close>. The persister is an interface (\<open>pkg/persistence/persister.go\<close>); its
  methods are reached through a record of operations on its state. Errors of the persister
  are only logged and counted by the callers.
\<close>

section \<open>Saving\<close>

record ('p, 'e) persister_ops =
  p_persist :: "job \<Rightarrow> 'p \<Rightarrow> 'e option \<times> 'p"
  p_finalize :: "'p \<Rightarrow> 'p"
  p_recover :: "'p \<Rightarrow> 'e + bytes list"

text \<open>The loop of \<open>Spoke.PersistLocked\<close>: the errors it sends, in order.\<close>

fun persist_jobs :: "('p, 'e) persister_ops \<Rightarrow> job list \<Rightarrow> 'p \<Rightarrow> 'e list \<times> 'p" where
  "persist_jobs P [] st = ([], st)"
| "persist_jobs P (j # js) st =
     (let (e, st1) = p_persist P j st; (es, st2) = persist_jobs P js st1
      in (case e of None \<Rightarrow> es | Some e \<Rightarrow> e # es, st2))"

definition spoke_persist :: "('p, 'e) persister_ops \<Rightarrow> spoke \<Rightarrow> 'p \<Rightarrow> 'e list \<times> 'p" where
  "spoke_persist P s st = persist_jobs P (spoke_job_list s) st"

text \<open>The spokes of the heap in the order of its array.\<close>

definition waiting_list :: "'f hub \<Rightarrow> addr list" where
  "waiting_list h = map (\<lambda>i. item_value (the (pq_at (spokes h) i))) [0..<pq_len (spokes h)]"

fun spokes_persist :: "('p, 'e) persister_ops \<Rightarrow> addr list \<Rightarrow> 'f hub \<Rightarrow> 'p \<Rightarrow> 'e list \<times> 'p" where
  "spokes_persist P [] h st = ([], st)"
| "spokes_persist P (a # as) h st =
     (let (e1, st1) = spoke_persist P (spoke_at h a) st; (e2, st2) = spokes_persist P as h st1
      in (e1 @ e2, st2))"

definition hub_persist :: "('p, 'e) persister_ops \<Rightarrow> 'f hub \<Rightarrow> 'p \<Rightarrow> 'e list \<times> 'p" where
  "hub_persist P h st =
     (let (e1, st1) = spokes_persist P (waiting_list h) h st;
          (e2, st2) = spoke_persist P (spoke_at h (past_spoke h)) st1;
          (e3, st3) = (case current_spoke h of
                         None \<Rightarrow> ([], st2) | Some c \<Rightarrow> spoke_persist P (spoke_at h c) st2)
      in (e1 @ e2 @ e3, p_finalize P st3))"

text \<open>\<open>Hub.Stop\<close>: the number of errors is logged.\<close>

definition hub_stop :: "('p, 'e) persister_ops \<Rightarrow> bool \<Rightarrow> 'f hub \<Rightarrow> 'p \<Rightarrow> nat \<times> 'p" where
  "hub_stop P persist h st =
     (if persist then (let (es, st1) = hub_persist P h st in (length es, st1)) else (0, st))"

section \<open>Restoring\<close>

record restore_counts =
  decode_errors :: nat
  add_errors :: nat
  recovered :: nat

text \<open>
  One buffer after the other, \<open>k\<close> counts them: the clock reading and the map order of
  the \<open>AddJobLocked\<close> call for it.
\<close>

fun restore_loop ::
  "'f filter_ops \<Rightarrow> (nat \<Rightarrow> bound \<Rightarrow> nat) \<Rightarrow> (nat \<Rightarrow> instant) \<Rightarrow> nat \<Rightarrow> bytes list \<Rightarrow>
   restore_counts \<Rightarrow> 'f hub \<Rightarrow> restore_counts \<times> 'f hub" where
  "restore_loop F ranks clk k [] c h = (c, h)"
| "restore_loop F ranks clk k (b # bs) c h =
     (case gob_decode b zero_job of
        (Some _, _) \<Rightarrow>
          restore_loop F ranks clk (Suc k) bs (c\<lparr>decode_errors := decode_errors c + 1\<rparr>) h
      | (None, j) \<Rightarrow>
          (case hub_add F (ranks k) (clk k) j h of
             (Some _, h1) \<Rightarrow>
               restore_loop F ranks clk (Suc k) bs (c\<lparr>add_errors := add_errors c + 1\<rparr>) h1
           | (None, h1) \<Rightarrow>
               restore_loop F ranks clk (Suc k) bs (c\<lparr>recovered := recovered c + 1\<rparr>) h1))"

datatype 'e restore_error = RecoverFailed 'e | RestoreFailed nat nat

definition hub_restore ::
  "('p, 'e) persister_ops \<Rightarrow> 'f filter_ops \<Rightarrow> (nat \<Rightarrow> bound \<Rightarrow> nat) \<Rightarrow> (nat \<Rightarrow> instant) \<Rightarrow>
   'p \<Rightarrow> 'f hub \<Rightarrow> 'e restore_error option \<times> 'f hub" where
  "hub_restore P F ranks clk st h =
     (case p_recover P st of
        Inl e \<Rightarrow> (Some (RecoverFailed e), h)
      | Inr bufs \<Rightarrow>
          (let (c, h1) = restore_loop F ranks clk 0 bufs
                 \<lparr>decode_errors = 0, add_errors = 0, recovered = 0\<rparr> h
           in (if add_errors c = 0 \<and> decode_errors c = 0 then None
               else Some (RestoreFailed (decode_errors c) (add_errors c)), h1)))"

section \<open>What is saved\<close>

text \<open>The jobs in the order in which they are handed to the persister.\<close>

definition persist_order :: "'f hub \<Rightarrow> job list" where
  "persist_order h =
     concat (map (\<lambda>a. spoke_job_list (spoke_at h a)) (waiting_list h)) @
     spoke_job_list (spoke_at h (past_spoke h)) @
     (case current_spoke h of None \<Rightarrow> [] | Some c \<Rightarrow> spoke_job_list (spoke_at h c))"

lemma persist_jobs_append:
  "persist_jobs P (xs @ ys) st =
     (let (e1, st1) = persist_jobs P xs st; (e2, st2) = persist_jobs P ys st1 in (e1 @ e2, st2))"
  by (induction xs arbitrary: st) (auto simp: Let_def split: prod.splits option.splits)

lemma spokes_persist_eq:
  "spokes_persist P as h st =
     persist_jobs P (concat (map (\<lambda>a. spoke_job_list (spoke_at h a)) as)) st"
  by (induction as arbitrary: st)
    (auto simp: persist_jobs_append spoke_persist_def Let_def split: prod.splits)

lemma hub_persist_eq:
  "hub_persist P h st =
     (let (es, st1) = persist_jobs P (persist_order h) st in (es, p_finalize P st1))"
  by (auto simp: hub_persist_def persist_order_def persist_jobs_append spokes_persist_eq
      spoke_persist_def Let_def split: prod.splits option.splits)

lemma waiting_list_mset: "mset (waiting_list h) = waiting h"
proof -
  have "waiting_list h = map (\<lambda>a. item_value (pq_store (spokes h) ! a)) (pq_arr (spokes h))"
    by (intro nth_equalityI) (simp_all add: waiting_list_def pq_len_def pq_at_def)
  then show ?thesis by (simp add: waiting_def pq_entries_def pq_entry_def comp_def image_mset.compositionality)
qed

text \<open>Every job of the hub is saved exactly once.\<close>

lemma persist_order_mset:
  assumes "hub_wf h"
  shows "mset (persist_order h) = hub_jobs h"
proof -
  have "mset (concat (map (\<lambda>a. spoke_job_list (spoke_at h a)) as)) =
      (\<Sum>a \<in># mset as. spoke_jobs (spoke_at h a))" for as
    by (induction as) (simp_all add: spoke_job_list_mset)
  then have "mset (persist_order h) = (\<Sum>a \<in># waiting h. spoke_jobs (spoke_at h a)) +
      spoke_jobs (spoke_at h (past_spoke h)) +
      (case current_spoke h of None \<Rightarrow> {#} | Some c \<Rightarrow> spoke_jobs (spoke_at h c))"
    by (simp add: persist_order_def waiting_list_mset spoke_job_list_mset split: option.splits)
  moreover have "mset (map snd (spoke_map h)) = waiting h + current_mset h"
    by (rule map_heap [OF assms])
  ultimately show ?thesis
    by (simp add: hub_jobs_def live_def current_mset_def split: option.splits flip: mset_map)
qed

section \<open>What comes back\<close>

text \<open>The bound of the past spoke never changes.\<close>

definition past_bound :: "'f hub \<Rightarrow> bound" where
  "past_bound h = spoke_bound (spoke_at h (past_spoke h))"

lemma spoke_add_bound: "spoke_add j s = Inr s' \<Longrightarrow> spoke_bound s' = spoke_bound s"
  by (auto simp: spoke_add_def Let_def split: if_splits prod.splits)

lemma set_spoke_past_bound:
  "spoke_bound s = spoke_bound (spoke_at h a) \<Longrightarrow> past_bound (set_spoke a s h) = past_bound h"
  by (simp add: past_bound_def spoke_at_set_spoke)

lemma add_job_past_bound:
  assumes wf: "hub_wf h" and add: "add_job now j h = Inr h'"
  shows "past_bound h' = past_bound h"
proof -
  have new: "past_bound (add_spoke s h) = past_bound h" for s
    using live_alloc [OF wf past_live]
    by (simp add: past_bound_def add_spoke_def Let_def spoke_at_def nth_append split: prod.splits)
  have "add_future_job j h = Inr h' \<Longrightarrow> past_bound h' = past_bound h"
    by (auto simp: add_future_job_def Let_def new set_spoke_past_bound spoke_add_bound
        split: option.splits sum.splits)
  with add show ?thesis
    by (auto simp: add_job_def set_spoke_past_bound spoke_add_bound
        split: temporal_state.splits option.splits sum.splits if_splits)
qed

lemma hub_add_past_bound:
  assumes "hub_wf h" and "hub_add F rank now j h = (None, h')"
  shows "past_bound h' = past_bound h"
proof -
  obtain h1 where h1: "add_job now j h = Inr h1" "past_spoke h' = past_spoke h1"
    "spoke_store h' = spoke_store h1"
    using assms(2) by (auto simp: hub_add_def Let_def split: if_splits sum.splits prod.splits)
  then show ?thesis
    using add_job_past_bound [OF assms(1) h1(1)] by (simp add: past_bound_def spoke_at_def)
qed

text \<open>A job whose id the hub does not hold is taken in if it fits, whatever the filter says.\<close>

lemma hub_add_fresh:
  assumes wf: "hub_wf h" and fresh: "job_id j \<notin># hub_ids h"
    and past: "contains_time (past_bound h) (trigger_at j)" and span: "0 < sint (spoke_span h)"
  obtains h' where "hub_add F rank now j h = (None, h')" "hub_wf h'"
    "hub_jobs h' = add_mset j (hub_jobs h)" "spoke_span h' = spoke_span h" "past_bound h' = past_bound h"
proof (cases rule: hub_add_cases [OF wf, of F rank now j])
  case (1 a)
  then have "job_id j \<in># hub_ids h"
    using spoke_ids_hub owns_job_ids [OF live_inv [OF wf 1(3)]] by blast
  with fresh show ?thesis by simp
next
  case 2
  then show ?thesis using past span
    by (auto simp: accepts_def is_job_in_bounds_def past_bound_def split: if_splits)
next
  case (3 ok h')
  then show ?thesis using that hub_add_past_bound [OF wf] by blast
qed

text \<open>The jobs that a restore takes back from their encodings.\<close>

definition restorable :: "bound \<Rightarrow> job \<Rightarrow> bool" where
  "restorable b j \<longleftrightarrow> unix_range (trigger_at j) \<and> contains_time b (trigger_at j)"

lemma restore_loop_all:
  "hub_wf h \<Longrightarrow> 0 < sint (spoke_span h) \<Longrightarrow> distinct (map job_id js) \<Longrightarrow>
   set (map job_id js) \<inter> set_mset (hub_ids h) = {} \<Longrightarrow>
   \<forall>j \<in> set js. restorable (past_bound h) j \<Longrightarrow> list_all2 (\<lambda>j b. gob_encode j = Inr b) js bs \<Longrightarrow>
   \<exists>h'. restore_loop F ranks clk k bs c h = (c\<lparr>recovered := recovered c + length js\<rparr>, h') \<and>
     hub_wf h' \<and> hub_jobs h' = mset js + hub_jobs h"
proof (induction js arbitrary: bs h k c)
  case (Cons j js)
  from Cons.prems(6) obtain b bs' where bs: "bs = b # bs'" "gob_encode j = Inr b"
    "list_all2 (\<lambda>j b. gob_encode j = Inr b) js bs'" by (auto simp: list_all2_Cons1)
  from Cons.prems(5) have r: "restorable (past_bound h) j" by simp
  then have dec: "gob_decode b zero_job = (None, j)"
    using gob_round_trip [OF bs(2)] by (simp add: restorable_def)
  obtain h1 where h1: "hub_add F (ranks k) (clk k) j h = (None, h1)" "hub_wf h1"
    "hub_jobs h1 = add_mset j (hub_jobs h)" "spoke_span h1 = spoke_span h" "past_bound h1 = past_bound h"
    by (rule hub_add_fresh [OF Cons.prems(1), of j F "ranks k" "clk k"])
      (use Cons.prems(2,4) r in \<open>auto simp: restorable_def\<close>)
  have ids: "hub_ids h1 = add_mset (job_id j) (hub_ids h)" by (rule hub_ids_add [OF h1(3)])
  have "\<exists>h'. restore_loop F ranks clk (Suc k) bs' (c\<lparr>recovered := recovered c + 1\<rparr>) h1 =
      (c\<lparr>recovered := recovered c + 1 + length js\<rparr>, h') \<and>
      hub_wf h' \<and> hub_jobs h' = mset js + hub_jobs h1"
    using Cons.IH [of h1 bs' "Suc k" "c\<lparr>recovered := recovered c + 1\<rparr>"] Cons.prems h1 bs(3)
    by (auto simp: ids)
  then show ?case using bs(1) dec h1 by auto
qed simp

lemma distinct_ids:
  assumes "mset js = M" and "\<forall>x. count (image_mset job_id M) x \<le> 1"
  shows "distinct (map job_id js)"
proof -
  have "mset (map job_id js) = image_mset job_id M" by (simp add: assms(1) [symmetric])
  then show ?thesis using assms(2)
    by (metis (no_types, lifting) count_greater_zero_iff distinct_count_atmost_1 le_antisym less_one not_in_iff
        not_less set_mset_mset)
qed

end
