(* ===== verification/Journal_Persister.thy ===== *)
theory Journal_Persister
  imports Blob_Store Hub_Persist
begin

text \<open>
  \<open>pkg/persistence/journalPersister.go\<close>: the persister that writes the encodings of the jobs
  as records of a journal into a storage and reads them back. The channel \<open>stream\<close> of the
  struct is never used. A panic of the journal would end the process; here it is an error of
  its own, which the lemmas show not to occur.
\<close>

section \<open>The persister\<close>

datatype 'e persist_error =
  Store_Failed 'e | Next_Failed "'e jw_error" | Encode_Failed gob_error | Write_Failed "'e jw_error" |
  Writer_Panic | Reader_Panic

text \<open>\<open>jp_store_writer\<close>: whether \<open>storeWriter\<close> is set.\<close>

record ('s, 'e) journal_persister =
  jp_storage :: 's
  jp_writer :: "'e jwriter option"
  jp_store_writer :: bool

definition new_journal_persister :: "'s \<Rightarrow> ('s, 'e) journal_persister" where
  "new_journal_persister s = \<lparr>jp_storage = s, jp_writer = None, jp_store_writer = False\<rparr>"

definition jp_reset_data_dir ::
  "('s, 'e) storage_ops \<Rightarrow> ('s, 'e) journal_persister \<Rightarrow> 'e option \<times> ('s, 'e) journal_persister" where
  "jp_reset_data_dir S lp =
     (let (e, s) = st_reset S (jp_storage lp) in (e, lp\<lparr>jp_storage := s\<rparr>))"

text \<open>The writer is opened with the first entry.\<close>

definition jp_open ::
  "('s, 'e) storage_ops \<Rightarrow> ('s, 'e) journal_persister \<Rightarrow>
   'e persist_error option \<times> ('s, 'e) journal_persister" where
  "jp_open S lp =
     (if jp_writer lp \<noteq> None then (None, lp)
      else case st_writer S (jp_storage lp) of
        (Some e, s) \<Rightarrow> (Some (Store_Failed e), lp\<lparr>jp_storage := s\<rparr>)
      | (None, s) \<Rightarrow>
          (None, lp\<lparr>jp_storage := s, jp_store_writer := True, jp_writer := Some new_writer\<rparr>))"

text \<open>\<open>write\<close>; \<open>enc\<close> is the answer of \<open>enc.GobEncode()\<close>, asked for after \<open>Next\<close>.\<close>

definition jp_write ::
  "('s, 'e) storage_ops \<Rightarrow> gob_error + bytes \<Rightarrow> ('s, 'e) journal_persister \<Rightarrow>
   'e persist_error option \<times> ('s, 'e) journal_persister" where
  "jp_write S enc lp =
     (case jp_open S lp of
        (Some e, lp1) \<Rightarrow> (Some e, lp1)
      | (None, lp1) \<Rightarrow>
          (case jw_next (writer_io S) (the (jp_writer lp1), jp_storage lp1) of
             None \<Rightarrow> (Some Writer_Panic, lp1)
           | Some (Inl e, w2, s2) \<Rightarrow> (Some (Next_Failed e), lp1\<lparr>jp_writer := Some w2, jp_storage := s2\<rparr>)
           | Some (Inr seq, w2, s2) \<Rightarrow>
               (let lp2 = lp1\<lparr>jp_writer := Some w2, jp_storage := s2\<rparr>
                in case enc of
                     Inl e \<Rightarrow> (Some (Encode_Failed e), lp2)
                   | Inr buf \<Rightarrow>
                       (case jw_write (writer_io S) seq buf (w2, s2) of
                          None \<Rightarrow> (Some Writer_Panic, lp2)
                        | Some (e, w3, s3) \<Rightarrow>
                            (map_option Write_Failed e, lp2\<lparr>jp_writer := Some w3, jp_storage := s3\<rparr>)))))"

definition jp_persist ::
  "('s, 'e) storage_ops \<Rightarrow> gob_error + bytes \<Rightarrow> ('s, 'e) journal_persister \<Rightarrow>
   'e persist_error option \<times> ('s, 'e) journal_persister" where
  "jp_persist S enc lp = jp_write S enc lp"

text \<open>\<open>PersistStream\<close>: the errors sent, in order.\<close>

fun jp_persist_stream ::
  "('s, 'e) storage_ops \<Rightarrow> (gob_error + bytes) list \<Rightarrow> ('s, 'e) journal_persister \<Rightarrow>
   'e persist_error list \<times> ('s, 'e) journal_persister" where
  "jp_persist_stream S [] lp = ([], lp)"
| "jp_persist_stream S (enc # ens) lp =
     (case jp_write S enc lp of
        (Some e, lp1) \<Rightarrow> (let (es, lp2) = jp_persist_stream S ens lp1 in (e # es, lp2))
      | (None, lp1) \<Rightarrow> jp_persist_stream S ens lp1)"

text \<open>
  \<open>Finalize\<close>: errors are only logged. The \<open>None\<close> of \<open>jw_flush\<close> and \<open>jw_close\<close> is the panic on
  a bad writer state, which \<open>jw_flush_wrote\<close> and \<open>jw_close_wrote\<close> exclude.
\<close>

definition jp_finalize ::
  "('s, 'e) storage_ops \<Rightarrow> ('s, 'e) journal_persister \<Rightarrow> ('s, 'e) journal_persister" where
  "jp_finalize S lp =
     (let lp1 = (case jp_writer lp of
                   None \<Rightarrow> lp
                 | Some w \<Rightarrow>
                     (case jw_flush (writer_io S) (w, jp_storage lp) of
                        None \<Rightarrow> lp
                      | Some (_, w1, s1) \<Rightarrow>
                          (case jw_close (writer_io S) (w1, s1) of
                             None \<Rightarrow> lp
                           | Some (_, w2, s2) \<Rightarrow> lp\<lparr>jp_writer := Some w2, jp_storage := s2\<rparr>)))
      in if jp_store_writer lp1
         then let (_, s) = st_close S (jp_storage lp1) in lp1\<lparr>jp_storage := s\<rparr>
         else lp1)"

section \<open>Recovery\<close>

text \<open>
  The loop of \<open>Recover\<close>: a record that cannot be read to its end is skipped, and every other
  error ends the loop. \<open>sizes k\<close> are the sizes of the buffers that \<open>ReadAll\<close> uses for the
  \<open>k\<close>-th record.
\<close>

lemma jr_next_unread: "jr_next r = (Inr seq, r1) \<Longrightarrow> unread r1 < unread r"
proof -
  have loop: "next_loop_chunks r = (None, r1) \<Longrightarrow> unread r1 < unread r" for r r1 :: "'a jreader"
  proof (induction r rule: next_loop_chunks.induct)
    case (1 r)
    obtain c r2 where n: "next_chunk True r = (c, r2)" by fastforce
    with 1 next_chunk_progress [OF n] show ?case
      by (cases c) (fastforce simp: next_loop_chunks.simps [of r])+
  qed
  assume "jr_next r = (Inr seq, r1)"
  then have "unread r1 < unread (r\<lparr>jr_seq := jr_seq r + 1, jr_i := jr_j r\<rparr>)"
    by (intro loop) (auto simp: jr_next_def Let_def split: option.splits prod.splits)
  then show ?thesis by (simp add: unread_def)
qed

lemma read_all_unread:
  "read_all sizes k seq acc (x, r) = Some (res, r1) \<Longrightarrow> unread r1 \<le> unread r"
proof (induction "unread r + (jr_j r - jr_i r)" arbitrary: k acc x r rule: less_induct)
  case less
  show ?case
  proof (cases "single_read seq (Suc (sizes k)) (x, r)")
    case None
    with less.prems show ?thesis by (simp add: read_all.simps [of sizes k])
  next
    case (Some s)
    obtain b e x1 r2 where s: "s = (b, e, x1, r2)" by (cases s)
    note p = single_read_progress [OF Some [unfolded s]]
    show ?thesis
    proof (cases e)
      case None
      with less.prems Some s have "read_all sizes (Suc k) seq (acc @ b) (x1, r2) = Some (res, r1)"
        by (simp add: read_all.simps [of sizes k])
      from less.hyps [OF _ this] p None show ?thesis by simp
    next
      case (Some e')
      with less.prems \<open>single_read seq (Suc (sizes k)) (x, r) = Some s\<close> s p show ?thesis
        by (simp add: read_all.simps [of sizes k])
    qed
  qed
qed

function recover_loop :: "(nat \<Rightarrow> nat \<Rightarrow> nat) \<Rightarrow> nat \<Rightarrow> 'e jreader \<Rightarrow> bytes list option" where
  "recover_loop sizes k r =
     (case jr_next r of
        (Inl e, r1) \<Rightarrow> Some []
      | (Inr seq, r1) \<Rightarrow>
          (case read_all (sizes k) 0 seq [] (None, r1) of
             None \<Rightarrow> None
           | Some ((buf, Some e), r2) \<Rightarrow> recover_loop sizes (Suc k) r2
           | Some ((buf, None), r2) \<Rightarrow> map_option ((#) buf) (recover_loop sizes (Suc k) r2)))"
  by pat_completeness auto

termination
  by (relation "measure (\<lambda>(sizes, k, r). unread r)")
    (auto dest!: jr_next_unread [OF sym] read_all_unread)

declare recover_loop.simps [simp del]

definition jp_recover ::
  "('s, 'e) storage_ops \<Rightarrow> (nat \<Rightarrow> nat \<Rightarrow> nat) \<Rightarrow> ('s, 'e) journal_persister \<Rightarrow>
   'e persist_error + bytes list" where
  "jp_recover S sizes lp =
     (case st_reader S (jp_storage lp) of
        Inl e \<Rightarrow> Inl (Store_Failed e)
      | Inr rd \<Rightarrow>
          (case recover_loop sizes 0 (new_reader rd False True) of
             None \<Rightarrow> Inl Reader_Panic
           | Some bufs \<Rightarrow> Inr bufs))"

text \<open>The persister as the hub calls it.\<close>

definition journal_ops ::
  "('s, 'e) storage_ops \<Rightarrow> (nat \<Rightarrow> nat \<Rightarrow> nat) \<Rightarrow> (('s, 'e) journal_persister, 'e persist_error) persister_ops" where
  "journal_ops S sizes =
     \<lparr>p_persist = \<lambda>j. jp_persist S (gob_encode j), p_finalize = jp_finalize S, p_recover = jp_recover S sizes\<rparr>"

section \<open>What is recovered\<close>

lemma recover_records:
  "is_records recs cs \<Longrightarrow> op = [] \<or> (\<exists>b. is_open b op) \<Longrightarrow> reads r (cs @ op) \<Longrightarrow>
   recover_loop sizes k r = Some recs"
proof (induction arbitrary: k r rule: is_records.induct)
  case no_records
  have eof: "recover_loop sizes k r = Some []" if "reads r []" for k r
    by (rule next_eof [OF that]) (simp add: recover_loop.simps [of sizes k])
  show ?case
  proof (cases "op = []")
    case True
    with no_records.prems(2) eof show ?thesis by simp
  next
    case False
    then obtain b where b: "is_open b op" using no_records.prems(1) by blast
    have "reads r op" using no_records.prems(2) by simp
    from next_open [OF this b, of "sizes k"] obtain seq r1 part r2 where
      "jr_next r = (Inr seq, r1)"
      "read_all (sizes k) 0 seq [] (None, r1) = Some ((part, Some Jr_Unexpected_EOF), r2)" "reads r2 []" by metis
    with eof show ?thesis by (simp add: recover_loop.simps [of sizes k])
  qed
next
  case (more_records b cs bs ds)
  have "reads r (cs @ ds @ op)" using more_records.prems(2) by simp
  from next_record [OF this more_records.hyps(1), of "sizes k"] obtain seq r1 r2 where
    "jr_next r = (Inr seq, r1)" "read_all (sizes k) 0 seq [] (None, r1) = Some ((b, None), r2)"
    "reads r2 (ds @ op)" by metis
  with more_records.IH [OF more_records.prems(1), of r2 "Suc k"] show ?case
    by (simp add: recover_loop.simps [of sizes k])
qed

lemma recover_journal:
  assumes "journal_of c recs"
  shows "recover_loop sizes k (new_reader (c, None) False checksum) = Some recs"
proof -
  obtain cs where "stream_ok c cs" "is_records recs cs" using assms by (auto simp: journal_of_def)
  with recover_records [of recs cs "[]"] new_reader_reads [of c cs checksum] show ?thesis by simp
qed

text \<open>Every record of a journal ends somewhere in it: the first ones are the journal up to there.\<close>

lemma journal_of_take:
  assumes "stream_ok c cs" and "is_records recs ds" and "cs = ds @ es"
  shows "\<exists>m \<le> length c. journal_of (take m c) (take i recs)"
proof -
  obtain xs ys where x: "ds = xs @ ys" "is_records (take i recs) xs" using is_records_take [OF assms(2)] by blast
  then have "cs = xs @ ys @ es" using assms(3) by simp
  from stream_cut [OF assms(1) this] x(2) show ?thesis by (auto simp: journal_of_def)
qed

text \<open>
  A journal that is cut off gives back exactly the records that end before the cut.
\<close>

lemma recover_torn_journal:
  assumes "journal_of c recs"
  shows "\<exists>k \<le> length recs. recover_loop sizes j (new_reader (take n c, None) False checksum) = Some (take k recs) \<and>
    (\<forall>i \<le> length recs. (\<exists>m \<le> n. journal_of (take m c) (take i recs)) \<longleftrightarrow> i \<le> k)"
proof -
  obtain cs where cs: "stream_ok c cs" "is_records recs cs" using assms by (auto simp: journal_of_def)
  obtain ds es where d: "cs = ds @ es" "stream_ok (take n c) ds" using stream_take [OF cs(1)] by blast
  obtain recs1 recs2 ds1 op where r: "recs = recs1 @ recs2" "ds = ds1 @ op" "is_records recs1 ds1"
    "op = [] \<or> (\<exists>b. is_open b op)" using is_records_prefix [OF cs(2) d(1)] by blast
  have loop: "recover_loop sizes j (new_reader (take n c, None) False checksum) = Some recs1"
    using recover_records [OF r(3,4)] new_reader_reads [OF d(2), of checksum] r(2) by auto
  have ends: "record_ends ds = length recs1"
    using r(2,4) is_records_ends [OF r(3)] is_open_ends by auto
  have "(\<exists>m \<le> n. journal_of (take m c) (take i recs)) \<longleftrightarrow> i \<le> length recs1" if i: "i \<le> length recs" for i
  proof
    assume "\<exists>m \<le> n. journal_of (take m c) (take i recs)"
    then obtain m xs where m: "m \<le> n" "stream_ok (take m c) xs" "is_records (take i recs) xs"
      by (auto simp: journal_of_def)
    obtain ys zs where y: "ds = ys @ zs" "stream_ok (take m (take n c)) ys" using stream_take [OF d(2)] by blast
    have "xs = ys" using stream_unique [OF m(2)] y(2) m(1) by (simp add: min_absorb1)
    then have "record_ends ys = i" using is_records_ends [OF m(3)] i by simp
    then show "i \<le> length recs1" using ends y(1) by simp
  next
    assume "i \<le> length recs1"
    moreover obtain m where "m \<le> length (take n c)" "journal_of (take m (take n c)) (take i recs1)"
      using journal_of_take [OF d(2) r(3,2)] by blast
    ultimately show "\<exists>m \<le> n. journal_of (take m c) (take i recs)"
      using r(1) by (intro exI [of _ m]) (simp add: min_absorb1)
  qed
  with loop r(1) show ?thesis by (intro exI [of _ "length recs1"]) simp
qed

section \<open>The persister on a bucket\<close>

text \<open>
  The record that an entry leaves: an empty one if it cannot be encoded. The errors of such
  entries, in order.
\<close>

definition record_of :: "gob_error + bytes \<Rightarrow> bytes" where
  "record_of enc = (case enc of Inl e \<Rightarrow> [] | Inr b \<Rightarrow> b)"

definition encode_errors :: "(gob_error + bytes) list \<Rightarrow> 'e persist_error list" where
  "encode_errors ens = List.map_filter (\<lambda>enc. case enc of Inl e \<Rightarrow> Some (Encode_Failed e) | Inr b \<Rightarrow> None) ens"

context blob_bucket begin

text \<open>
  The persister has got the records \<open>recs\<close>, and the blobs that can be read are \<open>b0\<close>.
\<close>

definition persisted ::
  "(string \<Rightarrow> bytes option) \<Rightarrow> (('b, 'w) blob_store, 'e blob_error) journal_persister \<Rightarrow> bytes list \<Rightarrow> bool" where
  "persisted b0 lp recs \<longleftrightarrow>
     blobs (bs_bucket (jp_storage lp)) = b0 \<and>
     (case jp_writer lp of
        None \<Rightarrow> recs = [] \<and> \<not> jp_store_writer lp
      | Some w \<Rightarrow> jp_store_writer lp \<and> store_open (jp_storage lp) \<and>
          (\<exists>rs cur. finished rs cur = recs \<and> wrote w (store_content (jp_storage lp)) rs cur))"

lemma persistedI:
  "wrote w (store_content s) recs (Some b) \<Longrightarrow> store_open s \<Longrightarrow> blobs (bs_bucket s) = b0 \<Longrightarrow> jp_store_writer lp \<Longrightarrow>
   persisted b0 (lp\<lparr>jp_writer := Some w, jp_storage := s\<rparr>) (recs @ [b])"
  unfolding persisted_def by (auto simp: finished_def intro!: exI [of _ recs] exI [of _ "Some b"])

lemma new_persisted: "persisted (blobs (bs_bucket s)) (new_journal_persister s) []"
  by (simp add: persisted_def new_journal_persister_def)

lemma jp_open_ok:
  assumes "persisted b0 lp recs"
  obtains lp1 w rs cur where "jp_open (blob_storage B now) lp = (None, lp1)" "jp_writer lp1 = Some w"
    "jp_store_writer lp1" "store_open (jp_storage lp1)" "blobs (bs_bucket (jp_storage lp1)) = b0"
    "finished rs cur = recs" "wrote w (store_content (jp_storage lp1)) rs cur"
proof (cases "jp_writer lp")
  case None
  obtain s' where s': "bs_open_writer B (jp_storage lp) = (None, s')" "store_open s'" "store_content s' = []"
    "bs_bucket s' = bs_bucket (jp_storage lp)" by (rule open_writer_ok)
  let ?lp = "lp\<lparr>jp_storage := s', jp_store_writer := True, jp_writer := Some new_writer\<rparr>"
  have "jp_open (blob_storage B now) lp = (None, ?lp)"
    using None s'(1) by (simp add: jp_open_def blob_storage_def)
  with that [of ?lp new_writer "[]" None] assms None s' new_writer_wrote show ?thesis
    by (simp add: persisted_def finished_def)
next
  case (Some w)
  with assms obtain rs cur where "finished rs cur = recs" "wrote w (store_content (jp_storage lp)) rs cur"
    by (auto simp: persisted_def)
  with that [of lp w rs cur] assms Some show ?thesis by (simp add: persisted_def jp_open_def)
qed

lemma persisted_next:
  assumes "persisted b0 lp recs"
  obtains lp1 seq w2 s2 where "jp_open (blob_storage B now) lp = (None, lp1)"
    "jw_next (writer_io (blob_storage B now)) (the (jp_writer lp1), jp_storage lp1) = Some (Inr seq, w2, s2)"
    "jp_store_writer lp1" "store_open s2" "blobs (bs_bucket s2) = b0" "seq = jw_seq w2"
    "wrote w2 (store_content s2) recs (Some [])"
proof -
  obtain lp1 w rs cur where o: "jp_open (blob_storage B now) lp = (None, lp1)" "jp_writer lp1 = Some w"
    "jp_store_writer lp1" "store_open (jp_storage lp1)" "blobs (bs_bucket (jp_storage lp1)) = b0"
    "finished rs cur = recs" "wrote w (store_content (jp_storage lp1)) rs cur"
    by (rule jp_open_ok [OF assms])
  have "store_open (jp_storage lp1) \<and> blobs (bs_bucket (jp_storage lp1)) = b0" using o by simp
  from sink.jw_next_wrote [OF this o(7)] obtain w2 s2 where
    "jw_next (writer_io (blob_storage B now)) (w, jp_storage lp1) = Some (Inr (jw_seq w2), w2, s2)"
    "store_open s2" "blobs (bs_bucket s2) = b0" "wrote w2 (store_content s2) recs (Some [])"
    unfolding o(6) by metis
  with that o(1,2,3) show ?thesis by simp
qed

lemma jp_write_ok:
  assumes "persisted b0 lp recs"
  obtains lp' where "jp_write (blob_storage B now) (Inr buf) lp = (None, lp')" "persisted b0 lp' (recs @ [buf])"
proof -
  obtain lp1 seq w2 s2 where n: "jp_open (blob_storage B now) lp = (None, lp1)"
    "jw_next (writer_io (blob_storage B now)) (the (jp_writer lp1), jp_storage lp1) = Some (Inr seq, w2, s2)"
    "jp_store_writer lp1" "store_open s2" "blobs (bs_bucket s2) = b0" "seq = jw_seq w2"
    "wrote w2 (store_content s2) recs (Some [])" by (rule persisted_next [OF assms])
  have "store_open s2 \<and> blobs (bs_bucket s2) = b0" using n by simp
  then obtain w3 s3 where
    "jw_write (writer_io (blob_storage B now)) (jw_seq w2) buf (w2, s2) = Some (None, w3, s3)"
    "store_open s3 \<and> blobs (bs_bucket s3) = b0" "wrote w3 (store_content s3) recs (Some ([] @ buf))"
    by (rule sink.jw_write_wrote [OF _ n(7)])
  with n(1-3,6) that [of "lp1\<lparr>jp_writer := Some w3, jp_storage := s3\<rparr>"] persistedI show ?thesis
    by (simp add: jp_write_def Let_def)
qed

text \<open>An encoding that fails leaves an empty record behind.\<close>

lemma jp_write_failed:
  assumes "persisted b0 lp recs"
  obtains lp' where "jp_write (blob_storage B now) (Inl e) lp = (Some (Encode_Failed e), lp')"
    "persisted b0 lp' (recs @ [[]])"
proof -
  obtain lp1 seq w2 s2 where n: "jp_open (blob_storage B now) lp = (None, lp1)"
    "jw_next (writer_io (blob_storage B now)) (the (jp_writer lp1), jp_storage lp1) = Some (Inr seq, w2, s2)"
    "jp_store_writer lp1" "store_open s2" "blobs (bs_bucket s2) = b0" "seq = jw_seq w2"
    "wrote w2 (store_content s2) recs (Some [])" by (rule persisted_next [OF assms])
  with that [of "lp1\<lparr>jp_writer := Some w2, jp_storage := s2\<rparr>"] persistedI show ?thesis
    by (simp add: jp_write_def Let_def)
qed

lemma jp_write_any:
  assumes "persisted b0 lp recs"
  obtains lp' where "jp_write (blob_storage B now) enc lp =
      (case enc of Inl e \<Rightarrow> Some (Encode_Failed e) | Inr b \<Rightarrow> None, lp')" "persisted b0 lp' (recs @ [record_of enc])"
proof (cases enc)
  case (Inl e)
  with that show ?thesis by (auto intro: jp_write_failed [OF assms, of now e] simp: record_of_def)
next
  case (Inr b)
  with that show ?thesis by (auto intro: jp_write_ok [OF assms, of now b] simp: record_of_def)
qed

text \<open>\<open>Finalize\<close> replaces the snapshot, if anything was persisted.\<close>

lemma jp_finalize_ok:
  assumes "persisted b0 lp recs"
  shows "if jp_writer lp = None then jp_finalize (blob_storage B now) lp = lp
    else \<exists>c. blobs (bs_bucket (jp_storage (jp_finalize (blob_storage B now) lp))) = b0(data_key \<mapsto> c) \<and>
      journal_of c recs"
proof (cases "jp_writer lp")
  case None
  then show ?thesis using assms by (simp add: jp_finalize_def persisted_def)
next
  case (Some w)
  with assms obtain rs cur where w: "finished rs cur = recs" "wrote w (store_content (jp_storage lp)) rs cur"
    and o: "store_open (jp_storage lp) \<and> blobs (bs_bucket (jp_storage lp)) = b0" "jp_store_writer lp"
    by (auto simp: persisted_def)
  obtain w1 s1 where f: "jw_flush (writer_io (blob_storage B now)) (w, jp_storage lp) = Some (None, w1, s1)"
    "store_open s1 \<and> blobs (bs_bucket s1) = b0" "wrote w1 (store_content s1) (finished rs cur) None"
    by (rule sink.jw_flush_wrote [OF o(1) w(2), of now])
  obtain w2 s2 where c: "jw_close (writer_io (blob_storage B now)) (w1, s1) = Some (None, w2, s2)"
    "store_open s2 \<and> blobs (bs_bucket s2) = b0" "journal_of (store_content s2) (finished (finished rs cur) None)"
    by (rule sink.jw_close_wrote [OF f(2,3), of now])
  have "store_open s2" using c(2) by simp
  then obtain s3 where s3: "bs_close B s2 = (None, s3)"
    "blobs (bs_bucket s3) = (blobs (bs_bucket s2))(data_key \<mapsto> store_content s2)" by (rule close_ok)
  have "jp_storage (jp_finalize (blob_storage B now) lp) = s3"
    using Some f(1) c(1) s3(1) o(2) by (simp add: jp_finalize_def blob_storage_def)
  moreover have "journal_of (store_content s2) recs" using c(3) w(1) by (simp add: finished_def)
  ultimately show ?thesis using s3(2) c(2) Some by (auto intro!: exI [of _ "store_content s2"])
qed

lemma jp_recover_blob:
  "jp_recover (blob_storage B now) sizes lp =
     (case recover_loop sizes 0
        (new_reader (case blobs (bs_bucket (jp_storage lp)) data_key of None \<Rightarrow> [] | Some c \<Rightarrow> c,
            None :: 'e blob_error option) False True) of
        None \<Rightarrow> Inl Reader_Panic | Some bufs \<Rightarrow> Inr bufs)"
  by (cases "blobs (bs_bucket (jp_storage lp)) data_key")
    (simp_all add: jp_recover_def blob_storage_def reader_ok)

lemma persist_stream_ok:
  "persisted b0 lp recs \<Longrightarrow>
   \<exists>lp'. jp_persist_stream (blob_storage B now) ens lp = (encode_errors ens, lp') \<and>
     persisted b0 lp' (recs @ map record_of ens)"
proof (induction ens arbitrary: lp recs)
  case Nil
  then show ?case by (simp add: encode_errors_def map_filter_simps)
next
  case (Cons enc ens)
  obtain lp1 where w: "jp_write (blob_storage B now) enc lp =
      (case enc of Inl e \<Rightarrow> Some (Encode_Failed e) | Inr b \<Rightarrow> None, lp1)" "persisted b0 lp1 (recs @ [record_of enc])"
    by (rule jp_write_any [OF Cons.prems])
  obtain lp2 where "jp_persist_stream (blob_storage B now) ens lp1 = (encode_errors ens, lp2)"
    "persisted b0 lp2 ((recs @ [record_of enc]) @ map record_of ens)" using Cons.IH [OF w(2)] by blast
  with w(1) show ?case by (cases enc) (simp_all add: encode_errors_def map_filter_simps)
qed

lemma persisted_writer: "persisted b0 lp recs \<Longrightarrow> recs \<noteq> [] \<Longrightarrow> jp_writer lp \<noteq> None"
  by (cases "jp_writer lp") (simp_all add: persisted_def)

text \<open>
  A fresh persister that gets some entries and is finalized: the blob is a journal of them,
  and they are what a persister on the same store recovers.
\<close>

lemma persist_and_finalize:
  assumes "ens \<noteq> []"
  obtains lp c where "jp_persist_stream (blob_storage B now) ens (new_journal_persister s) = (encode_errors ens, lp)"
    "blobs (bs_bucket (jp_storage (jp_finalize (blob_storage B now) lp))) = (blobs (bs_bucket s))(data_key \<mapsto> c)"
    "journal_of c (map record_of ens)"
proof -
  obtain lp where l: "jp_persist_stream (blob_storage B now) ens (new_journal_persister s) = (encode_errors ens, lp)"
    "persisted (blobs (bs_bucket s)) lp ([] @ map record_of ens)"
    using persist_stream_ok [OF new_persisted] by blast
  have "jp_writer lp \<noteq> None" by (rule persisted_writer [OF l(2)]) (use assms in simp)
  with jp_finalize_ok [OF l(2), of now] l(1) that show ?thesis by auto
qed

lemma recover_blob:
  assumes "blobs (bs_bucket s) data_key = Some c" and "journal_of c recs"
  shows "jp_recover (blob_storage B now) sizes (new_journal_persister s) = Inr recs"
proof -
  have "recover_loop sizes 0 (new_reader (c, None :: 'e blob_error option) False True) = Some recs"
    by (rule recover_journal [OF assms(2)])
  with assms(1) show ?thesis by (simp add: jp_recover_blob new_journal_persister_def)
qed

lemma recover_torn_blob:
  assumes "blobs (bs_bucket s) data_key = Some (take n c)" and "journal_of c recs"
  obtains k where "k \<le> length recs"
    "jp_recover (blob_storage B now) sizes (new_journal_persister s) = Inr (take k recs)"
    "\<forall>i \<le> length recs. (\<exists>m \<le> n. journal_of (take m c) (take i recs)) \<longleftrightarrow> i \<le> k"
proof -
  obtain k where "k \<le> length recs"
    "recover_loop sizes 0 (new_reader (take n c, None :: 'e blob_error option) False True) = Some (take k recs)"
    "\<forall>i \<le> length recs. (\<exists>m \<le> n. journal_of (take m c) (take i recs)) \<longleftrightarrow> i \<le> k"
    using recover_torn_journal [OF assms(2)] by blast
  with assms(1) that show ?thesis by (simp add: jp_recover_blob new_journal_persister_def)
qed

end

text \<open>The jobs of a hub reach the persister as a stream of encodings.\<close>

lemma persist_jobs_stream:
  "persist_jobs (journal_ops S sizes) js lp = jp_persist_stream S (map gob_encode js) lp"
  by (induction js arbitrary: lp) (auto simp: journal_ops_def jp_persist_def split: prod.splits option.splits)

section \<open>Properties\<close>

text \<open>
  C9: What the persister gets comes back: on a bucket that keeps its promises, entries of any
  number and size are persisted with an error for exactly those that cannot be encoded, and
  after \<open>Finalize\<close> a persister on the same store recovers them all, in order, an empty one in
  the place of every entry that could not be encoded.
\<close>

theorem persisted_entries_recovered:
  assumes "blob_bucket B blobs pend writing" and "ens \<noteq> []"
  shows "\<exists>lp. jp_persist_stream (blob_storage B now) ens (new_journal_persister s) = (encode_errors ens, lp) \<and>
    jp_recover (blob_storage B now) sizes
      (new_journal_persister (jp_storage (jp_finalize (blob_storage B now) lp))) = Inr (map record_of ens)"
proof -
  note P = blob_bucket.persist_and_finalize [OF assms] and R = blob_bucket.recover_blob [OF assms(1)]
  obtain lp c where l: "jp_persist_stream (blob_storage B now) ens (new_journal_persister s) = (encode_errors ens, lp)"
    "blobs (bs_bucket (jp_storage (jp_finalize (blob_storage B now) lp))) = (blobs (bs_bucket s))(data_key \<mapsto> c)"
    "journal_of c (map record_of ens)" by (rule P)
  have "jp_recover (blob_storage B now) sizes
      (new_journal_persister (jp_storage (jp_finalize (blob_storage B now) lp))) = Inr (map record_of ens)"
    by (rule R [OF _ l(3)]) (simp add: l(2))
  with l(1) show ?thesis by blast
qed

text \<open>In memory: a small entry, one that cannot be encoded, and one that takes two blocks.\<close>

definition empty_store :: "(mem_blobs, mem_writer) blob_store" where
  "empty_store = \<lparr>bs_bucket = \<lambda>_. None, bs_url = ''mem:'', bs_writer = None\<rparr>"

theorem persisted_entries_recovered_witness:
  "\<exists>lp. jp_persist_stream (blob_storage journal_bucket []) [Inr [1, 2], Inl GobError, Inr (replicate 40000 7)]
      (new_journal_persister empty_store) = ([Encode_Failed GobError], lp) \<and>
    jp_recover (blob_storage journal_bucket []) (\<lambda>_ _. 511)
      (new_journal_persister (jp_storage (jp_finalize (blob_storage journal_bucket []) lp))) =
      Inr [[1, 2], [], replicate 40000 7]"
  using persisted_entries_recovered [OF jmem.blob_bucket_axioms,
      of "[Inr [1, 2], Inl GobError, Inr (replicate 40000 7)]" "[]" empty_store "\<lambda>_ _. 511"]
  by (simp add: encode_errors_def record_of_def map_filter_simps)

text \<open>
  C31: A snapshot that is cut off at any byte gives back the entries that end before the cut, in
  order, and nothing else: every one of the first entries ends at some byte of the snapshot (up
  to there it is the journal of these entries), and what is recovered from the snapshot cut
  off after \<open>n\<close> bytes are the first \<open>k\<close> entries, where \<open>i \<le> k\<close> exactly if the first \<open>i\<close>
  entries end within these \<open>n\<close> bytes.
\<close>

theorem torn_snapshot_recovers_prefix:
  assumes "blob_bucket B blobs pend writing" and "ens \<noteq> []"
    and "jp_persist_stream (blob_storage B now) ens (new_journal_persister s) = (es, lp)"
    and "blobs (bs_bucket (jp_storage (jp_finalize (blob_storage B now) lp))) data_key = Some c"
    and "blobs (bs_bucket s') data_key = Some (take n c)"
  shows "(\<forall>i. \<exists>m \<le> length c. journal_of (take m c) (take i (map record_of ens))) \<and>
    (\<exists>k \<le> length ens. jp_recover (blob_storage B now) sizes (new_journal_persister s') =
        Inr (take k (map record_of ens)) \<and>
      (\<forall>i \<le> length ens. (\<exists>m \<le> n. journal_of (take m c) (take i (map record_of ens))) \<longleftrightarrow> i \<le> k))"
proof -
  note P = blob_bucket.persist_and_finalize [OF assms(1,2)] and R = blob_bucket.recover_torn_blob [OF assms(1,5)]
  obtain lp' c' where l: "jp_persist_stream (blob_storage B now) ens (new_journal_persister s) = (encode_errors ens, lp')"
    "blobs (bs_bucket (jp_storage (jp_finalize (blob_storage B now) lp'))) = (blobs (bs_bucket s))(data_key \<mapsto> c')"
    "journal_of c' (map record_of ens)" by (rule P)
  have c: "journal_of c (map record_of ens)" using l assms(3,4) by simp
  then obtain cs where cs: "stream_ok c cs" "is_records (map record_of ens) cs" by (auto simp: journal_of_def)
  have "\<forall>i. \<exists>m \<le> length c. journal_of (take m c) (take i (map record_of ens))"
    using journal_of_take [OF cs, of "[]"] by simp
  then show ?thesis using R [OF c, of now sizes] by (metis length_map)
qed

text \<open>
  The snapshot of two entries of two bytes and one, cut off at every byte: the first entry ends
  after nine bytes, the second after eight more.
\<close>

theorem torn_snapshot_recovers_prefix_witness:
  "\<exists>es lp c. jp_persist_stream (blob_storage journal_bucket []) [Inr [1, 2], Inr [3]]
      (new_journal_persister empty_store) = (es, lp) \<and>
    bs_bucket (jp_storage (jp_finalize (blob_storage journal_bucket []) lp)) ''journal/jobs.snapshot'' = Some c \<and>
    (\<forall>n. \<exists>k \<le> 2. jp_recover (blob_storage journal_bucket []) (\<lambda>_ _. 0)
        (new_journal_persister (empty_store\<lparr>bs_bucket := (\<lambda>_. None)(''journal/jobs.snapshot'' \<mapsto> take n c)\<rparr>)) =
        Inr (take k [[1, 2], [3]]) \<and>
      (\<forall>i \<le> 2. (\<exists>m \<le> n. journal_of (take m c) (take i [[1, 2], [3]])) \<longleftrightarrow> i \<le> k))"
proof -
  let ?S = "blob_storage journal_bucket []" and ?ens = "[Inr [1, 2], Inr [3]] :: (gob_error + bytes) list"
  obtain lp c where l: "jp_persist_stream ?S ?ens (new_journal_persister empty_store) = (encode_errors ?ens, lp)"
    "journal_blobs (bs_bucket (jp_storage (jp_finalize ?S lp))) = (journal_blobs (bs_bucket empty_store))(data_key \<mapsto> c)"
    by (rule jmem.persist_and_finalize [of ?ens "[]" empty_store]) simp_all
  have c: "journal_blobs (bs_bucket (jp_storage (jp_finalize ?S lp))) data_key = Some c" by (simp add: l(2))
  have t: "journal_blobs (bs_bucket (empty_store\<lparr>bs_bucket :=
      (\<lambda>_. None)(''journal/jobs.snapshot'' \<mapsto> take n c)\<rparr>)) data_key = Some (take n c)" for n
    by (simp add: journal_blobs_def data_key_def)
  have "?ens \<noteq> []" by simp
  note torn = torn_snapshot_recovers_prefix [OF jmem.blob_bucket_axioms, OF this l(1) c t, of "\<lambda>_ _. 0", THEN conjunct2]
  have "map record_of ?ens = [[1, 2], [3]]" "length ?ens = 2" by (simp_all add: record_of_def)
  note torn = torn [unfolded this]
  have "bs_bucket (jp_storage (jp_finalize ?S lp)) ''journal/jobs.snapshot'' = Some c"
    using c by (simp add: journal_blobs_def data_key_def)
  with torn l(1) show ?thesis by blast
qed

text \<open>
  C10: The journal writer refines an append-only list of records, the last of which may be
  open: \<open>Next\<close> closes the open one and opens an empty one, \<open>Write\<close> extends the open one;
  \<open>Flush\<close> and \<open>Close\<close> close it and write everything out, which reads back as exactly the
  records, and after \<open>Close\<close> the writer answers \<open>Next\<close>, \<open>Flush\<close> and a second \<open>Close\<close> with the error
  of a closed writer and writes nothing more.
\<close>

theorem journal_writer_refines_records:
  assumes "byte_sink io good content" and "good s" and "wrote w (content s) recs cur"
  shows "(\<exists>w' s'. jw_next io (w, s) = Some (Inr (jw_seq w'), w', s') \<and> good s' \<and>
      wrote w' (content s') (finished recs cur) (Some [])) \<and>
    (\<forall>b q. cur = Some b \<longrightarrow> (\<exists>w' s'. jw_write io (jw_seq w) q (w, s) = Some (None, w', s') \<and> good s' \<and>
      wrote w' (content s') recs (Some (b @ q)))) \<and>
    (\<exists>w' s'. jw_flush io (w, s) = Some (None, w', s') \<and> good s' \<and>
      wrote w' (content s') (finished recs cur) None \<and>
      recover_loop sizes 0 (new_reader (content s', None) False True) = Some (finished recs cur)) \<and>
    (\<exists>w' s'. jw_close io (w, s) = Some (None, w', s') \<and> good s' \<and>
      recover_loop sizes 0 (new_reader (content s', None) False True) = Some (finished recs cur) \<and>
      (\<exists>w''. jw_next io (w', s') = Some (Inl Closed_Writer, w'', s')) \<and>
      (\<exists>w''. jw_flush io (w', s') = Some (Some Closed_Writer, w'', s')) \<and>
      (\<exists>w''. jw_close io (w', s') = Some (Some Closed_Writer, w'', s')))"
    (is "?N \<and> ?W \<and> ?F \<and> ?C")
proof (intro conjI)
  show ?N using byte_sink.jw_next_wrote [OF assms] by metis
  show ?W
  proof (intro allI impI)
    fix b q
    assume "cur = Some b"
    with assms(3) have "wrote w (content s) recs (Some b)" by simp
    from byte_sink.jw_write_wrote [OF assms(1,2) this, of q]
    show "\<exists>w' s'. jw_write io (jw_seq w) q (w, s) = Some (None, w', s') \<and> good s' \<and>
      wrote w' (content s') recs (Some (b @ q))" by metis
  qed
  obtain w' s' where "jw_flush io (w, s) = Some (None, w', s')" "good s'"
    "wrote w' (content s') (finished recs cur) None" "journal_of (content s') (finished recs cur)"
    by (rule byte_sink.jw_flush_wrote [OF assms])
  with recover_journal show ?F by blast
  obtain w2 s2 where c: "jw_close io (w, s) = Some (None, w2, s2)" "good s2" "journal_of (content s2) (finished recs cur)"
    by (rule byte_sink.jw_close_wrote [OF assms])
  then have "jw_err w2 = Some Closed_Writer" by (auto simp: jw_close_def Let_def split: option.splits if_splits)
  with c recover_journal [OF c(3)] show ?C
    by (simp add: jw_next_def jw_flush_def [of _ "(w2, s2)"] jw_close_def [of _ "(w2, s2)"] write_pending_def)
qed

text \<open>A list of bytes as the underlying writer: after a \<open>Next\<close> and a \<open>Write\<close>.\<close>

definition list_io :: "(bytes, unit) io_ops" where
  "list_io = \<lparr>io_write = \<lambda>b s. (None, s @ b), io_flush = None\<rparr>"

theorem journal_writer_refines_records_witness:
  "\<exists>w1 s1 w2 s2 w3 s3. jw_next list_io (new_writer, []) = Some (Inr (jw_seq w1), w1, s1) \<and>
    jw_write list_io (jw_seq w1) [1, 2, 3] (w1, s1) = Some (None, w2, s2) \<and>
    jw_flush list_io (w2, s2) = Some (None, w3, s3) \<and>
    recover_loop (\<lambda>_ _. 0) 0 (new_reader (s3, None :: unit option) False True) = Some [[1, 2, 3]]"
proof -
  have sink: "byte_sink list_io (\<lambda>_. True) (\<lambda>s. s)" by unfold_locales (auto simp: list_io_def)
  note R = journal_writer_refines_records [OF sink TrueI]
  obtain w1 s1 where 1: "jw_next list_io (new_writer, []) = Some (Inr (jw_seq w1), w1, s1)"
    "wrote w1 s1 [] (Some [])"
    using R [OF new_writer_wrote, THEN conjunct1] by (auto simp: finished_def)
  obtain w2 s2 where 2: "jw_write list_io (jw_seq w1) [1, 2, 3] (w1, s1) = Some (None, w2, s2)"
    "wrote w2 s2 [] (Some [1, 2, 3])"
    using R [OF 1(2), THEN conjunct2, THEN conjunct1, rule_format, of "[]" "[1, 2, 3]"] by auto
  obtain w3 s3 where "jw_flush list_io (w2, s2) = Some (None, w3, s3)"
    "recover_loop (\<lambda>_ _. 0) 0 (new_reader (s3, None :: unit option) False True) = Some [[1, 2, 3]]"
    using R [OF 2(2), THEN conjunct2, THEN conjunct2, THEN conjunct1, of "\<lambda>_ _. 0"] by (auto simp: finished_def)
  with 1 2 show ?thesis by blast
qed

end
