(* ===== verification/Hub_Restart.thy ===== *)
theory Hub_Restart
  imports Journal_Persister
begin

text \<open>
  The hub, its persister and the store together: a shutdown that saves the jobs, and a start
  that restores them.
\<close>

section \<open>Restoring\<close>

text \<open>A restore is a sequence of \<open>AddJobLocked\<close> calls, so it keeps the invariant.\<close>

lemma hub_add_good: "hub_good h \<Longrightarrow> hub_good (snd (hub_add F rank now j h))"
  by (rule hub_do_good [of h F "OpAdd rank now j"]) (auto split: prod.splits)

lemma restore_loop_good: "hub_good h \<Longrightarrow> hub_good (snd (restore_loop F ranks clk k bs c h))"
proof (induction bs arbitrary: k c h)
  case (Cons b bs)
  obtain e j where d: "gob_decode b zero_job = (e, j)" by fastforce
  obtain r h1 where a: "hub_add F (ranks k) (clk k) j h = (r, h1)" by fastforce
  have "hub_good h1" using hub_add_good [OF Cons.prems, of F "ranks k" "clk k" j] a by simp
  with Cons d a show ?case by (cases e; cases r) simp_all
qed simp

lemma hub_restore_good: "hub_good h \<Longrightarrow> hub_restore P F ranks clk st h = (e, h') \<Longrightarrow> hub_good h'"
  using restore_loop_good [of h F ranks clk 0 _ "\<lparr>decode_errors = 0, add_errors = 0, recovered = 0\<rparr>"]
  by (auto simp: hub_restore_def Let_def split: sum.splits prod.splits) (metis snd_conv)

text \<open>
  A snapshot that fits a new hub: the encodings of jobs that the new hub takes back without an
  error.
\<close>

lemma restore_snapshot:
  assumes "distinct (map job_id js)" and "\<forall>j \<in> set js. restorable (past_bound (new_hub f span now1 now2)) j"
    and "list_all2 (\<lambda>j b. gob_encode j = Inr b) js bufs" and "0 < sint span" and "p_recover P st = Inr bufs"
  obtains h' where "hub_restore P F ranks clk st (new_hub f span now1 now2) = (None, h')"
    "hub_jobs h' = mset js"
proof -
  let ?h0 = "new_hub f span now1 now2"
  have "hub_ids ?h0 = {#}" by (simp add: hub_ids_def new_hub_jobs)
  moreover have "sint (spoke_span ?h0) = sint span" by (simp add: new_hub_def)
  ultimately obtain h' where "restore_loop F ranks clk 0 bufs
        \<lparr>decode_errors = 0, add_errors = 0, recovered = 0\<rparr> ?h0 =
      (\<lparr>decode_errors = 0, add_errors = 0, recovered = 0 + length js\<rparr>, h')" "hub_jobs h' = mset js + hub_jobs ?h0"
    using restore_loop_all [OF new_hub_wf _ assms(1), of f span now1 now2 bufs F ranks clk 0
        "\<lparr>decode_errors = 0, add_errors = 0, recovered = 0\<rparr>"] assms(2-4) by auto
  with that assms(5) show ?thesis by (simp add: hub_restore_def new_hub_jobs)
qed

section \<open>Saving\<close>

lemma map_all_Inr: "\<forall>x \<in> set xs. \<exists>b. f x = Inr b \<Longrightarrow> \<exists>bs. map f xs = map Inr bs"
proof (induction xs)
  case (Cons x xs)
  then obtain b bs where "f x = Inr b" "map f xs = map Inr bs" by auto
  then have "map f (x # xs) = map Inr (b # bs)" by simp
  then show ?case by blast
qed simp

text \<open>A hub whose jobs can all be encoded and taken back by the given new hub.\<close>

definition saveable :: "'g hub \<Rightarrow> 'f hub \<Rightarrow> bool" where
  "saveable h0 h \<longleftrightarrow> hub_wf h \<and> (\<forall>x. count (hub_ids h) x \<le> 1) \<and>
     (\<forall>j \<in># hub_jobs h. gob_small j \<and> restorable (past_bound h0) j)"

lemma saveable_jobs:
  assumes "saveable h0 h"
  shows "mset (persist_order h) = hub_jobs h" "distinct (map job_id (persist_order h))"
    "\<forall>j \<in> set (persist_order h). restorable (past_bound h0) j"
    "\<exists>bufs. map gob_encode (persist_order h) = map Inr bufs"
proof -
  show m: "mset (persist_order h) = hub_jobs h"
    using assms by (intro persist_order_mset) (simp add: saveable_def)
  show "distinct (map job_id (persist_order h))"
    by (rule distinct_ids [OF m]) (use assms in \<open>simp add: saveable_def hub_ids_def\<close>)
  have s: "set (persist_order h) = set_mset (hub_jobs h)" by (simp flip: m)
  then show "\<forall>j \<in> set (persist_order h). restorable (past_bound h0) j" using assms by (simp add: saveable_def)
  show "\<exists>bufs. map gob_encode (persist_order h) = map Inr bufs"
    by (rule map_all_Inr) (use assms s gob_encode_ok in \<open>simp add: saveable_def\<close>)
qed

text \<open>A shutdown with jobs replaces the snapshot by one of them all.\<close>

lemma stop_saves:
  assumes "blob_bucket B blobs pend writing" and "saveable h0 h" and "hub_jobs h \<noteq> {#}"
  obtains lp bufs where
    "hub_stop (journal_ops (blob_storage B now) sizes) True h (new_journal_persister s) = (0, lp)"
    "\<And>now sizes. p_recover (journal_ops (blob_storage B now) sizes) (new_journal_persister (jp_storage lp)) = Inr bufs"
    "list_all2 (\<lambda>j b. gob_encode j = Inr b) (persist_order h) bufs"
proof -
  let ?S = "blob_storage B now" and ?js = "persist_order h"
  note js = saveable_jobs [OF assms(2)]
  obtain bufs where b: "map gob_encode ?js = map Inr bufs" using js(4) by blast
  have "map gob_encode ?js \<noteq> []" using assms(3) js(1) by auto
  from blob_bucket.persist_and_finalize [OF assms(1) this, of now s] obtain lp c where
    l: "jp_persist_stream ?S (map gob_encode ?js) (new_journal_persister s) = (encode_errors (map gob_encode ?js), lp)"
    "blobs (bs_bucket (jp_storage (jp_finalize ?S lp))) = (blobs (bs_bucket s))(data_key \<mapsto> c)"
    "journal_of c (map record_of (map gob_encode ?js))" by metis
  have r: "map record_of (map gob_encode ?js) = bufs" "encode_errors (map gob_encode ?js) = []"
    unfolding b by (induction bufs) (simp_all add: record_of_def encode_errors_def map_filter_simps)
  have "hub_stop (journal_ops ?S sizes) True h (new_journal_persister s) = (0, jp_finalize ?S lp)"
    using l(1) r(2) by (simp add: hub_stop_def hub_persist_eq persist_jobs_stream) (simp add: journal_ops_def)
  moreover have "p_recover (journal_ops (blob_storage B now') sizes')
      (new_journal_persister (jp_storage (jp_finalize ?S lp))) = Inr bufs" for now' sizes'
    using blob_bucket.recover_blob [OF assms(1) _ l(3) [unfolded r(1)], of "jp_storage (jp_finalize ?S lp)" now' sizes'] l(2)
    by (simp add: journal_ops_def)
  moreover have "list_all2 (\<lambda>j b. gob_encode j = Inr b) ?js bufs"
    using b by (auto simp: list_all2_conv_all_nth list_eq_iff_nth_eq)
  ultimately show ?thesis using that by blast
qed

text \<open>A shutdown without jobs never opens the store.\<close>

lemma stop_empty:
  assumes "hub_wf h" and "hub_jobs h = {#}"
  shows "hub_stop (journal_ops S sizes) True h (new_journal_persister s) = (0, new_journal_persister s)"
proof -
  have "persist_order h = []" using persist_order_mset [OF assms(1)] assms(2) by simp
  then show ?thesis
    by (simp add: hub_stop_def hub_persist_eq)
      (simp add: journal_ops_def jp_finalize_def new_journal_persister_def)
qed

section \<open>Stop and start\<close>

lemma stop_and_restore:
  assumes "blob_bucket B blobs pend writing" and "saveable (new_hub (f :: 'f) span now1 now2) h"
    and "hub_jobs h \<noteq> {#}" and "0 < sint span"
  obtains lp where
    "hub_stop (journal_ops (blob_storage B now) sizes) True h (new_journal_persister s) = (0, lp)"
    "\<And>F ranks clk now' sizes' (f' :: 'f) now1' now2'. saveable (new_hub f' span now1' now2') h \<Longrightarrow>
      \<exists>h'. hub_restore (journal_ops (blob_storage B now') sizes') F ranks clk
        (new_journal_persister (jp_storage lp)) (new_hub f' span now1' now2') = (None, h') \<and> hub_jobs h' = hub_jobs h"
proof -
  obtain lp bufs where l: "hub_stop (journal_ops (blob_storage B now) sizes) True h (new_journal_persister s) = (0, lp)"
    "\<And>now sizes. p_recover (journal_ops (blob_storage B now) sizes) (new_journal_persister (jp_storage lp)) = Inr bufs"
    "list_all2 (\<lambda>j b. gob_encode j = Inr b) (persist_order h) bufs"
    using stop_saves [OF assms(1-3), of now sizes s] by metis
  have R: "\<exists>h'. hub_restore (journal_ops (blob_storage B now') sizes') F ranks clk
        (new_journal_persister (jp_storage lp)) (new_hub f' span now1' now2') = (None, h') \<and> hub_jobs h' = hub_jobs h"
    if "saveable (new_hub f' span now1' now2') h" for F ranks clk now' sizes' f' now1' now2'
    by (rule restore_snapshot [OF saveable_jobs(2,3) [OF that] l(3) assms(4) l(2)])
      (use saveable_jobs(1) [OF that] in auto)
  show ?thesis by (rule that [OF l(1)]) (rule R)
qed

end
