(* ===== verification/Hub_Drain.thy ===== *)
theory Hub_Drain
  imports Hub_Steps
begin

text \<open>
  Liveness and order of \<open>NextLocked\<close>. Once every job of the hub is ready and every spoke
  has expired, repeated calls hand out every job exactly once; a call may answer nothing
  although jobs are ready (it has met an empty spoke), but not more often than there are
  waiting spokes. With the past spoke empty the jobs come out in the order of their trigger
  times.
\<close>

section \<open>Polling\<close>

text \<open>Up to \<open>n\<close> calls, until one hands out a job.\<close>

fun hub_poll ::
  "'f filter_ops \<Rightarrow> (nat \<Rightarrow> instant) \<Rightarrow> nat \<Rightarrow> 'f hub \<Rightarrow> (job \<times> 'f hub) option" where
  "hub_poll F clk 0 h = None"
| "hub_poll F clk (Suc n) h =
     (case hub_next F clk h of
        Some (Some j, h') \<Rightarrow> Some (j, h')
      | Some (None, h') \<Rightarrow> hub_poll F clk n h'
      | None \<Rightarrow> None)"

text \<open>One call more than there are waiting spokes.\<close>

definition hub_take :: "'f filter_ops \<Rightarrow> instant \<Rightarrow> 'f hub \<Rightarrow> (job \<times> 'f hub) option" where
  "hub_take F now h = hub_poll F (\<lambda>_. now) (Suc (pq_len (spokes h))) h"

section \<open>Late states\<close>

definition hub_due :: "instant \<Rightarrow> 'f hub \<Rightarrow> bool" where
  "hub_due now h \<longleftrightarrow> hub_wf h \<and> (\<forall>j \<in># hub_jobs h. trigger_at j \<le> now) \<and>
     (\<forall>(b, a) \<in> set (spoke_map h). b_end b < now)"

lemma hub_due_later: "hub_due t h \<Longrightarrow> t \<le> now \<Longrightarrow> hub_due now h"
  by (fastforce simp: hub_due_def)

definition hub_ordered :: "'f hub \<Rightarrow> bool" where
  "hub_ordered h \<longleftrightarrow> spoke_jobs (spoke_at h (past_spoke h)) = {#} \<and>
     (\<forall>c. current_spoke h = Some c \<longrightarrow>
        (\<forall>j \<in># spoke_jobs (spoke_at h c). \<forall>a \<in># waiting h. \<forall>k \<in># spoke_jobs (spoke_at h a).
           trigger_at j \<le> trigger_at k))"

definition hub_due_ordered :: "instant \<Rightarrow> 'f hub \<Rightarrow> bool" where
  "hub_due_ordered now h \<longleftrightarrow> hub_due now h \<and> hub_ordered h"

lemma pq_len_waiting: "pq_len (spokes h) = size (waiting h)"
  by (simp add: waiting_def)

lemma hub_jobs_parts:
  assumes "hub_wf h"
  shows "hub_jobs h = spoke_jobs (spoke_at h (past_spoke h)) +
    (\<Sum>a \<in># waiting h. spoke_jobs (spoke_at h a)) +
    (case current_spoke h of None \<Rightarrow> {#} | Some c \<Rightarrow> spoke_jobs (spoke_at h c))"
proof -
  have "mset (live h) = add_mset (past_spoke h) (waiting h + current_mset h)"
    using map_heap [OF assms] by (simp add: live_def)
  then have "hub_jobs h = spoke_jobs (spoke_at h (past_spoke h)) +
      (\<Sum>a \<in># waiting h + current_mset h. spoke_jobs (spoke_at h a))"
    by (simp add: hub_jobs_def)
  then show ?thesis by (simp add: current_mset_def ac_simps split: option.splits)
qed

lemma due_current_end:
  assumes "hub_due now h" and "current_spoke h = Some c"
  shows "b_end (spoke_bound (spoke_at h c)) < now"
proof -
  have wf: "hub_wf h" using assms(1) by (simp add: hub_due_def)
  obtain b where b: "(b, c) \<in> set (spoke_map h)" using current_in_map [OF wf assms(2)] by auto
  then show ?thesis using map_bound [OF wf b] assms(1) by (auto simp: hub_due_def)
qed

text \<open>Jobs of a spoke that starts earlier trigger earlier.\<close>

lemma earlier_spoke:
  assumes wf: "hub_wf h" and a: "a \<in># waiting h" and b: "b \<in># waiting h - {#a#}"
    and start: "b_start (spoke_bound (spoke_at h a)) \<le> b_start (spoke_bound (spoke_at h b))"
    and j: "j \<in># spoke_jobs (spoke_at h a)" and k: "k \<in># spoke_jobs (spoke_at h b)"
  shows "trigger_at j \<le> trigger_at k"
proof -
  have b': "b \<in># waiting h" using b by (rule in_diffD)
  obtain x where x: "(x, a) \<in> set (spoke_map h)" using waiting_in_map [OF wf a] by auto
  obtain y where y: "(y, b) \<in> set (spoke_map h)" using waiting_in_map [OF wf b'] by auto
  have "distinct (map snd (spoke_map h))" using live_distinct [OF wf] by (simp add: live_def)
  then have "count (waiting h) a \<le> 1"
    using map_heap [OF wf] by (metis count_union distinct_count_atmost_1 le_add1 le_trans le_refl zero_le_one)
  with b have "a \<noteq> b" by (auto simp: count_eq_zero_iff [symmetric] simp flip: count_greater_zero_iff)
  have xy: "x \<noteq> y"
  proof
    assume "x = y"
    with x y map_distinct [OF wf] have "a = b" by (metis map_of_is_SomeI option.inject)
    with \<open>a \<noteq> b\<close> show False by simp
  qed
  have al: "aligned (spoke_span h) x" "aligned (spoke_span h) y"
    using map_aligned [OF wf] x y by blast+
  have xa: "spoke_bound (spoke_at h a) = x" and yb: "spoke_bound (spoke_at h b) = y"
    using map_bound [OF wf] x y by blast+
  have "b_start x \<noteq> b_start y" using xy al by (auto simp: aligned_def bound.equality)
  then have "b_end x \<le> b_start y" using aligned_before [OF al] start xa yb by simp
  moreover have "contains_time x (trigger_at j)" "contains_time y (trigger_at k)"
    using spoke_jobs_in_bounds [OF live_inv [OF wf map_live [OF x]] j]
      spoke_jobs_in_bounds [OF live_inv [OF wf map_live [OF y]] k] xa yb by simp_all
  ultimately show ?thesis by (simp add: contains_time_iff)
qed

section \<open>Order\<close>

text \<open>Reading from the current spoke keeps the order, whatever the clock reads.\<close>

lemma read_ordered:
  assumes wf: "hub_wf h" and c: "current_spoke h = Some c" and o: "hub_ordered h"
    and rd: "read_current clk h = Some (r, h')"
  shows "hub_ordered h' \<and> (\<forall>j. r = Some j \<longrightarrow> (\<forall>k \<in># hub_jobs h. trigger_at j \<le> trigger_at k))"
proof (cases rule: read_current_cases [OF wf c, of clk])
  case 1
  then show ?thesis using rd o by simp
next
  case (2 j h1)
  then have r: "r = Some j" "h' = h1" using rd by simp_all
  have past: "spoke_jobs (spoke_at h (past_spoke h)) = {#}" using o by (simp add: hub_ordered_def)
  have "distinct (map snd (spoke_map h))" "past_spoke h \<notin> set (map snd (spoke_map h))"
    using live_distinct [OF wf] by (simp_all add: live_def)
  then have pc: "past_spoke h \<noteq> c" and cw: "c \<notin># waiting h"
  proof -
    show "past_spoke h \<noteq> c" using current_in_map [OF wf c] \<open>past_spoke h \<notin> _\<close> by auto
    have "count (mset (map snd (spoke_map h))) c \<le> 1"
      using \<open>distinct _\<close> by (simp add: distinct_count_atmost_1)
    then have "count (waiting h) c + 1 \<le> 1" using map_heap [OF wf] c by (simp add: current_mset_def)
    then show "c \<notin># waiting h" by (simp add: not_in_iff)
  qed
  have wait: "waiting h1 = waiting h" by (simp add: waiting_def 2(7))
  have sub: "k \<in># spoke_jobs (spoke_at h c)" if "k \<in># spoke_jobs (spoke_at h1 c)" for k
    using that 2(10) by simp
  have "hub_ordered h1"
    unfolding hub_ordered_def wait 2(8,9)
  proof (intro conjI allI impI ballI)
    show "spoke_jobs (spoke_at h1 (past_spoke h)) = {#}" using past pc 2(12) by simp
    fix x i a k
    assume "current_spoke h = Some x" and i: "i \<in># spoke_jobs (spoke_at h1 x)"
      and a: "a \<in># waiting h" and k: "k \<in># spoke_jobs (spoke_at h1 a)"
    then have "x = c" using c by simp
    moreover have "spoke_at h1 a = spoke_at h a" using a cw 2(12) by metis
    ultimately show "trigger_at i \<le> trigger_at k"
      using o c sub i a k unfolding hub_ordered_def by metis
  qed
  moreover have "trigger_at j \<le> trigger_at k" if "k \<in># hub_jobs h" for k
    using o that past c 2(4,5) unfolding hub_jobs_parts [OF wf] hub_ordered_def by auto
  ultimately show ?thesis by (simp add: r)
qed

text \<open>Choosing the next spoke restores the order.\<close>

lemma choose_ordered:
  assumes wf: "hub_wf h" and cur: "current_spoke h = None"
    and past: "spoke_jobs (spoke_at h (past_spoke h)) = {#}" and ch: "choose_current clk h = Some (b, h')"
  shows "hub_ordered h'"
proof (cases rule: choose_current_cases [OF wf, of clk])
  case (1 c)
  then show ?thesis using cur by simp
next
  case (2 h1)
  then show ?thesis using past ch by (simp add: hub_ordered_def spoke_at_def)
next
  case (3 a h1)
  have at: "spoke_at h1 x = spoke_at h x" for x by (simp add: spoke_at_def 3(8))
  have "hub_ordered h1"
    unfolding hub_ordered_def 3(3,7) at
  proof (intro conjI allI impI ballI)
    fix c j b k
    assume c: "Some a = Some c" and j: "j \<in># spoke_jobs (spoke_at h c)"
      and b: "b \<in># waiting h1" and k: "k \<in># spoke_jobs (spoke_at h b)"
    show "trigger_at j \<le> trigger_at k"
      by (rule earlier_spoke [OF wf, of a b]) (use 3(5,9) c j b k in auto)
  qed (rule past)
  then show ?thesis using 3(1) ch by simp
qed

text \<open>Dropping the current spoke, at any time.\<close>

lemma drop_ordered:
  assumes wf: "hub_wf h" and o: "hub_ordered h"
  shows "hub_wf (drop_current clk h) \<and> hub_ordered (drop_current clk h) \<and> hub_jobs (drop_current clk h) = hub_jobs h \<and>
    set (spoke_map (drop_current clk h)) \<subseteq> set (spoke_map h)"
proof (cases rule: drop_current_cases [OF wf, of clk])
  case (2 c h1)
  have "set (spoke_map h1) \<subseteq> set (spoke_map h)"
    using 2(10) by (metis set_mset_mset set_mset_add_mset_insert subset_insertI)
  with 2 o show ?thesis by (simp add: hub_ordered_def jobs_kept_def spoke_at_def)
qed (use wf o in simp)

text \<open>
  A whole call at any time: an ordered hub stays ordered, a job that comes out triggers no
  later than any other, and no spoke is added.
\<close>

lemma next_job_ordered:
  assumes wf: "hub_wf h" and o: "hub_ordered h" and nj: "next_job clk h = Some (r, h')"
  shows "hub_ordered h' \<and> set (spoke_map h') \<subseteq> set (spoke_map h) \<and>
    (\<forall>j. r = Some j \<longrightarrow> (\<forall>k \<in># hub_jobs h. trigger_at j \<le> trigger_at k))"
proof -
  have past: "spoke_jobs (spoke_at h (past_spoke h)) = {#}" using o by (simp add: hub_ordered_def)
  have none: "next_past clk h = Some (None, h)"
    by (cases rule: next_past_cases [OF wf, of clk]) (use past in auto)
  define h1 where "h1 = drop_current clk h"
  have h1: "hub_wf h1" "hub_ordered h1" "hub_jobs h1 = hub_jobs h" "set (spoke_map h1) \<subseteq> set (spoke_map h)"
    using drop_ordered [OF wf o, of clk] by (simp_all add: h1_def)
  then have past1: "spoke_jobs (spoke_at h1 (past_spoke h1)) = {#}" by (simp add: hub_ordered_def)
  have eq: "next_job clk h = (case choose_current clk h1 of
      None \<Rightarrow> None | Some (False, h2) \<Rightarrow> Some (None, h2) | Some (True, h2) \<Rightarrow> read_current clk h2)"
    using none by (simp add: next_job_def h1_def)
  have read: ?thesis if wf2: "hub_wf h2" and o2: "hub_ordered h2" and c: "current_spoke h2 = Some c"
    and rd: "read_current clk h2 = Some (r, h')" and j2: "hub_jobs h2 = hub_jobs h"
    and m2: "set (spoke_map h2) \<subseteq> set (spoke_map h)" for h2 c
  proof -
    have "spoke_map h' = spoke_map h2" by (cases rule: read_current_cases [OF wf2 c, of clk]) (use rd in auto)
    with read_ordered [OF wf2 c o2 rd] j2 m2 show ?thesis by simp
  qed
  show ?thesis
  proof (cases rule: choose_current_cases [OF h1(1), of clk])
    case (1 c)
    then show ?thesis using h1 nj by (intro read [of h1 c]) (simp_all add: eq)
  next
    case (2 h2)
    then show ?thesis using nj choose_ordered [OF h1(1) 2(2) past1 2(1)] by (simp add: eq)
  next
    case (3 a h2)
    have "hub_ordered h2" by (rule choose_ordered [OF h1(1) 3(2) past1 3(1)])
    with 3 nj h1 show ?thesis by (intro read [of h2 a]) (simp_all add: eq jobs_kept_def)
  qed
qed

lemma hub_ordered_filter [simp]: "hub_ordered (h\<lparr>job_filter_state := f\<rparr>) = hub_ordered h"
  by (simp add: hub_ordered_def waiting_def)

lemma hub_next_ordered:
  assumes "hub_wf h" and "hub_ordered h" and "hub_next F clk h = Some (r, h')"
  shows "hub_ordered h' \<and> set (spoke_map h') \<subseteq> set (spoke_map h) \<and>
    (\<forall>j. r = Some j \<longrightarrow> (\<forall>k \<in># hub_jobs h. trigger_at j \<le> trigger_at k))"
  using assms(3) next_job_ordered [OF assms(1,2)]
  by (fastforce simp: hub_next_def split: option.splits prod.splits)

section \<open>One call at a late time\<close>

lemma due_taken:
  assumes "hub_due now h" and "hub_wf h'" and "hub_jobs h = add_mset j (hub_jobs h')"
    and "spoke_map h' = spoke_map h"
  shows "hub_due now h'"
  using assms by (simp add: hub_due_def)

lemma due_ready:
  "hub_due now h \<Longrightarrow> \<forall>i. now \<le> clk i \<Longrightarrow> j \<in># hub_jobs h \<Longrightarrow> \<not> clk i < trigger_at j"
  by (meson hub_due_def not_less order_trans)

text \<open>
  The readings within the call may differ, as long as none is before the late instant. The past
  spoke has something to give, or holds nothing.
\<close>

lemma late_past:
  assumes due: "hub_due now h" and late: "\<forall>i. now \<le> clk i"
  obtains (none) "next_past clk h = Some (None, h)" "spoke_jobs (spoke_at h (past_spoke h)) = {#}"
  | (some) j h' where "next_past clk h = Some (Some j, h')" "job_taken h j h'" "hub_due now h'"
      "\<not> hub_ordered h" "spokes h' = spokes h"
proof -
  have wf: "hub_wf h" using due by (simp add: hub_due_def)
  show ?thesis
  proof (cases rule: next_past_cases [OF wf, of clk])
    case 1
    have "j \<in># spoke_jobs (spoke_at h (past_spoke h)) \<Longrightarrow> False" for j
      using 1(2) [of j] due_ready [OF due late hub_jobs_live [OF past_live], of j 0] by blast
    then show ?thesis using none 1(1) by (meson multiset_nonemptyE)
  next
    case (2 j h')
    then have "\<not> hub_ordered h" by (simp add: hub_ordered_def)
    with 2 due show ?thesis
      by (intro some [of j h']) (auto simp: job_taken_def intro: due_taken)
  qed
qed

lemma late_drop:
  assumes due: "hub_due now h" and late: "\<forall>i. now \<le> clk i"
  obtains h' where "drop_current clk h = h'" "jobs_kept h h'" "hub_due now h'"
    "spokes h' = spokes h" "past_spoke h' = past_spoke h" "spoke_store h' = spoke_store h"
    "current_spoke h' = None \<or> h' = h"
    "\<And>c. current_spoke h' = Some c \<Longrightarrow> spoke_jobs (spoke_at h' c) \<noteq> {#}"
proof -
  have wf: "hub_wf h" using due by (simp add: hub_due_def)
  show ?thesis
  proof (cases rule: drop_current_cases [OF wf, of clk])
    case 1
    then show ?thesis using wf due less_le_trans [OF due_current_end [OF due] spec [OF late, of 1]] by (intro that [of h]) fastforce+
  next
    case (2 c h')
    have "set (spoke_map h') \<subseteq> set (spoke_map h)"
      using 2(10) by (metis set_mset_mset set_mset_add_mset_insert subset_insertI)
    then have "hub_due now h'" using 2(4) due by (auto simp: hub_due_def jobs_kept_def)
    with 2 show ?thesis by (intro that [of h']) simp_all
  qed
qed

text \<open>Reading from a current spoke.\<close>

lemma late_read:
  assumes due: "hub_due now h" and late: "\<forall>i. now \<le> clk i" and c: "current_spoke h = Some c"
    and past: "spoke_jobs (spoke_at h (past_spoke h)) = {#}"
  obtains (none) "read_current clk h = Some (None, h)" "spoke_jobs (spoke_at h c) = {#}"
  | (some) j h' where "read_current clk h = Some (Some j, h')" "job_taken h j h'" "hub_due now h'"
      "spokes h' = spokes h" "hub_ordered h \<Longrightarrow> hub_ordered h'"
      "hub_ordered h \<Longrightarrow> (\<And>k. k \<in># hub_jobs h \<Longrightarrow> trigger_at j \<le> trigger_at k)"
proof -
  have wf: "hub_wf h" using due by (simp add: hub_due_def)
  show ?thesis
  proof (cases rule: read_current_cases [OF wf c, of clk])
    case 1
    have "j \<in># spoke_jobs (spoke_at h c) \<Longrightarrow> False" for j
      using 1(2) [of j] due_ready [OF due late hub_jobs_live [OF current_live [OF wf c]], of j 5] by blast
    then show ?thesis using none 1(1) by (meson multiset_nonemptyE)
  next
    case (2 j h')
    note read_ordered [OF wf c _ 2(1)]
    then show ?thesis
      using 2 due by (intro some [of j h']) (auto simp: job_taken_def intro: due_taken)
  qed
qed

lemma late_choose:
  assumes due: "hub_due now h" and late: "\<forall>i. now \<le> clk i" and cur: "current_spoke h = None"
    and past: "spoke_jobs (spoke_at h (past_spoke h)) = {#}"
  obtains (empty) h' where "choose_current clk h = Some (False, h')" "jobs_kept h h'"
      "hub_jobs h = {#}" "hub_due now h'" "hub_ordered h'"
  | (chosen) a h' where "choose_current clk h = Some (True, h')" "jobs_kept h h'"
      "current_spoke h' = Some a" "hub_due now h'" "hub_ordered h'" "past_spoke h' = past_spoke h"
      "spoke_store h' = spoke_store h" "size (waiting h) = Suc (size (waiting h'))"
proof -
  have wf: "hub_wf h" using due by (simp add: hub_due_def)
  show ?thesis
  proof (cases rule: choose_current_cases [OF wf, of clk])
    case (1 c)
    then show ?thesis using cur by simp
  next
    case (2 h')
    have "hub_due now h'" using 2 due by (simp add: hub_due_def jobs_kept_def)
    moreover have "hub_jobs h = {#}" using past 2(4) by (simp add: hub_jobs_def live_def)
    moreover have "hub_ordered h'" using past 2 by (simp add: hub_ordered_def spoke_at_def)
    ultimately show ?thesis using 2 by (intro empty [of h']) simp_all
  next
    case (3 a h')
    have "hub_ordered h'" by (rule choose_ordered [OF wf cur past 3(1)])
    moreover have "hub_due now h'" using 3(4,6) due by (simp add: hub_due_def jobs_kept_def)
    ultimately show ?thesis using 3 by (intro chosen [of h' a]) simp_all
  qed
qed

text \<open>The whole call.\<close>

lemma hub_due_filter [simp]:
  "hub_due now (h\<lparr>job_filter_state := f\<rparr>) = hub_due now h"
  "waiting (h\<lparr>job_filter_state := f\<rparr>) = waiting h"
  by (simp_all add: hub_due_def waiting_def)

lemma late_next_job:
  assumes due: "hub_due now h" and late: "\<forall>i. now \<le> clk i"
  obtains (skip) h' where "next_job clk h = Some (None, h')" "hub_due now h'"
      "hub_jobs h' = hub_jobs h" "hub_ordered h \<Longrightarrow> hub_ordered h'"
      "hub_jobs h = {#} \<or> size (waiting h) = Suc (size (waiting h'))"
  | (some) j h' where "next_job clk h = Some (Some j, h')" "job_taken h j h'" "hub_due now h'"
      "hub_ordered h \<Longrightarrow> hub_ordered h'"
      "hub_ordered h \<Longrightarrow> (\<And>k. k \<in># hub_jobs h \<Longrightarrow> trigger_at j \<le> trigger_at k)"
proof (cases rule: late_past [OF due late])
  case (2 j h')
  then show ?thesis by (intro some [of j h']) (simp_all add: next_job_def)
next
  case past: 1
  obtain h1 where h1: "drop_current clk h = h1" "jobs_kept h h1" "hub_due now h1"
    "spokes h1 = spokes h" "past_spoke h1 = past_spoke h" "spoke_store h1 = spoke_store h"
    "current_spoke h1 = None \<or> h1 = h"
    "\<And>c. current_spoke h1 = Some c \<Longrightarrow> spoke_jobs (spoke_at h1 c) \<noteq> {#}"
    by (rule late_drop [OF due late]) blast
  have past1: "spoke_jobs (spoke_at h1 (past_spoke h1)) = {#}"
    using past(2) h1(5,6) by (simp add: spoke_at_def)
  have jobs1: "hub_jobs h1 = hub_jobs h" using h1(2) by (simp add: jobs_kept_def)
  have eq: "next_job clk h = (case choose_current clk h1 of
      None \<Rightarrow> None | Some (False, h2) \<Rightarrow> Some (None, h2) | Some (True, h2) \<Rightarrow> read_current clk h2)"
    using past(1) h1(1) by (simp add: next_job_def)
  show ?thesis
  proof (cases "current_spoke h1")
    case (Some c)
    then have same: "h1 = h" using h1(7) by auto
    have "next_job clk h = read_current clk h1"
      using Some by (simp add: eq choose_current_def)
    then show ?thesis
      using h1(8) [OF Some] some
      by (cases rule: late_read [OF h1(3) late Some past1]) (auto simp: same)
  next
    case None
    show ?thesis
    proof (cases rule: late_choose [OF h1(3) late None past1])
      case (1 h')
      then have "next_job clk h = Some (None, h')" by (simp add: eq)
      with 1 jobs1 show ?thesis by (intro skip [of h']) (simp_all add: jobs_kept_def)
    next
      case (2 a h2)
      have rd: "next_job clk h = read_current clk h2" using 2(1) by (simp add: eq)
      have past2: "spoke_jobs (spoke_at h2 (past_spoke h2)) = {#}"
        using past1 2(6,7) by (simp add: spoke_at_def)
      have kept: "jobs_kept h h2" using h1(2) 2(2) by (rule jobs_kept_trans)
      then have jobs2: "hub_jobs h2 = hub_jobs h" by (simp add: jobs_kept_def)
      have w: "size (waiting h) = Suc (size (waiting h2))" using 2(8) h1(4) by (simp add: waiting_def)
      show ?thesis
      proof (cases rule: late_read [OF 2(4) late 2(3) past2])
        case 1
        then show ?thesis using rd 2 jobs2 w by (intro skip [of h2]) simp_all
      next
        case (2 j h')
        then show ?thesis
          using rd \<open>hub_ordered h2\<close> jobs2 jobs_kept_taken [OF kept 2(2)] by (intro some [of j h']) simp_all
      qed
    qed
  qed
qed

lemma late_next:
  assumes due: "hub_due now h" and late: "\<forall>i. now \<le> clk i"
  obtains (skip) h' where "hub_next F clk h = Some (None, h')" "hub_due now h'"
      "hub_jobs h' = hub_jobs h" "hub_ordered h \<Longrightarrow> hub_ordered h'"
      "hub_jobs h = {#} \<or> size (waiting h) = Suc (size (waiting h'))"
  | (some) j h' where "hub_next F clk h = Some (Some j, h')" "hub_due now h'"
      "hub_jobs h = add_mset j (hub_jobs h')" "hub_ordered h \<Longrightarrow> hub_ordered h'"
      "hub_ordered h \<Longrightarrow> (\<And>k. k \<in># hub_jobs h \<Longrightarrow> trigger_at j \<le> trigger_at k)"
proof (cases rule: late_next_job [OF due late])
  case (1 h')
  then show ?thesis by (intro skip [of h']) (simp_all add: hub_next_def)
next
  case (2 j h1)
  obtain ok f where "f_delete F (job_id j) (job_filter_state h1) = (ok, f)" by fastforce
  with 2 show ?thesis
    by (intro some [of j "h1\<lparr>job_filter_state := f\<rparr>"]) (simp_all add: hub_next_def job_taken_def)
qed

section \<open>A late hub is a queue of its jobs\<close>

lemma same_reading: "\<forall>i :: nat. now \<le> (now :: instant)"
  by simp

lemma hub_poll_empty:
  "hub_due now h \<Longrightarrow> hub_jobs h = {#} \<Longrightarrow> hub_poll F (\<lambda>_. now) n h = None"
proof (induction n arbitrary: h)
  case (Suc n)
  from Suc.prems show ?case
    by (cases rule: late_next [OF Suc.prems(1) same_reading, of F]) (simp_all add: Suc.IH)
qed simp

lemma hub_poll_late:
  "hub_due now h \<Longrightarrow> size (waiting h) < n \<Longrightarrow>
   case hub_poll F (\<lambda>_. now) n h of
     None \<Rightarrow> hub_jobs h = {#}
   | Some (j, h') \<Rightarrow> hub_due now h' \<and> hub_jobs h = add_mset j (hub_jobs h') \<and>
       (hub_ordered h \<longrightarrow> hub_ordered h' \<and> (\<forall>k \<in># hub_jobs h. trigger_at j \<le> trigger_at k))"
proof (induction n arbitrary: h)
  case (Suc n)
  show ?case
  proof (cases rule: late_next [OF Suc.prems(1) same_reading, of F])
    case (1 h')
    show ?thesis
    proof (cases "hub_jobs h = {#}")
      case True
      with 1 show ?thesis using hub_poll_empty [of now h' F n] by simp
    next
      case False
      with 1 Suc.prems(2) have "size (waiting h') < n" by simp
      from Suc.IH [OF 1(2) this] 1 show ?thesis by (auto split: option.splits)
    qed
  next
    case (2 j h')
    then show ?thesis by simp
  qed
qed simp

lemma hub_take_late:
  assumes "hub_due now h"
  shows "hub_take F now h = None \<longleftrightarrow> hub_jobs h = {#}"
    and "hub_take F now h = Some (j, h') \<Longrightarrow> hub_due now h' \<and> hub_jobs h = add_mset j (hub_jobs h') \<and>
       (hub_ordered h \<longrightarrow> hub_ordered h' \<and> (\<forall>k \<in># hub_jobs h. trigger_at j \<le> trigger_at k))"
  using hub_poll_late [OF assms, of "Suc (size (waiting h))" F]
  by (auto simp: hub_take_def pq_len_waiting simp del: hub_poll.simps split: option.splits)

interpretation hubq: pop_queue "hub_take F now" "hub_due now" hub_jobs for F now
  by unfold_locales (use hub_take_late in blast)+

interpretation huboq: min_queue "hub_take F now" "hub_due_ordered now" hub_jobs trigger_at for F now
  by unfold_locales (auto simp: hub_due_ordered_def hub_take_late(1) dest: hub_take_late(2))

section \<open>Reaching a late state\<close>

text \<open>Every hub becomes late: some instant is after all its triggers and all its spokes.\<close>

lemma hub_due_eventually:
  assumes "hub_wf h"
  shows "\<exists>t0. \<forall>now\<ge>t0. hub_due now h"
proof -
  let ?S = "insert 0 (trigger_at ` set_mset (hub_jobs h) \<union> (\<lambda>(b, a). b_end b) ` set (spoke_map h))"
  define M where "M = Max ?S"
  have "hub_due now h" if late: "M + 1 \<le> now" for now
  proof -
    have "x < now" if "x \<in> ?S" for x
    proof -
      have "x \<le> M" unfolding M_def by (rule Max_ge [OF _ that]) simp
      with late show ?thesis by simp
    qed
    then have s: "x \<in> trigger_at ` set_mset (hub_jobs h) \<Longrightarrow> x < now"
      "x \<in> (\<lambda>(b, a). b_end b) ` set (spoke_map h) \<Longrightarrow> x < now" for x by simp_all
    show ?thesis
      unfolding hub_due_def
    proof (intro conjI ballI)
      fix j assume "j \<in># hub_jobs h"
      then have "trigger_at j < now" by (intro s(1) imageI)
      then show "trigger_at j \<le> now" by simp
    next
      fix x assume "x \<in> set (spoke_map h)"
      from s(2) [OF imageI [OF this]] show "case x of (b, a) \<Rightarrow> b_end b < now"
        by (simp add: case_prod_unfold)
    qed (rule assms)
  qed
  then show ?thesis by blast
qed

text \<open>
  A hub that has only been given future jobs: no current spoke has been chosen, and the
  past spoke is empty.
\<close>

definition hub_untouched :: "'f hub \<Rightarrow> bool" where
  "hub_untouched h \<longleftrightarrow> hub_good h \<and> current_spoke h = None \<and>
     spoke_jobs (spoke_at h (past_spoke h)) = {#}"

lemma untouched_ordered: "hub_untouched h \<Longrightarrow> hub_ordered h"
  by (simp add: hub_untouched_def hub_ordered_def)

lemma new_hub_untouched: "hub_untouched (new_hub f span now1 now2)"
  by (simp add: hub_untouched_def new_hub_good)
    (simp add: new_hub_def spoke_at_def spoke_simps)

lemma add_future_untouched:
  assumes u: "hub_untouched h" and fut: "now < trigger_at j"
    and add: "hub_add F rank now j h = (e, h')"
  shows "hub_untouched h'"
proof -
  from u have wf: "hub_wf h" and cur: "current_spoke h = None"
    and past: "spoke_jobs (spoke_at h (past_spoke h)) = {#}"
    by (simp_all add: hub_untouched_def hub_good_def)
  have good: "hub_good h'"
    using hub_do_good [of h F "OpAdd rank now j"] u add by (auto simp: hub_untouched_def)
  have "job_temporal_state now j = Future" using fut by (simp add: time_simps)
  then have eq: "add_job now j h = add_future_job j h" by (simp add: add_job_def cur)
  have frame: "current_spoke h1 = None \<and> past_spoke h1 = past_spoke h \<and>
      spoke_at h1 (past_spoke h) = spoke_at h (past_spoke h)" if add1: "add_future_job j h = Inr h1" for h1
  proof (cases "map_of (spoke_map h) (as_bound (spoke_span h) j)")
    case None
    with add1 obtain s where "h1 = add_spoke s h"
      by (auto simp: add_future_job_def Let_def split: sum.splits)
    then show ?thesis using cur live_alloc [OF wf past_live]
      by (simp add: add_spoke_def Let_def spoke_at_def nth_append split: prod.splits)
  next
    case (Some a)
    with add1 obtain s where h1: "h1 = set_spoke a s h"
      by (auto simp: add_future_job_def Let_def split: sum.splits)
    have "past_spoke h \<noteq> a"
      using live_distinct [OF wf] map_of_SomeD [OF Some] by (force simp: live_def)
    then show ?thesis using cur by (simp add: h1 spoke_at_set_spoke)
  qed
  show ?thesis
  proof (cases "h' = h")
    case False
    then obtain h1 where h1: "add_job now j h = Inr h1" "current_spoke h' = current_spoke h1"
      "past_spoke h' = past_spoke h1" "spoke_store h' = spoke_store h1"
      using add by (auto simp: hub_add_def Let_def split: if_splits sum.splits prod.splits)
    with frame [of h1] eq past good show ?thesis
      by (simp add: hub_untouched_def spoke_at_def)
  qed (simp add: u)
qed

text \<open>A future job with a fresh id is taken in.\<close>

lemma hub_add_future:
  assumes wf: "hub_wf h" and fresh: "job_id j \<notin># hub_ids h" and "now < trigger_at j" and "0 < sint (spoke_span h)"
  shows "\<exists>h'. hub_add F rank now j h = (None, h')"
proof (cases rule: hub_add_cases [OF wf, of F rank now j])
  case (1 a)
  then have "job_id j \<in># hub_ids h" using spoke_ids_hub owns_job_ids [OF live_inv [OF wf 1(3)]] by blast
  with fresh show ?thesis by simp
next
  case 2
  then show ?thesis using assms by (auto simp: accepts_def)
qed simp

lemma add_future_taken:
  assumes u: "hub_untouched h" and span: "0 < sint (spoke_span h)" and fut: "now < trigger_at j"
    and fresh: "job_id j \<notin># hub_ids h"
  shows "\<exists>h'. hub_add F rank now j h = (None, h') \<and> hub_untouched h' \<and> spoke_span h' = spoke_span h \<and>
    hub_jobs h' = add_mset j (hub_jobs h)"
proof -
  have good: "hub_good h" using u by (simp add: hub_untouched_def)
  then obtain h' where add: "hub_add F rank now j h = (None, h')"
    using hub_add_future [OF _ fresh fut span] by (auto simp: hub_good_def)
  with add_future_untouched [OF u fut add] show ?thesis
    by (cases rule: hub_do_good [OF good, of F "OpAdd rank now j"]) auto
qed

text \<open>Adding a list of jobs, each with the ranking and the clock reading of its call.\<close>

fun hub_add_all ::
  "'f filter_ops \<Rightarrow> ((bound \<Rightarrow> nat) \<times> instant \<times> job) list \<Rightarrow> 'f hub \<Rightarrow> 'f hub" where
  "hub_add_all F [] h = h"
| "hub_add_all F ((rank, now, j) # as) h = hub_add_all F as (snd (hub_add F rank now j h))"

lemma add_all_untouched:
  "hub_untouched h \<Longrightarrow> \<forall>(rank, now, j) \<in> set as. now < trigger_at j \<Longrightarrow>
   hub_untouched (hub_add_all F as h)"
proof (induction as arbitrary: h rule: list.induct)
  case (Cons a as)
  obtain rank now j where a: "a = (rank, now, j)" by (cases a)
  obtain e h1 where h1: "hub_add F rank now j h = (e, h1)" by fastforce
  have "hub_untouched h1"
    using Cons.prems by (intro add_future_untouched [OF Cons.prems(1) _ h1]) (simp add: a)
  from Cons.IH [OF this] Cons.prems(2) show ?case by (simp add: a h1)
qed simp

section \<open>Order at any time\<close>

text \<open>The jobs that a run hands out, in the order of the calls.\<close>

fun handed_out :: "hub_reply list \<Rightarrow> job list" where
  "handed_out [] = []"
| "handed_out (NextReply (Some j) # rs) = j # handed_out rs"
| "handed_out (r # rs) = handed_out rs"

lemma hub_run_ordered:
  "hub_good h \<Longrightarrow> hub_ordered h \<Longrightarrow> hub_run F (map OpNext clks) h = Some (rs, h') \<Longrightarrow>
   sorted (map trigger_at (handed_out rs)) \<and> mset (handed_out rs) + hub_jobs h' = hub_jobs h \<and>
   (\<forall>j \<in> set (handed_out rs). \<forall>k \<in># hub_jobs h'. trigger_at j \<le> trigger_at k)"
proof (induction clks arbitrary: h rs)
  case (Cons clk clks)
  have wf: "hub_wf h" using Cons.prems(1) by (simp add: hub_good_def)
  obtain r h1 where n: "hub_next F clk h = Some (r, h1)" using Cons.prems(3) by (auto split: option.splits)
  then obtain rs1 where rs: "rs = NextReply r # rs1" "hub_run F (map OpNext clks) h1 = Some (rs1, h')"
    using Cons.prems(3) by auto
  note o = hub_next_ordered [OF wf Cons.prems(2) n]
  have h1: "hub_good h1" "hub_jobs h1 + job_out (NextReply r) = hub_jobs h"
    using n by (cases rule: hub_do_good [OF Cons.prems(1), of F "OpNext clk"]; simp)+
  note ih = Cons.IH [OF h1(1) _ rs(2)]
  show ?case
  proof (cases r)
    case None
    then show ?thesis using ih o h1(2) by (simp add: rs(1))
  next
    case (Some j)
    then have jobs: "hub_jobs h = add_mset j (hub_jobs h1)" using h1(2) by simp
    then have "k \<in># hub_jobs h" if "k \<in> set (handed_out rs1) \<or> k \<in># hub_jobs h'" for k
      using that ih o by (metis mset_subset_eqD mset_subset_eq_add_left mset_subset_eq_add_right set_mset_mset
          set_mset_add_mset_insert insertI2)
    then have "\<forall>k. k \<in> set (handed_out rs1) \<or> k \<in># hub_jobs h' \<longrightarrow> trigger_at j \<le> trigger_at k"
      using o Some by blast
    then show ?thesis using ih o Some jobs by (auto simp: rs(1))
  qed
qed simp

section \<open>What holds the queue up\<close>

text \<open>
  A current spoke that has not expired and holds no ready job is kept, and nothing behind it
  is looked at: whatever the waiting spokes hold.
\<close>

lemma current_spoke_holds:
  assumes wf: "hub_wf h" and c: "current_spoke h = Some c"
    and past: "\<forall>j \<in># spoke_jobs (spoke_at h (past_spoke h)). clk 0 < trigger_at j"
    and jobs: "spoke_jobs (spoke_at h c) \<noteq> {#}"
    and later: "\<forall>j \<in># spoke_jobs (spoke_at h c). clk 5 < trigger_at j"
  shows "hub_next F clk h = Some (None, h)"
proof -
  have p: "next_past clk h = Some (None, h)"
  proof (cases rule: next_past_cases [OF wf, of clk])
    case (2 j h')
    with past show ?thesis by (meson not_less)
  qed
  have "drop_current clk h = h" using c jobs by (simp add: drop_current_def spoke_simps)
  moreover have "read_current clk h = Some (None, h)"
  proof (cases rule: read_current_cases [OF wf c, of clk])
    case (2 j h')
    with later show ?thesis by (meson not_less)
  qed
  ultimately show ?thesis
    using p c by (simp add: hub_next_def next_job_def choose_current_def)
qed

end
