(* ===== verification/Handler_Steps.thy ===== *)
theory Handler_Steps
  imports Protocol Hub_Drain
begin

text \<open>
  The handlers of both servers as goroutines: each call is where its handler stands, and one
  step is what it does between two points at which others may come in. The RPC put
  passes the fence, adds its job under the lock of the hub, and only then runs the deferred
  \<open>Increment\<close>; the gRPC put counts first and adds then; \<open>Next\<close> and \<open>Cancel\<close> take a job out
  under the lock and call \<open>Decrement\<close> afterwards.
\<close>

section \<open>Steps of one call\<close>

text \<open>
  \<open>Rpc_Put\<close> is at the fence, \<open>Rpc_Passed\<close> behind it; \<open>Rpc_Add\<close> is about to add its job,
  \<open>Rpc_Account\<close> to call \<open>Increment\<close> for it. \<open>Grpc_Account\<close> and \<open>Grpc_Add\<close> are the other way
  round. \<open>Next_Poll\<close> is about to call \<open>NextLocked\<close>, \<open>Give_Back\<close> to call \<open>Decrement\<close> for a job
  that has left the hub.
\<close>

datatype call =
  Rpc_Put api_job | Rpc_Passed api_job | Rpc_Add job | Rpc_Account job |
  Grpc_Put "pb_job option" | Grpc_Account job | Grpc_Add job |
  Next_Poll | Cancel_Call string | Give_Back job

text \<open>How a call begins.\<close>

fun rpc_call_begins :: "call \<Rightarrow> bool" where
  "rpc_call_begins (Rpc_Put aj) = True"
| "rpc_call_begins Next_Poll = True"
| "rpc_call_begins (Cancel_Call jid) = True"
| "rpc_call_begins c = False"

lemma rpc_put_begins: "rpc_call_begins (Rpc_Put aj)"
  by simp

fun grpc_call_begins :: "call \<Rightarrow> bool" where
  "grpc_call_begins (Grpc_Put pj) = True"
| "grpc_call_begins Next_Poll = True"
| "grpc_call_begins (Cancel_Call jid) = True"
| "grpc_call_begins c = False"

text \<open>
  A step takes the call on, or ends it (\<open>None\<close>). A \<open>Next\<close> that has found nothing polls again
  or gives up, as its deadline has it.
\<close>

inductive call_step :: "'f filter_ops \<Rightarrow> call \<Rightarrow> 'f server \<Rightarrow> call option \<Rightarrow> 'f server \<Rightarrow> bool" for F where
  fence_passed: "mm_fence_open (srv_mem s) \<Longrightarrow> call_step F (Rpc_Put aj) s (Some (Rpc_Passed aj)) s"
| rpc_built: "put_job (aj_id aj) (t_add now (aj_delay aj)) (aj_body aj) s = (j, s') \<Longrightarrow>
    call_step F (Rpc_Passed aj) s (Some (Rpc_Add j)) s'"
| rpc_added: "add_locked F rank now j s = (e, s') \<Longrightarrow> call_step F (Rpc_Add j) s (Some (Rpc_Account j)) s'"
| rpc_accounted: "call_step F (Rpc_Account j) s None (account j s)"
| grpc_built: "put_job (pb_id pj) (t_add now (millisecond * pb_delay_millis pj)) (pb_body pj) s = (j, s') \<Longrightarrow>
    call_step F (Grpc_Put (Some pj)) s (Some (Grpc_Account j)) s'"
| grpc_accounted: "call_step F (Grpc_Account j) s (Some (Grpc_Add j)) (account j s)"
| grpc_added: "add_locked F rank now j s = (e, s') \<Longrightarrow> call_step F (Grpc_Add j) s None s'"
| next_nothing: "hub_next F clk (srv_hub s) = Some (None, h) \<Longrightarrow> r = None \<or> r = Some Next_Poll \<Longrightarrow>
    call_step F Next_Poll s r (s\<lparr>srv_hub := h\<rparr>)"
| next_taken: "hub_next F clk (srv_hub s) = Some (Some j, h) \<Longrightarrow>
    call_step F Next_Poll s (Some (Give_Back j)) (s\<lparr>srv_hub := h\<rparr>)"
| cancel_nothing: "hub_cancel F rank jid (srv_hub s) = Some (x, h) \<Longrightarrow> \<forall>j. x \<noteq> Inr (Some j) \<Longrightarrow>
    call_step F (Cancel_Call jid) s None (s\<lparr>srv_hub := h\<rparr>)"
| cancel_taken: "hub_cancel F rank jid (srv_hub s) = Some (Inr (Some j), h) \<Longrightarrow>
    call_step F (Cancel_Call jid) s (Some (Give_Back j)) (s\<lparr>srv_hub := h\<rparr>)"
| given_back: "release_job j s = Done s' \<Longrightarrow> call_step F (Give_Back j) s None s'"

text \<open>A panic of a handler is not recovered and ends the process.\<close>

inductive call_panic :: "'f filter_ops \<Rightarrow> call \<Rightarrow> 'f server \<Rightarrow> bool" for F where
  no_job_panic: "call_panic F (Grpc_Put None) s"
| next_panic: "hub_next F clk (srv_hub s) = None \<Longrightarrow> call_panic F Next_Poll s"
| cancel_panic: "hub_cancel F rank jid (srv_hub s) = None \<Longrightarrow> call_panic F (Cancel_Call jid) s"
| underflow_panic: "release_job j s = Panicked \<Longrightarrow> call_panic F (Give_Back j) s"

section \<open>Calls side by side\<close>

definition with_call :: "call option \<Rightarrow> call multiset \<Rightarrow> call multiset" where
  "with_call r M = (case r of None \<Rightarrow> M | Some c \<Rightarrow> add_mset c M)"

lemma with_call_simps [simp]: "with_call None M = M" "with_call (Some c) M = add_mset c M"
  by (simp_all add: with_call_def)

inductive calls_step ::
  "'f filter_ops \<Rightarrow> 'f server \<times> call multiset \<Rightarrow> 'f server \<times> call multiset \<Rightarrow> bool" for F where
  arrive: "rpc_call_begins c \<or> grpc_call_begins c \<Longrightarrow> calls_step F (s, M) (s, add_mset c M)"
| move: "call_step F c s r s' \<Longrightarrow> calls_step F (s, add_mset c M) (s', with_call r M)"

text \<open>The job of a call whose size one of the two counters of the proof below carries.\<close>

fun call_job :: "call \<Rightarrow> job option" where
  "call_job (Rpc_Add j) = Some j"
| "call_job (Rpc_Account j) = Some j"
| "call_job (Grpc_Account j) = Some j"
| "call_job (Grpc_Add j) = Some j"
| "call_job (Give_Back j) = Some j"
| "call_job c = None"

text \<open>The monitor shows at most a tebibyte, its own limit, and no job is larger than that.\<close>

definition within_limit :: "'f server \<times> call multiset \<Rightarrow> bool" where
  "within_limit x \<longleftrightarrow>
     (case srv_mem (fst x) of Noop_Monitor \<Rightarrow> True | Mem_Monitor m \<Rightarrow> unat (mm_current m) \<le> 2 ^ 40) \<and>
     (\<forall>c \<in># snd x. \<forall>j. call_job c = Some j \<longrightarrow> unat (size_of j) \<le> 2 ^ 40)"

inductive calls_run ::
  "'f filter_ops \<Rightarrow> 'f server \<Rightarrow> 'f server \<times> call multiset \<Rightarrow> bool" for F s0 where
  run_start: "calls_run F s0 (s0, {#})"
| run_step: "calls_run F s0 x \<Longrightarrow> calls_step F x y \<Longrightarrow> within_limit y \<Longrightarrow> calls_run F s0 y"

section \<open>A call alone\<close>

text \<open>The handlers of \<open>Protocol\<close> are these steps in a row.\<close>

inductive call_runs :: "'f filter_ops \<Rightarrow> call \<Rightarrow> 'f server \<Rightarrow> 'f server \<Rightarrow> bool" for F where
  last_step: "call_step F c s None s' \<Longrightarrow> call_runs F c s s'"
| more_steps: "call_step F c s (Some c') s' \<Longrightarrow> call_runs F c' s' s'' \<Longrightarrow> call_runs F c s s''"

lemma rpc_put_runs:
  assumes "rpc_put_with_id F rank now1 now2 aj s = Done (e, r, s')"
  shows "call_runs F (Rpc_Put aj) s s'"
proof -
  obtain j s1 where j: "put_job (aj_id aj) (t_add now1 (aj_delay aj)) (aj_body aj) s = (j, s1)" by fastforce
  obtain e' s2 where a: "add_locked F rank now2 j s1 = (e', s2)" by fastforce
  have "mm_fence_open (srv_mem s)" and s': "s' = account j s2"
    using assms j a by (auto simp: rpc_put_with_id_def Let_def split: if_splits)
  then show ?thesis
    unfolding s' by (blast intro: last_step more_steps fence_passed rpc_built [OF j] rpc_added [OF a] rpc_accounted)
qed

lemma grpc_put_runs:
  assumes "grpc_put_with_id F rank now1 now2 (Some pj) s = Done (e, jid, s')"
  shows "call_runs F (Grpc_Put (Some pj)) s s'"
proof -
  obtain j s1 where j: "put_job (pb_id pj) (t_add now1 (millisecond * pb_delay_millis pj)) (pb_body pj) s = (j, s1)"
    by fastforce
  have "\<exists>e'. add_locked F rank now2 j (account j s1) = (e', s')"
    using assms j by (auto simp: grpc_put_with_id_def Let_def split: prod.splits)
  then obtain e' where a: "add_locked F rank now2 j (account j s1) = (e', s')" by blast
  show ?thesis
    by (blast intro: last_step more_steps grpc_built [OF j] grpc_accounted grpc_added [OF a])
qed

lemma next_runs:
  assumes "next_attempt F clk s = Done (jo, s')"
  shows "call_runs F Next_Poll s s'"
  using assms unfolding next_attempt_def
  by (auto split: option.splits prod.splits outcome.splits
      intro: last_step next_nothing more_steps next_taken given_back)

lemma cancel_runs:
  assumes "rpc_cancel F rank jid s = Done (e, s')"
  shows "call_runs F (Cancel_Call jid) s s'"
  using assms unfolding rpc_cancel_def
  by (auto split: option.splits prod.splits outcome.splits sum.splits
      intro: last_step cancel_nothing more_steps cancel_taken given_back)

section \<open>Accounting with calls under way\<close>

fun owed_by :: "call \<Rightarrow> nat" where
  "owed_by (Rpc_Account j) = unat (size_of j)"
| "owed_by c = 0"

fun counted_by :: "call \<Rightarrow> nat" where
  "counted_by (Grpc_Add j) = unat (size_of j)"
| "counted_by (Give_Back j) = unat (size_of j)"
| "counted_by c = 0"

definition owed :: "call multiset \<Rightarrow> nat" where
  "owed M = (\<Sum>c \<in># M. owed_by c)"

definition counted :: "call multiset \<Rightarrow> nat" where
  "counted M = (\<Sum>c \<in># M. counted_by c)"

lemma owed_simps [simp]: "owed {#} = 0" "owed (add_mset c M) = owed_by c + owed M"
  "counted {#} = 0" "counted (add_mset c M) = counted_by c + counted M"
  by (simp_all add: owed_def counted_def)

text \<open>
  What the monitor shows and what RPC puts still owe cover the jobs in the hub, those
  already counted and those that have left and not been given back.
\<close>

definition calls_ok :: "'f server \<times> call multiset \<Rightarrow> bool" where
  "calls_ok x \<longleftrightarrow> (case x of (s, M) \<Rightarrow> hub_good (srv_hub s) \<and>
     (case srv_mem s of
        Noop_Monitor \<Rightarrow> True
      | Mem_Monitor m \<Rightarrow> usage (hub_jobs (srv_hub s)) + counted M \<le> unat (mm_current m) + owed M))"

lemma put_job_frame: "put_job jid t b s = (j, s') \<Longrightarrow> srv_hub s' = srv_hub s \<and> srv_mem s' = srv_mem s"
  by (rule put_job_hub)

lemma add_locked_effect:
  assumes "add_locked F rank now j s = (e, s')" and "hub_good (srv_hub s)"
  shows "srv_mem s' = srv_mem s \<and> hub_good (srv_hub s') \<and>
    usage (hub_jobs (srv_hub s')) \<le> usage (hub_jobs (srv_hub s)) + unat (size_of j)"
proof -
  have h: "hub_add F rank now j (srv_hub s) = (e, srv_hub s')" "srv_mem s' = srv_mem s"
    using assms(1) by (auto simp: add_locked_def split: prod.splits)
  with hub_do_goodD [OF assms(2), of F "OpAdd rank now j" "AddReply e" "srv_hub s'"] show ?thesis
    by (cases e) auto
qed

lemma next_effect:
  assumes "hub_next F clk h = Some (r, h')" and "hub_good h"
  shows "hub_good h' \<and> hub_jobs h = (case r of None \<Rightarrow> hub_jobs h' | Some j \<Rightarrow> add_mset j (hub_jobs h'))"
  using hub_do_goodD [OF assms(2), of F "OpNext clk" "NextReply r" h'] assms(1)
  by (cases r) auto

lemma cancel_effect:
  assumes "hub_cancel F rank jid h = Some (r, h')" and "hub_good h"
  shows "hub_good h' \<and> hub_jobs h = (case r of Inr (Some j) \<Rightarrow> add_mset j (hub_jobs h') | _ \<Rightarrow> hub_jobs h')"
  using hub_do_goodD [OF assms(2), of F "OpCancel rank jid" "CancelReply r" h'] assms(1)
  by (cases r) (auto split: option.splits)

text \<open>Within the limit, a \<open>Decrement\<close> underflows exactly if the counter is less than the size.\<close>

lemma underflow_iff:
  assumes "unat x \<le> 2 ^ 40" and "unat y \<le> 2 ^ 40"
  shows "tebibyte < x + NOT (y - 1) \<longleftrightarrow> unat x < unat y"
    and "x + NOT (y - 1) \<le> tebibyte \<longleftrightarrow> unat y \<le> unat x"
    and "unat y \<le> unat x \<Longrightarrow> unat (x + NOT (y - 1)) = unat x - unat y"
proof -
  have d: "x + NOT (y - 1) = x - y" by (simp add: not_minus_1)
  have u: "unat (x - y) = (if unat y \<le> unat x then unat x - unat y else unat x + 2 ^ 64 - unat y)"
    by (simp add: unat_sub_if' word_size)
  have t: "unat tebibyte = 2 ^ 40" by (simp add: tebibyte_def)
  show lt: "tebibyte < x + NOT (y - 1) \<longleftrightarrow> unat x < unat y"
    using assms unfolding d word_less_nat_alt u t by auto
  then show "x + NOT (y - 1) \<le> tebibyte \<longleftrightarrow> unat y \<le> unat x" by (metis not_less)
  show "unat y \<le> unat x \<Longrightarrow> unat (x + NOT (y - 1)) = unat x - unat y"
    unfolding d u by simp
qed

lemma release_effect:
  assumes "unat (size_of j) \<le> 2 ^ 40"
    and "case srv_mem s of Noop_Monitor \<Rightarrow> True | Mem_Monitor m \<Rightarrow> unat (mm_current m) \<le> 2 ^ 40"
  shows "release_job j s = Panicked \<longleftrightarrow>
      (case srv_mem s of Noop_Monitor \<Rightarrow> False | Mem_Monitor m \<Rightarrow> unat (mm_current m) < unat (size_of j))"
    and "release_job j s = Done s' \<Longrightarrow> srv_hub s' = srv_hub s \<and>
      (case srv_mem s of Noop_Monitor \<Rightarrow> srv_mem s' = Noop_Monitor
       | Mem_Monitor m \<Rightarrow> \<exists>m'. srv_mem s' = Mem_Monitor m' \<and>
           unat (mm_current m') + unat (size_of j) = unat (mm_current m))"
  using underflow_iff [OF _ assms(1)] assms(2)
  by (auto simp: release_job_def mm_decrement_def Let_def not_less split: monitor.splits if_splits prod.splits)

lemma account_effect:
  assumes "unat (size_of j) \<le> 2 ^ 40"
    and "case srv_mem s of Noop_Monitor \<Rightarrow> True | Mem_Monitor m \<Rightarrow> unat (mm_current m) \<le> 2 ^ 40"
  shows "srv_hub (account j s) = srv_hub s \<and>
    (case srv_mem s of Noop_Monitor \<Rightarrow> srv_mem (account j s) = Noop_Monitor
     | Mem_Monitor m \<Rightarrow> \<exists>m'. srv_mem (account j s) = Mem_Monitor m' \<and>
         unat (mm_current m') = unat (mm_current m) + unat (size_of j))"
  using assms by (auto simp: account_def mm_increment_def unat_plus_if_size word_size split: monitor.splits)

lemma call_step_ok:
  assumes "call_step F c s r s'" and "calls_ok (s, add_mset c M)" and "within_limit (s, add_mset c M)"
  shows "calls_ok (s', with_call r M)"
  using assms
proof (induction rule: call_step.induct)
  case (rpc_built aj now s j s')
  then show ?case using put_job_frame [OF rpc_built(1)] by (auto simp: calls_ok_def split: monitor.splits)
next
  case (rpc_added rank now j s e s')
  then show ?case
    using add_locked_effect [OF rpc_added(1)] by (auto simp: calls_ok_def split: monitor.splits)
next
  case (rpc_accounted j s)
  then show ?case
    using account_effect [of j s] by (auto simp: calls_ok_def within_limit_def split: monitor.splits)
next
  case (grpc_built pj now s j s')
  then show ?case using put_job_frame [OF grpc_built(1)] by (auto simp: calls_ok_def split: monitor.splits)
next
  case (grpc_accounted j s)
  then show ?case
    using account_effect [of j s] by (auto simp: calls_ok_def within_limit_def split: monitor.splits)
next
  case (grpc_added rank now j s e s')
  then show ?case
    using add_locked_effect [OF grpc_added(1)] by (auto simp: calls_ok_def split: monitor.splits)
next
  case (next_nothing clk s h r)
  then show ?case
    using next_effect [OF next_nothing(1)] by (auto simp: calls_ok_def split: monitor.splits)
next
  case (next_taken clk s j h)
  then show ?case
    using next_effect [OF next_taken(1)] by (auto simp: calls_ok_def split: monitor.splits)
next
  case (cancel_nothing rank jid s x h)
  then show ?case
    using cancel_effect [OF cancel_nothing(1)]
    by (auto simp: calls_ok_def split: monitor.splits sum.splits option.splits)
next
  case (cancel_taken rank jid s j h)
  then show ?case
    using cancel_effect [OF cancel_taken(1)] by (auto simp: calls_ok_def split: monitor.splits)
next
  case (given_back j s s')
  then show ?case
    using release_effect(2) [OF _ _ given_back(1)]
    by (auto simp: calls_ok_def within_limit_def split: monitor.splits)
qed (auto simp: calls_ok_def split: monitor.splits)

lemma calls_step_ok:
  assumes "calls_step F x y" and "calls_ok x" and "within_limit x"
  shows "calls_ok y"
  using assms
proof (induction rule: calls_step.induct)
  case (arrive c s M)
  then have "owed_by c = 0 \<and> counted_by c = 0" by (cases c) auto
  then show ?case using arrive by (auto simp: calls_ok_def split: monitor.splits)
qed (rule call_step_ok)

lemma calls_run_ok:
  "calls_run F s0 x \<Longrightarrow> calls_ok (s0, {#}) \<Longrightarrow> within_limit (s0, {#}) \<Longrightarrow> calls_ok x \<and> within_limit x"
  by (induction rule: calls_run.induct) (auto intro: calls_step_ok)

text \<open>A panic of \<open>Decrement\<close> needs an RPC put that has added its job and not counted it.\<close>

lemma underflow_needs_owed:
  assumes ok: "calls_ok (s, M)" and lim: "within_limit (s, M)" and j: "Give_Back j \<in># M"
    and p: "release_job j s = Panicked"
  shows "\<exists>i. Rpc_Account i \<in># M"
proof (rule ccontr)
  assume none: "\<not> (\<exists>i. Rpc_Account i \<in># M)"
  then have "owed_by c = 0" if "c \<in># M" for c using that by (cases c) auto
  then have "owed M = 0" by (simp add: owed_def)
  obtain N where N: "M = add_mset (Give_Back j) N" using multi_member_split [OF j] by blast
  have sz: "unat (size_of j) \<le> 2 ^ 40"
    and lim': "case srv_mem s of Noop_Monitor \<Rightarrow> True | Mem_Monitor m \<Rightarrow> unat (mm_current m) \<le> 2 ^ 40"
    using lim by (auto simp: within_limit_def N)
  show False
    using release_effect(1) [OF sz lim'] p ok \<open>owed M = 0\<close> by (auto simp: calls_ok_def N split: monitor.splits)
qed

section \<open>A put and a next that cross\<close>

lemma move_run:
  "calls_run F s0 (s, add_mset c M) \<Longrightarrow> call_step F c s r s' \<Longrightarrow> within_limit (s', with_call r M) \<Longrightarrow>
   calls_run F s0 (s', with_call r M)"
  by (rule run_step [OF _ move])

text \<open>Polls at a late instant take a job out of the hub, whatever else is under way.\<close>

lemma polls_take:
  assumes "hub_due t (srv_hub s)" and "hub_jobs (srv_hub s) \<noteq> {#}"
    and "calls_run F s0 (s, add_mset Next_Poll M)" and "within_limit (s, M)"
    and "\<forall>j \<in># hub_jobs (srv_hub s). unat (size_of j) \<le> 2 ^ 40"
  shows "\<exists>j h. calls_run F s0 (s\<lparr>srv_hub := h\<rparr>, add_mset (Give_Back j) M) \<and>
    hub_jobs (srv_hub s) = add_mset j (hub_jobs h)"
  using assms
proof (induction "size (waiting (srv_hub s))" arbitrary: s rule: less_induct)
  case less
  show ?case
  proof (cases rule: late_next [OF less.prems(1) same_reading, of F])
    case (1 h)
    let ?s = "s\<lparr>srv_hub := h\<rparr>"
    have lim: "within_limit (?s, M)" using less.prems(4) by (simp add: within_limit_def)
    have "calls_run F s0 (?s, with_call (Some Next_Poll) M)"
      by (rule move_run [OF less.prems(3) next_nothing [OF 1(1)]]) (use lim in \<open>simp_all add: within_limit_def\<close>)
    moreover have "size (waiting (srv_hub ?s)) < size (waiting (srv_hub s))" using 1(5) less.prems(2) by simp
    ultimately have "\<exists>j h'. calls_run F s0 (?s\<lparr>srv_hub := h'\<rparr>, add_mset (Give_Back j) M) \<and>
        hub_jobs (srv_hub ?s) = add_mset j (hub_jobs h')"
      using less.prems 1(2,3) lim by (intro less.hyps) simp_all
    then show ?thesis using 1(3) by simp
  next
    case (2 j h)
    have "calls_run F s0 (s\<lparr>srv_hub := h\<rparr>, with_call (Some (Give_Back j)) M)"
      by (rule move_run [OF less.prems(3) next_taken [OF 2(1)]])
        (use less.prems(4,5) 2(3) in \<open>auto simp: within_limit_def\<close>)
    then show ?thesis using 2(3) by auto
  qed
qed

definition small_request :: "api_job \<Rightarrow> bool" where
  "small_request aj \<longleftrightarrow> aj_id aj \<noteq> [] \<and> 80 + length (aj_body aj) + length (aj_id aj) \<le> 2 ^ 40"

lemma small_request_size:
  "small_request aj \<Longrightarrow> 0 < unat (size_of (new_job (aj_id aj) t (aj_body aj))) \<and>
     unat (size_of (new_job (aj_id aj) t (aj_body aj))) \<le> 2 ^ 40"
  by (simp add: small_request_def size_of_def size_overhead_def new_job_def unat_word_ariths unat_of_nat take_bit_nat_eq_self)

lemma put_race:
  assumes w: "w \<noteq> 0" and span: "0 < sint (width :: duration)" and aj: "small_request aj"
    and fut: "now2 < t_add now1 (aj_delay aj)"
  shows "\<exists>s j. calls_run F (new_server (new_hub f width n1 n2) w) (s, {#Rpc_Account j, Give_Back j#}) \<and>
    job_id j = aj_id aj \<and> release_job j s = Panicked"
proof -
  let ?j = "new_job (aj_id aj) (t_add now1 (aj_delay aj)) (aj_body aj)"
  let ?h = "new_hub f width n1 n2"
  let ?s = "new_server ?h w"
  note sz = small_request_size [OF aj, of "t_add now1 (aj_delay aj)"]
  have u: "hub_untouched ?h" by (rule new_hub_untouched)
  have sp: "spoke_span ?h = width" by (simp add: new_hub_def)
  obtain h1 where h1: "hub_add F (\<lambda>_. 0) now2 ?j ?h = (None, h1)" "hub_untouched h1" "hub_jobs h1 = {#?j#}"
    using add_future_taken [OF u, of now2 ?j F "\<lambda>_. 0"] span sp fut by (auto simp: hub_ids_def new_hub_jobs new_job_def)
  let ?s1 = "?s\<lparr>srv_hub := h1\<rparr>"
  obtain m where m: "srv_mem ?s = Mem_Monitor m" "mm_current m = 0" "mm_watermark m = w"
    using w by (simp add: new_server_def configure_mem_monitor_def)
  have lim: "within_limit (?s\<lparr>srv_hub := h\<rparr>, M)" and lim0: "within_limit (?s, M)"
    if "\<forall>c \<in># M. \<forall>i. call_job c = Some i \<longrightarrow> unat (size_of i) \<le> 2 ^ 40" for h M
    using that m by (simp_all add: within_limit_def)
  have fence: "mm_fence_open (srv_mem ?s)" using m w by (simp add: mm_fence_open_def word_le_0_iff)
  have built: "put_job (aj_id aj) (t_add now1 (aj_delay aj)) (aj_body aj) ?s = (?j, ?s)"
    using aj by (simp add: put_job_def small_request_def)
  have added: "add_locked F (\<lambda>_. 0) now2 ?j ?s = (None, ?s1)"
    using h1(1) by (simp add: add_locked_def) (simp add: new_server_def)
  have 1: "calls_run F ?s (?s, {#Rpc_Put aj#})"
    by (rule run_step [OF run_start arrive]) (simp, rule lim0, simp)
  have 2: "calls_run F ?s (?s, with_call (Some (Rpc_Passed aj)) {#})"
    by (rule move_run [OF 1 fence_passed [OF fence]], rule lim0) simp
  have 3: "calls_run F ?s (?s, with_call (Some (Rpc_Add ?j)) {#})"
    by (rule move_run [OF 2 [simplified] rpc_built [OF built]], rule lim0) (use sz in simp)
  have 4: "calls_run F ?s (?s1, with_call (Some (Rpc_Account ?j)) {#})"
    by (rule move_run [OF 3 [simplified] rpc_added [OF added]], rule lim) (use sz in simp)
  have r: "calls_run F ?s (?s1, add_mset Next_Poll {#Rpc_Account ?j#})"
    by (rule run_step [OF 4 [simplified] arrive]) (simp, rule lim, use sz in simp)
  have "hub_wf h1" using h1(2) by (simp add: hub_untouched_def hub_good_def)
  then obtain t where due: "hub_due t h1" using hub_due_eventually by blast
  have "within_limit (?s1, {#Rpc_Account ?j#})" by (rule lim) (use sz in simp)
  then obtain i h where i: "calls_run F ?s (?s1\<lparr>srv_hub := h\<rparr>, add_mset (Give_Back i) {#Rpc_Account ?j#})"
    "hub_jobs h1 = add_mset i (hub_jobs h)"
    using polls_take [of t ?s1 F ?s "{#Rpc_Account ?j#}"] due r h1(3) sz by auto
  have [simp]: "i = ?j" using i(2) h1(3) by simp
  have "release_job ?j (?s1\<lparr>srv_hub := h\<rparr>) = Panicked"
    using release_effect(1) [of ?j "?s1\<lparr>srv_hub := h\<rparr>"] sz m by simp
  then show ?thesis
    using i(1) by (intro exI [of _ "?s1\<lparr>srv_hub := h\<rparr>"] exI [of _ ?j]) (simp add: new_job_def add_mset_commute)
qed

section \<open>Properties\<close>

text \<open>
  C40: The RPC put adds its job before it counts it, the gRPC put counts first. From a new
  server, with the calls of both servers interleaved in any way, at most a tebibyte in the
  monitor and in a job, a \<open>Decrement\<close> underflows only while an RPC put has added a job and not
  yet counted it; so never when all puts are gRPC puts. And the RPC put does let it
  happen: with the monitor on and a positive span, the job of any put with an id, of at most a
  tebibyte and a trigger time still to come, can be taken out by a \<open>Next\<close> before the
  \<open>Increment\<close>, and the \<open>Decrement\<close> of the \<open>Next\<close> then panics, which ends the process.
\<close>

theorem put_races_next:
  assumes "w \<noteq> 0" and "0 < sint (width :: duration)" and "small_request aj"
    and "now2 < t_add now1 (aj_delay aj)"
  shows "(\<forall>s M j. calls_run F (new_server (new_hub f width n1 n2) w) (s, M) \<and> Give_Back j \<in># M \<and>
      release_job j s = Panicked \<longrightarrow> (\<exists>i. Rpc_Account i \<in># M)) \<and>
    (\<exists>s j. calls_run F (new_server (new_hub f width n1 n2) w) (s, {#Rpc_Account j, Give_Back j#}) \<and>
      job_id j = aj_id aj \<and> call_panic F (Give_Back j) s)"
proof (intro conjI allI impI)
  fix s M j
  let ?s0 = "new_server (new_hub f width n1 n2) w"
  assume a: "calls_run F ?s0 (s, M) \<and> Give_Back j \<in># M \<and> release_job j s = Panicked"
  have "calls_ok (?s0, {#})" "within_limit (?s0, {#})"
    using assms(1) by (simp_all add: calls_ok_def within_limit_def new_server_def configure_mem_monitor_def
        new_hub_good new_hub_jobs)
  with calls_run_ok [of F ?s0 "(s, M)"] a underflow_needs_owed [of s M j] show "\<exists>i. Rpc_Account i \<in># M"
    by blast
next
  show "\<exists>s j. calls_run F (new_server (new_hub f width n1 n2) w) (s, {#Rpc_Account j, Give_Back j#}) \<and>
      job_id j = aj_id aj \<and> call_panic F (Give_Back j) s"
    using put_race [OF assms] underflow_panic by metis
qed

theorem put_races_next_witness:
  "\<exists>s j. calls_run (cuckoo_ops length_hash id) (new_server (new_hub (new_filter 4, 0) 10 1000 1000) 4096)
      (s, {#Rpc_Account j, Give_Back j#}) \<and> job_id j = ''a'' \<and>
    call_panic (cuckoo_ops length_hash id) (Give_Back j) s"
proof -
  have 1: "(4096 :: 64 word) \<noteq> 0" and 2: "0 < sint (10 :: duration)" by simp_all
  have 3: "small_request \<lparr>aj_body = [1], aj_id = ''a'', aj_delay = 5\<rparr>" by (simp add: small_request_def)
  have 4: "(1000 :: instant) < t_add 1000 (aj_delay \<lparr>aj_body = [1], aj_id = ''a'', aj_delay = 5\<rparr>)"
    by (simp add: t_add_def)
  from put_races_next [OF 1 2 3 4, THEN conjunct2, of "cuckoo_ops length_hash id" "(new_filter 4, 0)" 1000 1000]
  show ?thesis by simp
qed

end
