(* ===== verification/Server_App.thy ===== *)
theory Server_App
  imports Client Hub_Restart Handler_Steps
begin

text \<open>
  \<open>cmd/server.go\<close> with \<open>NewHub\<close> and its options: the configuration of the store, the start
  of a server with its restore running beside the requests, and the shutdown. The process is a
  step relation over the server, the persister and what is left to restore.
\<close>

section \<open>Configuration\<close>

text \<open>
  A parsed URL: the scheme, what lies between scheme and query, and the query as a map from
  keys to their values in order, \<open>url.Values\<close>.
\<close>

record url =
  u_scheme :: string
  u_rest :: string
  u_query :: "string \<Rightarrow> string list"

datatype 'e config_error = Url_Error 'e | Scheme_Not_Supported

definition slash :: char where "slash = CHR ''/''"

text \<open>
  \<open>PreRunE\<close> of the server command: \<open>parsed\<close> is the answer of \<open>url.Parse\<close> for the flag
  \<open>--store-url\<close>. The answer is the bucket URL, and the prefix flag as it is afterwards.
\<close>

definition pre_run :: "'e + url \<Rightarrow> string \<Rightarrow> 'e config_error + url \<times> string" where
  "pre_run parsed prefix =
     (case parsed of
        Inl e \<Rightarrow> Inl (Url_Error e)
      | Inr u \<Rightarrow>
          (if u_scheme u \<notin> {''s3'', ''gs'', ''azblob'', ''file'', ''''} then Inl Scheme_Not_Supported
           else let u1 = (if u_scheme u = '''' then u\<lparr>u_scheme := ''file''\<rparr> else u);
                    p = (if prefix \<noteq> [] \<and> last prefix = slash then prefix else prefix @ [slash])
                in Inr (u1\<lparr>u_query := (u_query u1)(''prefix'' := u_query u1 ''prefix'' @ [p])\<rparr>, p)))"

text \<open>The prefix that \<open>blob.OpenBucket\<close> reads from the query: \<open>Values.Get\<close> is the first one.\<close>

definition bucket_prefix :: "url \<Rightarrow> string" where
  "bucket_prefix u = (case u_query u ''prefix'' of [] \<Rightarrow> [] | p # ps \<Rightarrow> p)"

lemma pre_run_supported:
  "pre_run parsed prefix = Inr (u, p) \<Longrightarrow>
   u_scheme u \<in> {''s3'', ''gs'', ''azblob'', ''file''} \<and> last p = slash \<and> p \<in> set (u_query u ''prefix'')"
  by (auto simp: pre_run_def Let_def split: sum.splits if_splits)

text \<open>A prefix in the URL wins over the flag.\<close>

lemma url_prefix_wins:
  assumes "pre_run (Inr u) prefix = Inr (u', p)"
  shows "bucket_prefix u' = (if u_query u ''prefix'' = [] then p else bucket_prefix u)"
  using assms by (auto simp: pre_run_def bucket_prefix_def Let_def split: list.splits if_splits)

section \<open>Options of a hub\<close>

definition default_max_cf_size :: "64 word" where
  "default_max_cf_size = 500 * 1000 * 1000"

definition test_max_cf_size :: "64 word" where
  "test_max_cf_size = 10000"

record hub_opts =
  ho_attempt_restore :: bool
  ho_spoke_span :: duration
  ho_max_cf_size :: "64 word"

text \<open>\<open>NewHub\<close>, with the state of the random source of its filter.\<close>

definition new_hub_opts :: "hub_opts \<Rightarrow> 'r \<Rightarrow> instant \<Rightarrow> instant \<Rightarrow> (cuckoo \<times> 'r) hub" where
  "new_hub_opts opts tape now1 now2 =
     new_hub (new_filter (if ho_max_cf_size opts \<noteq> 0 then ho_max_cf_size opts else test_max_cf_size), tape)
       (ho_spoke_span opts) now1 now2"

section \<open>The process\<close>

text \<open>
  \<open>ServeRPC\<close> and \<open>ServeGRPC\<close>: with an error of \<open>net.Listen\<close> they return nil, which
  \<open>startApp\<close> keeps; until their goroutines have run the variables are nil too.
\<close>

datatype listener = Starting | Failed | Listening

definition serve_rpc :: "string option \<Rightarrow> listener" where
  "serve_rpc listen = (case listen of Some e \<Rightarrow> Failed | None \<Rightarrow> Listening)"

definition serve_grpc :: "string option \<Rightarrow> listener" where
  "serve_grpc listen = (case listen of Some e \<Rightarrow> Failed | None \<Rightarrow> Listening)"

datatype phase = Serving | Rpc_Closed | Grpc_Stopped | Saved | Crashed

record ('f, 's, 'e) app =
  app_phase :: phase
  app_rpc :: listener
  app_grpc :: listener
  app_conns :: nat
  app_rpc_calls :: "call multiset"
  app_grpc_calls :: "call multiset"
  app_server :: "'f server"
  app_restoring :: "bytes list"
  app_persister :: "('s, 'e) journal_persister"

text \<open>
  \<open>startApp\<close>: an error of the storage is fatal. With the restore flag the hub starts to
  read the snapshot; a failed \<open>Recover\<close> is only logged.
\<close>

definition start_app ::
  "('s, 'e) storage_ops \<Rightarrow> (nat \<Rightarrow> nat \<Rightarrow> nat) \<Rightarrow> hub_opts \<Rightarrow> monitor \<Rightarrow> 'r \<Rightarrow> instant \<Rightarrow> instant \<Rightarrow>
   'e + 's \<Rightarrow> 'e + (cuckoo \<times> 'r, 's, 'e) app" where
  "start_app S sizes opts m tape now1 now2 storage =
     (case storage of
        Inl e \<Rightarrow> Inl e
      | Inr st \<Rightarrow>
          (let lp = new_journal_persister st
           in Inr \<lparr>app_phase = Serving, app_rpc = Starting, app_grpc = Starting, app_conns = 0,
                   app_rpc_calls = {#}, app_grpc_calls = {#},
                   app_server = \<lparr>srv_hub = new_hub_opts opts tape now1 now2, srv_mem = m, srv_ids = 0\<rparr>,
                   app_restoring =
                     (if ho_attempt_restore opts
                      then (case jp_recover S sizes lp of Inl e \<Rightarrow> [] | Inr bufs \<Rightarrow> bufs) else []),
                   app_persister = lp\<rparr>))"

text \<open>One entry of the restore; what cannot be decoded or added is skipped.\<close>

definition restore_one :: "'f filter_ops \<Rightarrow> (bound \<Rightarrow> nat) \<Rightarrow> instant \<Rightarrow> bytes \<Rightarrow> 'f hub \<Rightarrow> 'f hub" where
  "restore_one F rank now b h =
     (case gob_decode b zero_job of
        (Some _, _) \<Rightarrow> h
      | (None, j) \<Rightarrow> snd (hub_add F rank now j h))"

text \<open>
  The steps. Requests are the calls of \<open>Handler_Steps\<close>, those under way kept per server. A
  request arrives on an open RPC connection, or at the gRPC server while it takes requests; its
  handler then goes on, also when the connection is closed. A panic of a handler ends the
  process. On the signal the RPC listener is closed, which refuses new connections and leaves the
  open ones alone; then the gRPC server stops, after its last request; then the hub is saved,
  with its lock held. RPC requests are served until the process has ended, and so is the
  restore. Closing a listener that is nil is a panic.
\<close>

inductive app_step ::
  "'f filter_ops \<Rightarrow> ('s, 'e) storage_ops \<Rightarrow> ('f, 's, 'e) app \<Rightarrow> ('f, 's, 'e) app \<Rightarrow> bool" for F S where
  listen_rpc: "app_rpc a = Starting \<Longrightarrow> app_phase a \<noteq> Crashed \<Longrightarrow>
    app_step F S a (a\<lparr>app_rpc := serve_rpc l\<rparr>)"
| listen_grpc: "app_grpc a = Starting \<Longrightarrow> app_phase a \<noteq> Crashed \<Longrightarrow>
    app_step F S a (a\<lparr>app_grpc := serve_grpc l\<rparr>)"
| connect: "app_phase a = Serving \<Longrightarrow> app_rpc a = Listening \<Longrightarrow>
    app_step F S a (a\<lparr>app_conns := app_conns a + 1\<rparr>)"
| disconnect: "0 < app_conns a \<Longrightarrow> app_phase a \<noteq> Crashed \<Longrightarrow>
    app_step F S a (a\<lparr>app_conns := app_conns a - 1\<rparr>)"
| rpc_arrives: "0 < app_conns a \<Longrightarrow> app_phase a \<noteq> Crashed \<Longrightarrow> rpc_call_begins c \<Longrightarrow>
    app_step F S a (a\<lparr>app_rpc_calls := add_mset c (app_rpc_calls a)\<rparr>)"
| rpc_goes_on: "app_phase a \<noteq> Crashed \<Longrightarrow> app_rpc_calls a = add_mset c M \<Longrightarrow>
    call_step F c (app_server a) r s \<Longrightarrow>
    app_step F S a (a\<lparr>app_rpc_calls := with_call r M, app_server := s\<rparr>)"
| grpc_arrives: "app_phase a = Serving \<or> app_phase a = Rpc_Closed \<Longrightarrow> app_grpc a = Listening \<Longrightarrow>
    grpc_call_begins c \<Longrightarrow> app_step F S a (a\<lparr>app_grpc_calls := add_mset c (app_grpc_calls a)\<rparr>)"
| grpc_goes_on: "app_phase a \<noteq> Crashed \<Longrightarrow> app_grpc_calls a = add_mset c M \<Longrightarrow>
    call_step F c (app_server a) r s \<Longrightarrow>
    app_step F S a (a\<lparr>app_grpc_calls := with_call r M, app_server := s\<rparr>)"
| handler_panic: "app_phase a \<noteq> Crashed \<Longrightarrow> c \<in># app_rpc_calls a + app_grpc_calls a \<Longrightarrow>
    call_panic F c (app_server a) \<Longrightarrow> app_step F S a (a\<lparr>app_phase := Crashed\<rparr>)"
| restore: "app_restoring a = b # bs \<Longrightarrow> app_phase a \<noteq> Crashed \<Longrightarrow>
    app_step F S a (a\<lparr>app_restoring := bs,
      app_server := app_server a\<lparr>srv_hub := restore_one F rank now b (srv_hub (app_server a))\<rparr>\<rparr>)"
| close_rpc: "app_phase a = Serving \<Longrightarrow>
    app_step F S a (a\<lparr>app_phase := if app_rpc a = Listening then Rpc_Closed else Crashed\<rparr>)"
| stop_grpc: "app_phase a = Rpc_Closed \<Longrightarrow>
    app_grpc a = Listening \<longrightarrow> app_grpc_calls a = {#} \<Longrightarrow>
    app_step F S a (a\<lparr>app_phase := if app_grpc a = Listening then Grpc_Stopped else Crashed\<rparr>)"
| save: "app_phase a = Grpc_Stopped \<Longrightarrow>
    hub_stop (journal_ops S sizes) True (srv_hub (app_server a)) (app_persister a) = (n, lp) \<Longrightarrow>
    app_step F S a (a\<lparr>app_phase := Saved, app_persister := lp\<rparr>)"

inductive app_reach ::
  "'f filter_ops \<Rightarrow> ('s, 'e) storage_ops \<Rightarrow> ('f, 's, 'e) app \<Rightarrow> ('f, 's, 'e) app \<Rightarrow> bool" for F S a where
  reach_start: "app_reach F S a a"
| reach_step: "app_reach F S a b \<Longrightarrow> app_step F S b c \<Longrightarrow> app_reach F S a c"

lemma app_reach_first: "app_reach F S b c \<Longrightarrow> app_step F S a b \<Longrightarrow> app_reach F S a c"
  by (induction rule: app_reach.induct) (blast intro: reach_start reach_step)+

lemma app_reach_trans: "app_reach F S b c \<Longrightarrow> app_reach F S a b \<Longrightarrow> app_reach F S a c"
  by (induction rule: app_reach.induct) (blast intro: reach_step)+

section \<open>Invariants\<close>

lemma restore_one_good: "hub_good h \<Longrightarrow> hub_good (restore_one F rank now b h)"
  by (cases "gob_decode b zero_job"; cases "fst (gob_decode b zero_job)")
    (auto simp: restore_one_def hub_add_good)

text \<open>The restore of the hub is these steps in a row.\<close>

lemma restore_loop_steps:
  "snd (restore_loop F ranks clk k bs c h) =
   fold (\<lambda>(i, b). restore_one F (ranks i) (clk i) b) (enumerate k bs) h"
  by (induction bs arbitrary: k c h) (auto simp: restore_one_def split: prod.splits option.splits)

lemma call_step_good: "call_step F c s r s' \<Longrightarrow> hub_good (srv_hub s) \<Longrightarrow> hub_good (srv_hub s')"
proof (induction rule: call_step.induct)
  case (rpc_built aj now s j s')
  then show ?case using put_job_frame [OF rpc_built(1)] by simp
next
  case (rpc_added rank now j s e s')
  then show ?case using add_locked_effect [OF rpc_added(1)] by blast
next
  case (grpc_built pj now s j s')
  then show ?case using put_job_frame [OF grpc_built(1)] by simp
next
  case (grpc_added rank now j s e s')
  then show ?case using add_locked_effect [OF grpc_added(1)] by blast
next
  case (next_nothing clk s h r)
  then show ?case using next_effect [OF next_nothing(1)] by simp
next
  case (next_taken clk s j h)
  then show ?case using next_effect [OF next_taken(1)] by simp
next
  case (cancel_nothing rank jid s x h)
  then show ?case using cancel_effect [OF cancel_nothing(1)] by simp
next
  case (cancel_taken rank jid s j h)
  then show ?case using cancel_effect [OF cancel_taken(1)] by simp
next
  case (given_back j s s')
  then show ?case by (auto simp: release_job_def split: prod.splits if_splits)
qed (simp_all add: account_def)

text \<open>An attempt of \<open>Next\<close> is a call of the hub.\<close>

lemma next_attempt_hub:
  "next_attempt F clk s = Done (jo, s') \<Longrightarrow> hub_next F clk (srv_hub s) = Some (jo, srv_hub s')"
  by (auto simp: next_attempt_def release_job_def Let_def split: option.splits prod.splits outcome.splits if_splits)

text \<open>
  The hub stays in order, both listeners are there once the shutdown has passed them, and the
  persister is a new one until the hub is saved.
\<close>

definition app_ok :: "'s \<Rightarrow> ('f, 's, 'e) app \<Rightarrow> bool" where
  "app_ok st a \<longleftrightarrow> hub_good (srv_hub (app_server a)) \<and>
     (app_phase a \<in> {Rpc_Closed, Grpc_Stopped, Saved} \<longrightarrow> app_rpc a = Listening) \<and>
     (app_phase a \<in> {Grpc_Stopped, Saved} \<longrightarrow> app_grpc a = Listening) \<and>
     (app_persister a = new_journal_persister st \<or>
      app_phase a \<in> {Saved, Crashed} \<and> app_rpc a = Listening \<and> app_grpc a = Listening)"

lemma app_step_ok: "app_step F S a b \<Longrightarrow> app_ok st a \<Longrightarrow> app_ok st b"
  by (induction rule: app_step.induct)
    (auto simp: app_ok_def restore_one_good dest: call_step_good)

lemma app_reach_ok: "app_reach F S a b \<Longrightarrow> app_ok st a \<Longrightarrow> app_ok st b"
  by (induction rule: app_reach.induct) (auto intro: app_step_ok)

lemma start_app_ok: "start_app S sizes opts m tape now1 now2 (Inr st) = Inr a \<Longrightarrow> app_ok st a"
  by (auto simp: start_app_def Let_def app_ok_def new_hub_opts_def new_hub_good)

text \<open>What was saved stays as it is, also when the process crashes.\<close>

definition app_over :: "('f, 's, 'e) app \<Rightarrow> bool" where
  "app_over a \<longleftrightarrow> app_phase a \<in> {Saved, Crashed}"

lemma app_step_over: "app_step F S a b \<Longrightarrow> app_over a \<Longrightarrow> app_over b \<and> app_persister b = app_persister a"
  by (induction rule: app_step.induct) (auto simp: app_over_def)

lemma app_reach_over: "app_reach F S a b \<Longrightarrow> app_over a \<Longrightarrow> app_over b \<and> app_persister b = app_persister a"
  by (induction rule: app_reach.induct) (auto dest: app_step_over)

text \<open>A listener that failed stays failed.\<close>

lemma app_step_failed: "app_step F S a b \<Longrightarrow>
    (app_rpc a = Failed \<longrightarrow> app_rpc b = Failed) \<and> (app_grpc a = Failed \<longrightarrow> app_grpc b = Failed)"
  by (induction rule: app_step.induct) auto

lemma app_reach_failed: "app_reach F S a b \<Longrightarrow>
    (app_rpc a = Failed \<longrightarrow> app_rpc b = Failed) \<and> (app_grpc a = Failed \<longrightarrow> app_grpc b = Failed)"
  by (induction rule: app_reach.induct) (auto dest: app_step_failed)

lemma app_failed_ok:
  assumes "app_ok st a" and "app_rpc a = Failed \<or> app_grpc a = Failed"
  shows "app_phase a \<notin> {Grpc_Stopped, Saved} \<and> app_persister a = new_journal_persister st \<and>
    (app_phase a = Rpc_Closed \<longrightarrow> app_grpc a = Failed)"
  using assms by (auto simp: app_ok_def)

text \<open>The step that saves.\<close>

lemma app_step_save:
  assumes "app_step F S a b" and "app_phase a = Grpc_Stopped" and "app_phase b = Saved"
  obtains n lp sizes where "hub_stop (journal_ops S sizes) True (srv_hub (app_server a)) (app_persister a) = (n, lp)"
    "app_persister b = lp" "app_server b = app_server a"
  using assms by (cases rule: app_step.cases) auto

section \<open>A request alone\<close>

lemma call_runs_good: "call_runs F c s s' \<Longrightarrow> hub_good (srv_hub s) \<Longrightarrow> hub_good (srv_hub s')"
  by (induction rule: call_runs.induct) (auto dest: call_step_good)

text \<open>A handler that no other one interrupts.\<close>

lemma rpc_call_goes_on:
  "call_runs F c s s' \<Longrightarrow> app_phase a \<noteq> Crashed \<Longrightarrow> app_rpc_calls a = add_mset c M \<Longrightarrow> app_server a = s \<Longrightarrow>
   app_reach F S a (a\<lparr>app_rpc_calls := M, app_server := s'\<rparr>)"
proof (induction arbitrary: a rule: call_runs.induct)
  case (last_step c s s')
  have "app_step F S a (a\<lparr>app_rpc_calls := with_call None M, app_server := s'\<rparr>)"
    by (rule rpc_goes_on [where c = c]) (use last_step in simp_all)
  then show ?case using reach_step [OF reach_start] by simp
next
  case (more_steps c s c' s' s'')
  let ?a = "a\<lparr>app_rpc_calls := with_call (Some c') M, app_server := s'\<rparr>"
  have "app_step F S a ?a" by (rule rpc_goes_on [where c = c]) (use more_steps in simp_all)
  moreover have "app_reach F S ?a (?a\<lparr>app_rpc_calls := M, app_server := s''\<rparr>)"
    by (rule more_steps.IH) (use more_steps.prems in simp_all)
  ultimately show ?case using app_reach_first by simp
qed

lemma rpc_call_alone:
  assumes "0 < app_conns a" and "app_phase a \<noteq> Crashed" and "rpc_call_begins c"
    and "call_runs F c (app_server a) s"
  shows "app_reach F S a (a\<lparr>app_server := s\<rparr>)"
proof -
  let ?a = "a\<lparr>app_rpc_calls := add_mset c (app_rpc_calls a)\<rparr>"
  have "app_step F S a ?a" by (rule rpc_arrives [OF assms(1-3)])
  moreover have "app_reach F S ?a (?a\<lparr>app_rpc_calls := app_rpc_calls a, app_server := s\<rparr>)"
    by (rule rpc_call_goes_on [OF assms(4)]) (use assms(2) in simp_all)
  ultimately show ?thesis using app_reach_first by simp
qed

section \<open>Memory of restored jobs\<close>

text \<open>A counter at zero underflows with the first job that leaves.\<close>

lemma small_decrement:
  assumes "gob_small j" and "w \<noteq> 0"
  shows "fst (mm_decrement (size_of j) (configure_mem_monitor w))"
proof -
  have l: "length (body j) < 2 ^ 38" "length (job_id j) < 2 ^ 38"
    using assms(1) by (simp_all add: gob_small_def too_big_def)
  then have s: "unat (size_of j) = 80 + (length (body j) + length (job_id j))"
    by (simp add: size_of_def size_overhead_def unat_word_ariths unat_of_nat take_bit_nat_eq_self)
  then have u: "uint (size_of j) = int (80 + (length (body j) + length (job_id j)))" by (simp add: uint_nat)
  have "uint (- size_of j) = (- uint (size_of j)) mod 2 ^ 64" by (simp add: uint_word_ariths)
  also have "\<dots> = 2 ^ 64 - uint (size_of j)"
    using u l by (subst zmod_zminus1_eq_if) simp
  finally have "tebibyte < - size_of j"
    using u l by (simp add: word_less_def tebibyte_def)
  then show ?thesis using assms(2)
    by (simp add: mm_decrement_def configure_mem_monitor_def not_minus_1 Let_def)
qed

lemma small_release:
  "gob_small j \<Longrightarrow> w \<noteq> 0 \<Longrightarrow> release_job j ((new_server h w)\<lparr>srv_hub := h'\<rparr>) = Panicked"
  using small_decrement [of j w] by (auto simp: release_job_def new_server_def split: prod.splits)

end
