(* ===== verification/Client_Drain.thy ===== *)
theory Client_Drain
  imports Server_App Hub_Drain
begin

text \<open>
  What a server does for a client from a late instant on, when every spoke has started and
  every job is due: a call of \<open>Next\<close> with enough polls hands out a job. A put of a future job
  with a fresh id is taken in while the monitor has room, and a cancel never fails; none of
  the calls changes the configuration of the server.
\<close>

section \<open>The configuration of a server\<close>

text \<open>The span of the spokes and the watermark of the monitor, if it has one.\<close>

definition mm_limit :: "monitor \<Rightarrow> 64 word option" where
  "mm_limit m = (case m of Noop_Monitor \<Rightarrow> None | Mem_Monitor s \<Rightarrow> Some (mm_watermark s))"

definition srv_config :: "'f server \<Rightarrow> duration \<times> 64 word option" where
  "srv_config s = (spoke_span (srv_hub s), mm_limit (srv_mem s))"

text \<open>A configuration that takes in future jobs while \<open>n\<close> bytes are accounted for.\<close>

definition has_room :: "nat \<Rightarrow> duration \<times> 64 word option \<Rightarrow> bool" where
  "has_room n cfg \<longleftrightarrow> 0 < sint (fst cfg) \<and> (\<forall>w. snd cfg = Some w \<longrightarrow> n < unat w)"

lemma limit_increment [simp]: "mm_limit (mm_increment sz m) = mm_limit m"
  by (cases m) (simp_all add: mm_limit_def mm_increment_def)

lemma limit_decrement: "mm_decrement sz m = (p, m') \<Longrightarrow> mm_limit m' = mm_limit m"
  by (cases m) (auto simp: mm_limit_def mm_decrement_def Let_def split: if_splits)

lemma room_fence: "srv_ok leak s \<Longrightarrow> has_room (usage (hub_jobs (srv_hub s)) + leak) (srv_config s) \<Longrightarrow> mm_fence_open (srv_mem s)"
  by (cases "srv_mem s") (auto simp: srv_ok_def mem_counts_def mm_fence_open_def has_room_def srv_config_def mm_limit_def
      word_le_nat_alt)

lemma hub_do_span: "hub_good h \<Longrightarrow> hub_do F op h = Some (r, h') \<Longrightarrow> spoke_span h' = spoke_span h"
  by (cases rule: hub_do_good [of h F op]) auto

lemma srv_ok_good: "srv_ok leak s \<Longrightarrow> hub_good (srv_hub s)"
  by (simp add: srv_ok_def)

lemma release_config: "release_job j s = Done s' \<Longrightarrow> srv_config s' = srv_config s"
  by (auto simp: release_job_def srv_config_def dest: limit_decrement split: prod.splits if_splits)

lemma next_attempt_config: "hub_good (srv_hub s) \<Longrightarrow> next_attempt F clk s = Done (r, s') \<Longrightarrow> srv_config s' = srv_config s"
  using hub_do_span [of "srv_hub s" F "OpNext clk"]
  by (auto simp: next_attempt_def srv_config_def dest!: release_config split: option.splits outcome.splits)

lemma rpc_cancel_config: "hub_good (srv_hub s) \<Longrightarrow> rpc_cancel F rank jid s = Done (e, s') \<Longrightarrow> srv_config s' = srv_config s"
  using hub_do_span [of "srv_hub s" F "OpCancel rank jid"]
  by (auto simp: rpc_cancel_def srv_config_def dest!: release_config
      split: option.splits outcome.splits sum.splits)

lemma rpc_put_config: "hub_good (srv_hub s) \<Longrightarrow> rpc_put_with_id F rank now1 now2 aj s = Done (e, r, s') \<Longrightarrow>
    srv_config s' = srv_config s"
  using hub_do_span [of "srv_hub s" F "OpAdd rank now2 (fst (put_job (aj_id aj) (t_add now1 (aj_delay aj)) (aj_body aj) s))"]
  by (auto simp: rpc_put_eq put_effect_def srv_config_def dest!: put_job_hub split: prod.splits if_splits)

section \<open>A late server hands out\<close>

text \<open>An attempt at a late instant hands out a job, or moves one waiting spoke on.\<close>

lemma late_attempt:
  assumes ok: "srv_ok leak s" and due: "hub_due now (srv_hub s)" and late: "\<forall>i. now \<le> clk i" and j: "hub_jobs (srv_hub s) \<noteq> {#}"
  obtains (skip) s' where "next_attempt F clk s = Done (None, s')" "srv_ok leak s'" "hub_due now (srv_hub s')"
      "srv_config s' = srv_config s"
      "hub_jobs (srv_hub s') = hub_jobs (srv_hub s)" "size (waiting (srv_hub s)) = Suc (size (waiting (srv_hub s')))"
  | (some) j s' where "next_attempt F clk s = Done (Some j, s')" "srv_ok leak s'"
      "hub_jobs (srv_hub s) = add_mset j (hub_jobs (srv_hub s'))" "srv_config s' = srv_config s"
proof (cases rule: next_attempt_cases [OF ok, of F clk])
  case (1 s')
  note n = next_attempt_hub [OF 1(1)] next_attempt_config [OF srv_ok_good [OF ok] 1(1)]
  show ?thesis
    by (cases rule: late_next [OF due late, of F]) (use n 1 j in \<open>auto intro: skip\<close>)
next
  case (2 j s')
  then show ?thesis using next_attempt_config [OF srv_ok_good [OF ok] 2(1)] by (intro some [of j s'])
qed

definition late_result :: "nat \<Rightarrow> 'f server \<Rightarrow> job \<Rightarrow> 'f server \<Rightarrow> bool" where
  "late_result leak s j s' \<longleftrightarrow> hub_jobs (srv_hub s) = add_mset j (hub_jobs (srv_hub s')) \<and>
     srv_ok leak s' \<and> srv_config s' = srv_config s"

lemma next_loop_late:
  "srv_ok leak s \<Longrightarrow> hub_due now (srv_hub s) \<Longrightarrow> hub_jobs (srv_hub s) \<noteq> {#} \<Longrightarrow>
   size (waiting (srv_hub s)) < n \<Longrightarrow> \<forall>i < k + n. nows i < till \<Longrightarrow> n \<le> fuel \<Longrightarrow> \<forall>k i. now \<le> clks k i \<Longrightarrow>
   \<exists>j s'. next_loop F till nows clks (\<lambda>_ s. s) fuel k s = Some (Done (Some j, s')) \<and>
     late_result leak s j s'"
proof (induction n arbitrary: k s fuel)
  case (Suc n)
  then obtain m where f: "fuel = Suc m" by (cases fuel) auto
  have t: "t_after till (nows k)" using Suc.prems(5) by (simp add: time_simps)
  show ?case
  proof (cases rule: late_attempt [OF Suc.prems(1,2) spec [OF Suc.prems(7), of k] Suc.prems(3), of F])
    case (1 s')
    have "\<exists>j s''. next_loop F till nows clks (\<lambda>_ s. s) m (Suc k) s' = Some (Done (Some j, s'')) \<and>
        late_result leak s' j s''"
      by (rule Suc.IH [OF 1(2,3)]) (use 1(5,6) Suc.prems f in auto)
    then show ?thesis using 1(1,4,5) f t by (simp add: late_result_def)
  next
    case (2 j s')
    then show ?thesis using f t by (simp add: late_result_def)
  qed
qed simp

text \<open>A call of \<open>Next\<close> that polls late, alone, and at least \<open>n\<close> times after its first attempt.\<close>

definition polls_late :: "'f call_env \<Rightarrow> instant \<Rightarrow> nat \<Rightarrow> duration \<Rightarrow> bool" where
  "polls_late E t0 n timeout \<longleftrightarrow>
     (\<forall>i. t0 \<le> ce_clk E i) \<and> (\<forall>k i. t0 \<le> ce_clks E k i) \<and> ce_env E = (\<lambda>_ s. s) \<and> timeout \<noteq> 0 \<and>
     n \<le> ce_fuel E \<and> (\<forall>i<n. ce_nows E i < t_add (ce_now1 E) timeout)"

lemma client_next_late:
  assumes "srv_ok leak s" and "\<forall>now\<ge>t0. hub_due now (srv_hub s)" and j: "hub_jobs (srv_hub s) \<noteq> {#}"
    and "polls_late E t0 (size (waiting (srv_hub s))) timeout"
  shows "\<exists>j s'. client_next E timeout \<lparr>cl_conn = Some Conn_Open\<rparr> s = Some (Done (job_id j, body j, None, s')) \<and>
    late_result leak s j s'"
proof -
  have late: "\<forall>i. t0 \<le> ce_clk E i" "\<forall>k i. t0 \<le> ce_clks E k i" and env: "ce_env E = (\<lambda>_ s. s)"
    using assms(4) by (simp_all add: polls_late_def)
  have due: "hub_due t0 (srv_hub s)" using assms(2) by simp
  have "\<exists>j s'. wait_next (ce_filter E) timeout (ce_clk E) (ce_now1 E) (ce_nows E) (ce_clks E) (ce_env E) (ce_fuel E) s =
      Some (Done (Some j, s')) \<and> late_result leak s j s'"
  proof (cases rule: late_attempt [OF assms(1) due late(1) j, of "ce_filter E"])
    case (1 s')
    have "\<exists>j s''. next_loop (ce_filter E) (t_add (ce_now1 E) timeout) (ce_nows E) (ce_clks E) (\<lambda>_ s. s) (ce_fuel E) 0 s' =
        Some (Done (Some j, s'')) \<and> late_result leak s' j s''"
      by (rule next_loop_late [OF 1(2,3)]) (use 1(5,6) j assms(4) late in \<open>auto simp: polls_late_def\<close>)
    then show ?thesis using 1(1,4,5) env assms(4) by (simp add: wait_next_def polls_late_def late_result_def)
  next
    case (2 j s')
    then show ?thesis by (simp add: wait_next_def late_result_def)
  qed
  then show ?thesis by (auto simp: client_next_def rpc_next_def rpc_call_def)
qed

text \<open>
  A call that may run out of polls: the attempts that answered nothing have each moved a
  waiting spoke on.
\<close>

definition late_skip :: "nat \<Rightarrow> instant \<Rightarrow> 'f server \<Rightarrow> 'f server \<Rightarrow> bool" where
  "late_skip leak now s s' \<longleftrightarrow> srv_ok leak s' \<and> hub_due now (srv_hub s') \<and> srv_config s' = srv_config s \<and>
     hub_jobs (srv_hub s') = hub_jobs (srv_hub s) \<and> size (waiting (srv_hub s')) \<le> size (waiting (srv_hub s))"

lemma next_loop_returns:
  "srv_ok leak s \<Longrightarrow> hub_due now (srv_hub s) \<Longrightarrow> hub_jobs (srv_hub s) \<noteq> {#} \<Longrightarrow> \<forall>k i. now \<le> clks k i \<Longrightarrow>
   till \<le> nows (k + n) \<Longrightarrow>
   \<exists>r s'. next_loop F till nows clks (\<lambda>_ s. s) (Suc n) k s = Some (Done (r, s')) \<and>
     (case r of None \<Rightarrow> late_skip leak now s s' | Some j \<Rightarrow> late_result leak s j s')"
proof (induction n arbitrary: k s)
  case 0
  then show ?case by (simp add: time_simps late_skip_def)
next
  case (Suc n)
  show ?case
  proof (cases "t_after till (nows k)")
    case True
    show ?thesis
    proof (cases rule: late_attempt [OF Suc.prems(1,2) spec [OF Suc.prems(4), of k] Suc.prems(3), of F])
      case (1 s')
      have "hub_jobs (srv_hub s') \<noteq> {#}" "till \<le> nows (Suc k + n)" using 1(5) Suc.prems(3,5) by simp_all
      then obtain r s'' where r: "next_loop F till nows clks (\<lambda>_ s. s) (Suc n) (Suc k) s' = Some (Done (r, s''))"
        "case r of None \<Rightarrow> late_skip leak now s' s'' | Some j \<Rightarrow> late_result leak s' j s''"
        using Suc.IH [OF 1(2,3) _ Suc.prems(4)] by blast
      have "next_loop F till nows clks (\<lambda>_ s. s) (Suc (Suc n)) k s = Some (Done (r, s''))"
        using 1(1) r(1) True by (subst next_loop.simps(2)) simp
      moreover have "case r of None \<Rightarrow> late_skip leak now s s'' | Some j \<Rightarrow> late_result leak s j s''"
        using r(2) 1(4-6) by (cases r) (simp_all add: late_skip_def late_result_def)
      ultimately show ?thesis by blast
    next
      case (2 j s')
      then show ?thesis using True by (simp add: late_result_def)
    qed
  next
    case False
    then show ?thesis using Suc.prems by (simp add: late_skip_def)
  qed
qed

lemma client_next_returns:
  assumes ok: "srv_ok leak s" and due: "hub_due now (srv_hub s)" and j: "hub_jobs (srv_hub s) \<noteq> {#}"
    and late: "\<forall>i. now \<le> ce_clk E i" "\<forall>k i. now \<le> ce_clks E k i" and env: "ce_env E = (\<lambda>_ s. s)"
    and fuel: "ce_fuel E = Suc n" "t_add (ce_now1 E) timeout \<le> ce_nows E n" and "timeout \<noteq> 0"
  obtains (timeout) s' where
      "client_next E timeout \<lparr>cl_conn = Some Conn_Open\<rparr> s = Some (Done ([], [], Some (Server_Error err_timeout), s'))"
      "late_skip leak now s s'" "size (waiting (srv_hub s')) < size (waiting (srv_hub s))"
  | (some) j s' where
      "client_next E timeout \<lparr>cl_conn = Some Conn_Open\<rparr> s = Some (Done (job_id j, body j, None, s'))"
      "late_result leak s j s'"
proof (cases rule: late_attempt [OF ok due late(1) j, of "ce_filter E"])
  case (1 s1)
  have "hub_jobs (srv_hub s1) \<noteq> {#}" "t_add (ce_now1 E) timeout \<le> ce_nows E (0 + n)" using 1(5) j fuel(2) by simp_all
  with next_loop_returns [OF 1(2,3) _ late(2), where k = 0 and n = n and nows = "ce_nows E"] obtain r s' where
    r: "next_loop (ce_filter E) (t_add (ce_now1 E) timeout) (ce_nows E) (ce_clks E) (\<lambda>_ s. s) (Suc n) 0 s1 =
        Some (Done (r, s'))"
      "case r of None \<Rightarrow> late_skip leak now s1 s' | Some j \<Rightarrow> late_result leak s1 j s'" by blast
  show ?thesis
  proof (cases r)
    case None
    then show ?thesis using r 1 env fuel assms(9) by (intro timeout [of s'])
        (auto simp: client_next_def rpc_next_def rpc_call_def wait_next_def late_skip_def)
  next
    case (Some j)
    then show ?thesis using r 1 env fuel assms(9) by (intro some [of j s'])
        (auto simp: client_next_def rpc_next_def rpc_call_def wait_next_def late_result_def)
  qed
next
  case (2 j s')
  then show ?thesis by (intro some [of j s'])
      (auto simp: client_next_def rpc_next_def rpc_call_def wait_next_def late_result_def)
qed

section \<open>Puts and cancels\<close>

lemma client_put_future:
  assumes ok: "srv_ok leak s" and room: "has_room (usage (hub_jobs (srv_hub s)) + leak) (srv_config s)"
    and id: "jid \<noteq> []" "jid \<notin># hub_ids (srv_hub s)" and late: "ce_now2 E < t_add (ce_now1 E) d"
    and small: "usage (hub_jobs (srv_hub s)) + leak + unat (size_of (new_job jid (t_add (ce_now1 E) d) b)) \<le> 2 ^ 40"
  shows "\<exists>s'. client_put_with_id E jid b d \<lparr>cl_conn = Some Conn_Open\<rparr> s = Done (None, s') \<and> srv_ok leak s' \<and>
    hub_jobs (srv_hub s') = add_mset (new_job jid (t_add (ce_now1 E) d) b) (hub_jobs (srv_hub s)) \<and>
    srv_config s' = srv_config s"
proof -
  let ?j = "new_job jid (t_add (ce_now1 E) d) b" and ?aj = "\<lparr>aj_body = b, aj_id = jid, aj_delay = d\<rparr>"
  have wf: "hub_wf (srv_hub s)" and span: "0 < sint (spoke_span (srv_hub s))"
    using ok room by (simp_all add: srv_ok_def hub_good_def has_room_def srv_config_def)
  have open_fence: "mm_fence_open (srv_mem s)" by (rule room_fence [OF ok room])
  have put: "put_job (aj_id ?aj) (t_add (ce_now1 E) (aj_delay ?aj)) (aj_body ?aj) s = (?j, s)"
    using id(1) by (simp add: put_job_def)
  have "job_id ?j \<notin># hub_ids (srv_hub s)" "ce_now2 E < trigger_at ?j" using id(2) late by (simp_all add: new_job_def)
  from hub_add_future [OF wf this span, of "ce_filter E" "ce_rank E"]
  obtain h' where add: "hub_add (ce_filter E) (ce_rank E) (ce_now2 E) ?j (srv_hub s) = (None, h')" by blast
  have ok_put: "\<exists>s'. rpc_put_with_id (ce_filter E) (ce_rank E) (ce_now1 E) (ce_now2 E) ?aj s = Done (None, None, s')"
    using open_fence put id(1) add by (simp add: rpc_put_eq put_effect_def)
  then obtain s' where s': "rpc_put_with_id (ce_filter E) (ce_rank E) (ce_now1 E) (ce_now2 E) ?aj s = Done (None, None, s')"
    by blast
  have call: "put_call E ?aj Conn_Open jid s = Done (None, [], s')" by (simp add: put_call_def rpc_call_def s')
  note cfg = rpc_put_config [OF srv_ok_good [OF ok] s']
  have "srv_ok leak s' \<and> hub_jobs (srv_hub s') = add_mset ?j (hub_jobs (srv_hub s))"
    by (cases rule: put_call_cases [OF ok open_fence put small, of jid]) (use call in auto)
  then show ?thesis using call cfg by (simp add: client_put_with_id_def)
qed

lemma client_cancel_done:
  assumes "srv_ok leak s" and "hub_jobs (srv_hub s) = {#}"
  shows "\<exists>s'. client_cancel E jid \<lparr>cl_conn = Some Conn_Open\<rparr> s = Done (None, s') \<and> srv_ok leak s' \<and>
    hub_jobs (srv_hub s') = {#} \<and> srv_config s' = srv_config s"
proof (cases rule: cancel_cases [OF assms(1), of "ce_filter E" "ce_rank E" jid])
  case (1 s')
  then show ?thesis using rpc_cancel_config [OF srv_ok_good [OF assms(1)] 1(1)] assms(2)
    by (simp add: client_cancel_def rpc_call_def)
qed (use assms(2) in simp)

end
