(* ===== verification/Text_Output.thy ===== *)
theory Text_Output
  imports Job
begin

text \<open>
  How the commands write: durations as \<open>time.Duration.String\<close> does, and strings as
  \<open>encoding/json\<close> does; and a reader of JSON strings, by which what was written is found
  to be the text it was made from.
\<close>

section \<open>Printing\<close>

definition newline :: string where "newline = [char_of (10 :: nat)]"
definition tab :: string where "tab = [char_of (9 :: nat)]"

text \<open>\<open>time.Duration.String\<close>: the fraction without trailing zeros, then the units.\<close>

fun fmt_frac :: "nat \<Rightarrow> int \<Rightarrow> bool \<Rightarrow> string \<Rightarrow> string \<times> int" where
  "fmt_frac 0 v printed acc = (if printed then CHR ''.'' # acc else acc, v)"
| "fmt_frac (Suc p) v printed acc =
     (let d = v mod 10; pr = (printed \<or> d \<noteq> 0)
      in fmt_frac p (v div 10) pr (if pr then digit_char (nat d) # acc else acc))"

definition duration_string :: "duration \<Rightarrow> string" where
  "duration_string d =
     (let u = \<bar>sint d\<bar>;
          text = (if u = 0 then ''0s''
                  else if u < 10 ^ 9
                  then let (p, unit) = (if u < 10 ^ 3 then (0, ''ns'')
                                        else if u < 10 ^ 6 then (3, [CHR 0xC2, CHR 0xB5] @ ''s'') else (6, ''ms''));
                           (frac, v) = fmt_frac p u False []
                       in sprintf_d (nat v) @ frac @ unit
                  else let (frac, secs) = fmt_frac 9 u False [];
                           mins = secs div 60; hours = mins div 60
                       in (if 0 < hours then sprintf_d (nat hours) @ ''h'' else []) @
                          (if 0 < mins then sprintf_d (nat (mins mod 60)) @ ''m'' else []) @
                          sprintf_d (nat (secs mod 60)) @ frac @ ''s'')
      in if sint d < 0 then CHR ''-'' # text else text)"

text \<open>
  \<open>encoding/json\<close> of a string: the number of bytes of the UTF-8 sequence at the front, 0 if
  there is none, and the escapes.
\<close>

definition continuation :: "8 word \<Rightarrow> bool" where
  "continuation c \<longleftrightarrow> 0x80 \<le> c \<and> c \<le> 0xBF"

definition utf8_front :: "bytes \<Rightarrow> nat" where
  "utf8_front bs =
     (case bs of
        [] \<Rightarrow> 0
      | b # cs \<Rightarrow>
          (if b < 0x80 then 1
           else if b < 0xC2 \<or> 0xF4 < b then 0
           else if b \<le> 0xDF then (case cs of c # _ \<Rightarrow> if continuation c then 2 else 0 | _ \<Rightarrow> 0)
           else let lo = (if b = 0xE0 then 0xA0 else if b = 0xF0 then 0x90 else 0x80);
                    hi = (if b = 0xED then 0x9F else if b = 0xF4 then 0x8F else 0xBF)
                in if b \<le> 0xEF
                   then (case cs of c # d # _ \<Rightarrow>
                           if lo \<le> c \<and> c \<le> hi \<and> continuation d then 3 else 0 | _ \<Rightarrow> 0)
                   else (case cs of c # d # e # _ \<Rightarrow>
                           if lo \<le> c \<and> c \<le> hi \<and> continuation d \<and> continuation e then 4 else 0 | _ \<Rightarrow> 0)))"

definition hex_digit :: "8 word \<Rightarrow> 8 word" where
  "hex_digit w = (if w < 10 then 48 + w else 87 + w)"

text \<open>A byte below \<open>0x80\<close>: quotes, control characters and what HTML reserves is escaped.\<close>

definition json_ascii :: "8 word \<Rightarrow> bytes" where
  "json_ascii b =
     (if b = 0x5C \<or> b = 0x22 then [0x5C, b]
      else if b = 0x08 then bytes_of (CHR 0x5C # ''b'') else if b = 0x0C then bytes_of (CHR 0x5C # ''f'')
      else if b = 0x0A then bytes_of (CHR 0x5C # ''n'') else if b = 0x0D then bytes_of (CHR 0x5C # ''r'')
      else if b = 0x09 then bytes_of (CHR 0x5C # ''t'')
      else if b < 0x20 \<or> b = 0x3C \<or> b = 0x3E \<or> b = 0x26
      then bytes_of (CHR 0x5C # ''u00'') @ [hex_digit (b div 16), hex_digit (b mod 16)]
      else [b])"

function json_chars :: "bytes \<Rightarrow> bytes" where
  "json_chars bs =
     (if bs = [] then []
      else let n = utf8_front bs in
        if n = 0 then bytes_of (CHR 0x5C # ''ufffd'') @ json_chars (drop 1 bs)
        else if n = 1 then json_ascii (hd bs) @ json_chars (drop 1 bs)
        else if take 3 bs = [0xE2, 0x80, 0xA8] then bytes_of (CHR 0x5C # ''u2028'') @ json_chars (drop 3 bs)
        else if take 3 bs = [0xE2, 0x80, 0xA9] then bytes_of (CHR 0x5C # ''u2029'') @ json_chars (drop 3 bs)
        else take n bs @ json_chars (drop n bs))"
  by pat_completeness auto

termination
  by (relation "measure length") (auto simp: length_greater_0_conv)

declare json_chars.simps [simp del]

definition json_string :: "bytes \<Rightarrow> string" where
  "json_string b = ''\"'' @ string_of (json_chars b) @ ''\"''"

section \<open>Reading JSON strings\<close>

text \<open>
  A reader of the strings of JSON, for the escapes of the basic plane: the content up to the
  closing quote, and the rest.
\<close>

definition unhex :: "8 word \<Rightarrow> nat option" where
  "unhex c =
     (if 48 \<le> c \<and> c \<le> 57 then Some (unat (c - 48))
      else if 97 \<le> c \<and> c \<le> 102 then Some (unat (c - 87))
      else if 65 \<le> c \<and> c \<le> 70 then Some (unat (c - 55)) else None)"

definition utf8_encode :: "nat \<Rightarrow> bytes" where
  "utf8_encode n =
     (if n < 0x80 then [word_of_nat n]
      else if n < 0x800 then [word_of_nat (0xC0 + n div 64), word_of_nat (0x80 + n mod 64)]
      else [word_of_nat (0xE0 + n div 4096), word_of_nat (0x80 + n div 64 mod 64), word_of_nat (0x80 + n mod 64)])"

definition code_point :: "8 word \<Rightarrow> 8 word \<Rightarrow> 8 word \<Rightarrow> 8 word \<Rightarrow> nat option" where
  "code_point a b c d =
     (case (unhex a, unhex b, unhex c, unhex d) of
        (Some p, Some q, Some r, Some s) \<Rightarrow> Some (((p * 16 + q) * 16 + r) * 16 + s)
      | _ \<Rightarrow> None)"

text \<open>What follows a backslash: the bytes it stands for.\<close>

fun json_escape :: "bytes \<Rightarrow> (bytes \<times> bytes) option" where
  "json_escape [] = None"
| "json_escape (c # cs) =
     (if c = 0x22 \<or> c = 0x5C \<or> c = 0x2F then Some ([c], cs)
      else if c = 98 then Some ([0x08], cs) else if c = 102 then Some ([0x0C], cs)
      else if c = 110 then Some ([0x0A], cs) else if c = 114 then Some ([0x0D], cs)
      else if c = 116 then Some ([0x09], cs)
      else if c = 117 then
        (case cs of
           w # x # y # z # rest \<Rightarrow> map_option (\<lambda>n. (utf8_encode n, rest)) (code_point w x y z)
         | _ \<Rightarrow> None)
      else None)"

lemma json_escape_shorter: "json_escape cs = Some (x, rest) \<Longrightarrow> length rest < length cs"
  by (cases cs) (auto split: if_splits list.splits)

function json_read :: "bytes \<Rightarrow> (bytes \<times> bytes) option" where
  "json_read bs =
     (case bs of
        [] \<Rightarrow> None
      | c # cs \<Rightarrow>
          (if c = 0x22 then Some ([], cs)
           else if c = 0x5C
           then (case json_escape cs of
                   None \<Rightarrow> None
                 | Some (x, rest) \<Rightarrow> map_option (\<lambda>(y, r). (x @ y, r)) (json_read rest))
           else map_option (\<lambda>(y, r). (c # y, r)) (json_read cs)))"
  by pat_completeness auto

termination
  by (relation "measure length") (auto dest: json_escape_shorter)

declare json_read.simps [simp del]

text \<open>Text that is UTF-8 throughout.\<close>

function utf8_valid :: "bytes \<Rightarrow> bool" where
  "utf8_valid bs =
     (if bs = [] then True else if utf8_front bs = 0 then False else utf8_valid (drop (utf8_front bs) bs))"
  by pat_completeness auto

termination
  by (relation "measure length") auto

declare utf8_valid.simps [simp del]

section \<open>What was written is read back\<close>

abbreviation read_on :: "bytes \<Rightarrow> bytes \<Rightarrow> (bytes \<times> bytes) option" where
  "read_on x r \<equiv> map_option (\<lambda>(y, s). (x @ y, s)) (json_read r)"

lemma read_on_append: "map_option (\<lambda>(y, s). (x @ y, s)) (read_on z r) = read_on (x @ z) r"
  by (cases "json_read r") auto

lemma read_escape: "json_escape cs = Some (x, r) \<Longrightarrow> json_read (0x5C # cs) = read_on x r"
  by (subst json_read.simps) simp

lemma read_plain: "c \<noteq> 0x22 \<Longrightarrow> c \<noteq> 0x5C \<Longrightarrow> json_read (c # r) = read_on [c] r"
  by (subst json_read.simps) simp

lemma read_high: "\<forall>c \<in> set xs. 0x80 \<le> c \<Longrightarrow> json_read (xs @ r) = read_on xs r"
proof (induction xs)
  case Nil
  then show ?case by (cases "json_read r") auto
next
  case (Cons c xs)
  then have "c \<noteq> 0x22" "c \<noteq> 0x5C" by auto
  then show ?case using Cons read_on_append [of "[c]" xs r] by (simp add: read_plain)
qed

lemma hex_read:
  assumes "b < 0x80"
  shows "code_point 48 48 (hex_digit (b div 16)) (hex_digit (b mod 16)) = Some (unat b)"
proof -
  have "\<forall>n \<in> set [0..<128]. code_point 48 48 (hex_digit (word_of_nat n div 16)) (hex_digit (word_of_nat n mod 16)) = Some n"
    by code_simp
  moreover have "unat b \<in> set [0..<128]" using assms by (simp add: word_less_nat_alt)
  ultimately have "code_point 48 48 (hex_digit (word_of_nat (unat b) div 16)) (hex_digit (word_of_nat (unat b) mod 16)) =
      Some (unat b)" by blast
  then show ?thesis by simp
qed

lemma read_ascii:
  assumes "b < 0x80"
  shows "json_read (json_ascii b @ r) = read_on [b] r"
proof -
  have u: "utf8_encode (unat b) = [b]" using assms by (simp add: utf8_encode_def word_less_nat_alt)
  have bs: "bytes_of (CHR 0x5C # ''b'') = [0x5C, 98]" "bytes_of (CHR 0x5C # ''f'') = [0x5C, 102]"
    "bytes_of (CHR 0x5C # ''n'') = [0x5C, 110]" "bytes_of (CHR 0x5C # ''r'') = [0x5C, 114]"
    "bytes_of (CHR 0x5C # ''t'') = [0x5C, 116]" "bytes_of (CHR 0x5C # ''u00'') = [0x5C, 117, 48, 48]"
    by code_simp+
  show ?thesis
    using hex_read [OF assms] by (auto simp: json_ascii_def bs u read_escape read_plain)
qed

text \<open>The sequences of several bytes: all their bytes are above the ASCII range.\<close>

lemma utf8_front_cases:
  assumes "2 \<le> utf8_front bs"
  obtains b c cs where "bs = b # c # cs" "0x80 \<le> b" "0x80 \<le> c" "utf8_front bs = 2"
  | b c d cs where "bs = b # c # d # cs" "0x80 \<le> b" "0x80 \<le> c" "0x80 \<le> d" "utf8_front bs = 3"
  | b c d e cs where "bs = b # c # d # e # cs" "0x80 \<le> b" "0x80 \<le> c" "0x80 \<le> d" "0x80 \<le> e" "utf8_front bs = 4"
proof -
  obtain b cs where bs: "bs = b # cs" using assms by (cases bs) (simp_all add: utf8_front_def)
  define lo :: "8 word" where "lo = (if b = 0xE0 then 0xA0 else if b = 0xF0 then 0x90 else 0x80)"
  define hi :: "8 word" where "hi = (if b = 0xED then 0x9F else if b = 0xF4 then 0x8F else 0xBF)"
  have lo: "0x80 \<le> c" if "lo \<le> c" for c
  proof -
    have "0x80 \<le> lo" by (simp add: lo_def)
    then show ?thesis using that by (rule order_trans)
  qed
  have eq: "utf8_front bs =
      (if b < 0x80 then 1 else if b < 0xC2 \<or> 0xF4 < b then 0
       else if b \<le> 0xDF then (case cs of c # _ \<Rightarrow> if continuation c then 2 else 0 | _ \<Rightarrow> 0)
       else if b \<le> 0xEF
       then (case cs of c # d # _ \<Rightarrow> if lo \<le> c \<and> c \<le> hi \<and> continuation d then 3 else 0 | _ \<Rightarrow> 0)
       else (case cs of c # d # e # _ \<Rightarrow>
               if lo \<le> c \<and> c \<le> hi \<and> continuation d \<and> continuation e then 4 else 0 | _ \<Rightarrow> 0))"
    unfolding utf8_front_def bs Let_def lo_def hi_def by (simp only: list.case)
  have b: "\<not> b < 0x80" "\<not> (b < 0xC2 \<or> 0xF4 < b)" using assms unfolding eq by (auto split: if_splits)
  then have b': "0x80 \<le> b" by (simp add: not_less)
  show ?thesis
  proof (cases "b \<le> 0xDF")
    case True
    then obtain c ds where "cs = c # ds" "continuation c"
      using assms b unfolding eq by (cases cs) (auto split: if_splits)
    moreover from this have "utf8_front bs = 2" unfolding eq using b True by simp
    ultimately show ?thesis using that(1) [of b c ds] b' by (simp add: bs continuation_def)
  next
    case two: False
    show ?thesis
    proof (cases "b \<le> 0xEF")
      case True
      then obtain c d ds where "cs = c # d # ds" "lo \<le> c" "c \<le> hi" "continuation d"
        using assms b two unfolding eq by (auto split: if_splits list.splits)
      moreover from this have "utf8_front bs = 3" unfolding eq using b True two by simp
      ultimately show ?thesis using that(2) [of b c d ds] b' lo by (simp add: bs continuation_def)
    next
      case False
      then obtain c d e ds where "cs = c # d # e # ds" "lo \<le> c" "c \<le> hi" "continuation d" "continuation e"
        using assms b two unfolding eq by (auto split: if_splits list.splits)
      moreover from this have "utf8_front bs = 4" unfolding eq using b False two by simp
      ultimately show ?thesis using that(3) [of b c d e ds] b' lo by (simp add: bs continuation_def)
    qed
  qed
qed

lemma utf8_front_high: "2 \<le> utf8_front bs \<Longrightarrow> \<forall>c \<in> set (take (utf8_front bs) bs). 0x80 \<le> c"
  by (cases rule: utf8_front_cases [of bs]) auto

lemma utf8_front_1: "utf8_front bs = 1 \<Longrightarrow> \<exists>b cs. bs = b # cs \<and> b < 0x80"
  by (auto simp: utf8_front_def Let_def split: list.splits if_splits)

text \<open>The two separators that are escaped although they are not ASCII.\<close>

lemma read_separator:
  "json_read (bytes_of (CHR 0x5C # ''u2028'') @ r) = read_on [0xE2, 0x80, 0xA8] r"
  "json_read (bytes_of (CHR 0x5C # ''u2029'') @ r) = read_on [0xE2, 0x80, 0xA9] r"
proof -
  have b: "bytes_of (CHR 0x5C # ''u2028'') = [0x5C, 117, 50, 48, 50, 56]"
    "bytes_of (CHR 0x5C # ''u2029'') = [0x5C, 117, 50, 48, 50, 57]" by code_simp+
  have c: "code_point 50 48 50 56 = Some 0x2028" "code_point 50 48 50 57 = Some 0x2029"
    by (simp_all add: code_point_def unhex_def)
  have u: "utf8_encode 0x2028 = [0xE2, 0x80, 0xA8]" "utf8_encode 0x2029 = [0xE2, 0x80, 0xA9]"
    by (simp_all add: utf8_encode_def)
  show "json_read (bytes_of (CHR 0x5C # ''u2028'') @ r) = read_on [0xE2, 0x80, 0xA8] r"
    unfolding b using c u by (simp add: read_escape)
  show "json_read (bytes_of (CHR 0x5C # ''u2029'') @ r) = read_on [0xE2, 0x80, 0xA9] r"
    unfolding b using c u by (simp add: read_escape)
qed

lemma json_read_chars: "utf8_valid bs \<Longrightarrow> json_read (json_chars bs @ r) = read_on bs r"
proof (induction bs rule: json_chars.induct)
  case (1 bs)
  show ?case
  proof (cases "bs = []")
    case True
    then show ?thesis by (subst json_chars.simps) (cases "json_read r", auto)
  next
    case ne: False
    define n where "n = utf8_front bs"
    have n0: "n \<noteq> 0" and v: "utf8_valid (drop n bs)"
      using "1.prems" ne by (subst (asm) utf8_valid.simps, simp add: n_def split: if_splits)+
    have split: "bs = take n bs @ drop n bs" by simp
    have combine: "json_read (x @ json_chars (drop n bs) @ r) = read_on bs r"
      if "\<And>s. json_read (x @ s) = read_on (take n bs) s" "json_read (json_chars (drop n bs) @ r) = read_on (drop n bs) r" for x
      using that(1) [of "json_chars (drop n bs) @ r"] that(2) read_on_append [of "take n bs" "drop n bs" r] by simp
    show ?thesis
    proof (cases "n = 1")
      case True
      obtain b cs where b: "bs = b # cs" "b < 0x80" using utf8_front_1 True n_def by metis
      have "json_chars bs = json_ascii b @ json_chars (drop n bs)"
        using b True ne n_def by (subst json_chars.simps) (simp add: Let_def)
      moreover have "json_read (json_chars (drop n bs) @ r) = read_on (drop n bs) r"
        using "1.IH"(2) ne True v n_def by simp
      ultimately show ?thesis using combine [of "json_ascii b"] read_ascii [OF b(2)] b True by simp
    next
      case False
      with n0 have n2: "2 \<le> n" by simp
      have chars: "json_chars bs =
          (if take 3 bs = [0xE2, 0x80, 0xA8] then bytes_of (CHR 0x5C # ''u2028'') @ json_chars (drop 3 bs)
           else if take 3 bs = [0xE2, 0x80, 0xA9] then bytes_of (CHR 0x5C # ''u2029'') @ json_chars (drop 3 bs)
           else take n bs @ json_chars (drop n bs))"
        using ne n0 False n_def by (subst json_chars.simps) (simp add: Let_def)
      show ?thesis
      proof (cases "take 3 bs = [0xE2, 0x80, 0xA8] \<or> take 3 bs = [0xE2, 0x80, 0xA9]")
        case sep: True
        then obtain cs where "bs = [0xE2, 0x80, 0xA8] @ cs \<or> bs = [0xE2, 0x80, 0xA9] @ cs"
          by (metis append_take_drop_id)
        then have n3: "n = 3" unfolding n_def utf8_front_def by (auto simp: continuation_def)
        have "json_read (json_chars (drop n bs) @ r) = read_on (drop n bs) r"
          using "1.IH"(3,4) ne n0 False v n3 sep n_def by fastforce
        moreover obtain x where x: "json_chars bs = x @ json_chars (drop n bs)" "\<And>s. json_read (x @ s) = read_on (take n bs) s"
        proof (cases "take 3 bs = [0xE2, 0x80, 0xA8]")
          case True
          show ?thesis by (rule that [of "bytes_of (CHR 0x5C # ''u2028'')"]) (use chars True n3 read_separator(1) in simp_all)
        next
          case 9: False
          with sep have "take 3 bs = [0xE2, 0x80, 0xA9]" by blast
          then show ?thesis
            by (intro that [of "bytes_of (CHR 0x5C # ''u2029'')"]) (use chars 9 n3 read_separator(2) in simp_all)
        qed
        ultimately show ?thesis using combine [OF x(2)] x(1) by simp
      next
        case plain: False
        note high = read_high [OF utf8_front_high [OF n2 [unfolded n_def]], folded n_def]
        have "json_read (json_chars (drop n bs) @ r) = read_on (drop n bs) r"
          using "1.IH"(5) ne n0 False v plain n_def by simp
        then show ?thesis using combine [of "take n bs"] high chars plain by simp
      qed
    qed
  qed
qed

end
