(* ===== verification/Command_Line.thy ===== *)
theory Command_Line
  imports Client_Drain Text_Output
begin

text \<open>
  The commands of \<open>cmd\<close> that talk to a server: \<open>put\<close>, \<open>next\<close>, \<open>cancel\<close>
  (\<open>client.go\<close>), \<open>inspect\<close> (\<open>inspect.go\<close>) and \<open>version\<close>. A command ends with
  its output and the error it returns, if any; \<open>Run\<close> commands only log an error.
\<close>

section \<open>Commands\<close>

record buf_value =
  bv_buf :: bytes
  bv_is_set :: bool

definition buf_value_set :: "string \<Rightarrow> buf_value \<Rightarrow> buf_value" where
  "buf_value_set s v = v\<lparr>bv_buf := bytes_of s, bv_is_set := True\<rparr>"

definition buf_value_string :: "buf_value \<Rightarrow> string" where
  "buf_value_string v = string_of (bv_buf v)"

definition buf_value_type :: "buf_value \<Rightarrow> string" where
  "buf_value_type v = ''bufValue''"

record put_args =
  pa_id :: string
  pa_payload :: buf_value
  pa_delay :: duration

datatype 'e cmd_error = Dial_Failed 'e | Stdin_Failed 'e | Output_Failed 'e | Call_Failed client_error

text \<open>\<open>put\<close>: \<open>dialed\<close> is the error of the connection, if any, \<open>stdin\<close> what reading it gives.\<close>

definition put_cmd ::
  "'f call_env \<Rightarrow> 'e option \<Rightarrow> 'e + bytes \<Rightarrow> put_args \<Rightarrow> 'f server \<Rightarrow>
   (string \<times> 'e cmd_error option \<times> put_args \<times> 'f server) outcome" where
  "put_cmd E dialed stdin args s =
     (case new_client dialed of
        (Some e, c) \<Rightarrow> Done ([], Some (Dial_Failed e), args, s)
      | (None, c) \<Rightarrow>
          (case (if bv_is_set (pa_payload args) then Inr (bv_buf (pa_payload args)) else stdin) of
             Inl e \<Rightarrow> Done ([], Some (Stdin_Failed e), args, s)
           | Inr b \<Rightarrow>
               map_outcome (\<lambda>(args1, e, s1).
                   (if e = None then pa_id args1 @ newline else [], map_option Call_Failed e, args1, s1))
                 (if pa_id args \<noteq> []
                  then map_outcome (\<lambda>(e, s1). (args, e, s1))
                         (client_put_with_id E (pa_id args) b (pa_delay args) c s)
                  else map_outcome (\<lambda>(jid, e, s1). (args\<lparr>pa_id := jid\<rparr>, e, s1))
                         (client_put E b (pa_delay args) c s))))"

record next_args =
  na_timeout :: duration
  na_json :: bool

definition next_output :: "bool \<Rightarrow> string \<Rightarrow> bytes \<Rightarrow> string" where
  "next_output json jid b =
     (if json
      then ''{'' @ json_string (bytes_of ''ID'') @ '':'' @ json_string (bytes_of jid) @ '','' @
           json_string (bytes_of ''Body'') @ '':'' @ json_string b @ ''}''
      else ''ID: '' @ jid @ newline @ ''BODY: '' @ string_of b)"

text \<open>\<open>next\<close>; the error is logged.\<close>

definition next_cmd ::
  "'f call_env \<Rightarrow> 'e option \<Rightarrow> next_args \<Rightarrow> 'f server \<Rightarrow> (string \<times> 'e cmd_error option \<times> 'f server) outcome option" where
  "next_cmd E dialed args s =
     (case new_client dialed of
        (Some e, c) \<Rightarrow> Some (Done ([], Some (Dial_Failed e), s))
      | (None, c) \<Rightarrow>
          map_option (map_outcome (\<lambda>(jid, b, e, s1).
              case e of Some e \<Rightarrow> ([], Some (Call_Failed e), s1) | None \<Rightarrow> (next_output (na_json args) jid b, None, s1)))
            (client_next E (na_timeout args) c s))"

definition cancel_cmd ::
  "'f call_env \<Rightarrow> 'e option \<Rightarrow> string \<Rightarrow> 'f server \<Rightarrow> ('e cmd_error option \<times> 'f server) outcome" where
  "cancel_cmd E dialed jid s =
     (case new_client dialed of
        (Some e, c) \<Rightarrow> Done (Some (Dial_Failed e), s)
      | (None, c) \<Rightarrow> map_outcome (\<lambda>(e, s1). (map_option Call_Failed e, s1)) (client_cancel E jid c s))"

definition delimiter :: string where
  "delimiter = replicate 41 CHR ''-''"

definition inspect_entry :: "api_job \<Rightarrow> string" where
  "inspect_entry j =
     newline @ delimiter @ newline @ ''ID:'' @ tab @ aj_id j @ newline @
     ''DelayFromNow:'' @ tab @ duration_string (aj_delay j) @ newline @ ''Body:'' @ newline @ string_of (aj_body j)"

text \<open>Writing the entries; \<open>wr k\<close> is the error of the \<open>k\<close>-th write, if any.\<close>

fun inspect_write :: "(nat \<Rightarrow> 'e option) \<Rightarrow> nat \<Rightarrow> api_job list \<Rightarrow> string \<times> 'e option" where
  "inspect_write wr k [] = ([], None)"
| "inspect_write wr k (j # js) =
     (case wr k of
        Some e \<Rightarrow> ([], Some e)
      | None \<Rightarrow> (let (out, e) = inspect_write wr (Suc k) js in (inspect_entry j @ out, e)))"

definition inspect_cmd ::
  "'f call_env \<Rightarrow> 'e option \<Rightarrow> 'e option \<Rightarrow> (nat \<Rightarrow> 'e option) \<Rightarrow> 64 word \<Rightarrow> 'f server \<Rightarrow>
   (string \<times> 'e cmd_error option \<times> 'f server) outcome" where
  "inspect_cmd E dialed opened wr num s =
     (case new_client dialed of
        (Some e, c) \<Rightarrow> Done ([], Some (Dial_Failed e), s)
      | (None, c) \<Rightarrow>
          (case opened of
             Some e \<Rightarrow> Done ([], Some (Output_Failed e), s)
           | None \<Rightarrow>
               map_outcome (\<lambda>(e, jobs, s1).
                   case e of
                     Some e \<Rightarrow> ([], Some (Call_Failed e), s1)
                   | None \<Rightarrow> (let (out, e) = inspect_write wr 0 jobs in (out, map_option Output_Failed e, s1)))
                 (client_inspect_n E num [] c s)))"

text \<open>The build info, as \<open>SetBuildInfo\<close> leaves it: version, date and commit.\<close>

record build_info =
  bi_version :: string
  bi_date :: string
  bi_commit :: string

definition set_build_info :: "string \<Rightarrow> string \<Rightarrow> string \<Rightarrow> build_info" where
  "set_build_info version date commit = \<lparr>bi_version = version, bi_date = date, bi_commit = commit\<rparr>"

definition version_cmd :: "build_info \<Rightarrow> string" where
  "version_cmd bi =
     ''Version: '' @ bi_version bi @ newline @ ''Commit: '' @ bi_commit bi @ newline @
     ''Build Date: '' @ bi_date bi @ newline"

text \<open>\<open>Execute\<close>: the exit status; the commands with \<open>Run\<close> never return an error.\<close>

definition exit_status :: "'e cmd_error option \<Rightarrow> nat" where
  "exit_status e = (if e = None then 0 else 1)"

section \<open>The JSON form of a job\<close>

text \<open>
  A byte that is not UTF-8 becomes the replacement character, whatever it was: with \<open>--json\<close>
  the bodies of two jobs can print the same, and \<open>next\<close> has taken the job out of the hub.
\<close>

lemma json_replaces_bytes:
  assumes "utf8_front (x # bs) = 0" and "utf8_front (y # bs) = 0"
  shows "next_output True jid (x # bs) = next_output True jid (y # bs)"
proof -
  have "json_chars (z # bs) = bytes_of (CHR 0x5C # ''ufffd'') @ json_chars bs" if "utf8_front (z # bs) = 0" for z
    using that by (subst json_chars.simps) (simp add: Let_def)
  then show ?thesis using assms by (simp add: next_output_def json_string_def)
qed

lemma json_replaces_bytes_example: "next_output True jid [0xFF] = next_output True jid [0xFE]"
  by (rule json_replaces_bytes; code_simp)

text \<open>A reader of what \<open>next --json\<close> prints: the id and the body.\<close>

definition strip_prefix :: "bytes \<Rightarrow> bytes \<Rightarrow> bytes option" where
  "strip_prefix p bs = (if take (length p) bs = p then Some (drop (length p) bs) else None)"

definition read_next_json :: "string \<Rightarrow> (string \<times> bytes) option" where
  "read_next_json out =
     (case strip_prefix (bytes_of ''{\"ID\":\"'') (bytes_of out) of
        None \<Rightarrow> None
      | Some r \<Rightarrow>
          (case json_read r of
             None \<Rightarrow> None
           | Some (i, r1) \<Rightarrow>
               (case strip_prefix (bytes_of '',\"Body\":\"'') r1 of
                  None \<Rightarrow> None
                | Some r2 \<Rightarrow>
                    (case json_read r2 of
                       None \<Rightarrow> None
                     | Some (b, r3) \<Rightarrow> if r3 = bytes_of ''}'' then Some (string_of i, b) else None))))"

lemma bytes_of_append [simp]: "bytes_of (s @ t) = bytes_of s @ bytes_of t"
  by (simp add: bytes_of_def)

lemma bytes_of_string_of: "bytes_of (string_of b) = b"
proof -
  have "(of_char (char_of (unat w) :: char) :: 8 word) = w" for w :: "8 word"
  proof -
    have "unat w < 256" using unsigned_less [of w] by simp
    then have "(of_char (char_of (unat w) :: char) :: nat) = unat w" by simp
    moreover have "(of_char (char_of (unat w) :: char) :: 8 word) = word_of_nat (of_char (char_of (unat w) :: char))"
      by (simp only: of_nat_of_char)
    ultimately show ?thesis by simp
  qed
  then show ?thesis by (simp add: bytes_of_def string_of_def comp_def)
qed

lemma strip_prefix_append [simp]: "strip_prefix p (p @ r) = Some r"
  by (simp add: strip_prefix_def)

lemma json_read_string: "utf8_valid b \<Longrightarrow> json_read (json_chars b @ 0x22 # r) = Some (b, r)"
proof -
  have "json_read (0x22 # r) = Some ([], r)" by (subst json_read.simps) simp
  then show "utf8_valid b \<Longrightarrow> ?thesis" by (simp add: json_read_chars)
qed

lemma next_json_bytes:
  "bytes_of (next_output True jid b) = bytes_of ''{\"ID\":\"'' @ json_chars (bytes_of jid) @
     0x22 # (bytes_of '',\"Body\":\"'' @ json_chars b @ 0x22 # bytes_of ''}'')"
proof -
  have k: "json_string (bytes_of ''ID'') = ''\"ID\"''" "json_string (bytes_of ''Body'') = ''\"Body\"''" by code_simp+
  have q: "bytes_of ''\"'' = [0x22]" by code_simp
  have "next_output True jid b = ''{\"ID\":\"'' @ string_of (json_chars (bytes_of jid)) @ ''\"'' @
      '',\"Body\":\"'' @ string_of (json_chars b) @ ''\"'' @ ''}''"
    unfolding next_output_def k by (simp add: json_string_def)
  then have "bytes_of (next_output True jid b) = bytes_of (''{\"ID\":\"'' @ string_of (json_chars (bytes_of jid)) @ ''\"'' @
      '',\"Body\":\"'' @ string_of (json_chars b) @ ''\"'' @ ''}'')" by (rule arg_cong)
  then show ?thesis unfolding bytes_of_append bytes_of_string_of q by simp
qed

section \<open>Properties\<close>

text \<open>
  C14: What \<open>put\<close> has taken, \<open>next\<close> prints: after a \<open>put\<close> without an error into a
  server with an empty hub, which prints the id, there is an instant from which on a \<open>next\<close>
  with a timeout for enough polls prints that id and exactly the payload, from the flag or
  from the standard input, and leaves the hub empty.
\<close>

theorem put_then_next:
  assumes "srv_ok leak s" and "hub_jobs (srv_hub s) = {#}"
    and "put_cmd E (None :: 'e option) stdin args s = Done (out, None, args', s')"
    and "(if bv_is_set (pa_payload args) then Inr (bv_buf (pa_payload args)) else stdin) = Inr b"
    and "leak + unat (size_of (fst (put_job (pa_id args) (t_add (ce_now1 E) (pa_delay args)) b s))) \<le> 2 ^ 40"
  shows "out = pa_id args' @ newline \<and>
    (\<exists>t0 n. \<forall>E' timeout json. polls_late E' t0 n timeout \<longrightarrow>
      (\<exists>s''. next_cmd E' None \<lparr>na_timeout = timeout, na_json = json\<rparr> s' =
          Some (Done (next_output json (pa_id args') b, None :: 'e cmd_error option, s'')) \<and>
        hub_jobs (srv_hub s'') = {#}))"
proof -
  let ?c = "\<lparr>cl_conn = Some Conn_Open\<rparr>"
    and ?aj = "\<lparr>aj_body = b, aj_id = pa_id args, aj_delay = pa_delay args\<rparr>"
  obtain j s1 where j: "put_job (pa_id args) (t_add (ce_now1 E) (pa_delay args)) b s = (j, s1)" by fastforce
  have b: "body j = b" and i: "pa_id args \<noteq> [] \<Longrightarrow> job_id j = pa_id args"
    using j by (auto simp: put_job_def new_job_auto_id_def new_job_def Let_def split: if_splits prod.splits)
  have small: "usage (hub_jobs (srv_hub s)) + leak + unat (size_of j) \<le> 2 ^ 40" using assms(2,5) j by simp
  have conn: "new_client (None :: 'e option) = (None, ?c)" by (simp add: new_client_def client_connect_def)
  have eq: "put_cmd E (None :: 'e option) stdin args s =
      map_outcome (\<lambda>(e, r, s1).
          (if e = None then (if pa_id args = [] then r else pa_id args) @ newline else [], map_option Call_Failed e,
           if pa_id args = [] then args\<lparr>pa_id := r\<rparr> else args, s1))
        (put_call E ?aj Conn_Open (pa_id args) s)"
    unfolding put_cmd_def conn assms(4)
    by (cases "put_call E ?aj Conn_Open (pa_id args) s")
      (auto simp: client_put_with_id_def client_put_def split: prod.splits)
  obtain r where put: "put_call E ?aj Conn_Open (pa_id args) s = Done (None, r, s')"
    "out = pa_id args' @ newline" "pa_id args' = (if pa_id args = [] then r else pa_id args)"
    using assms(3) unfolding eq
    by (cases "put_call E ?aj Conn_Open (pa_id args) s") (auto split: if_splits)
  have f: "mm_fence_open (srv_mem s)" using put(1) put_call_blocked [of s E ?aj "pa_id args"] by auto
  have s': "srv_ok leak s'" "hub_jobs (srv_hub s') = {#j#}" "pa_id args' = job_id j"
    by (cases rule: put_call_cases [OF assms(1) f, of ?aj E j s1 "pa_id args"];
        use j small put assms(2) i in auto)+
  then have "hub_wf (srv_hub s')" by (simp add: srv_ok_def hub_good_def)
  from hub_due_eventually [OF this] obtain t0 where t0: "\<forall>now\<ge>t0. hub_due now (srv_hub s')" by blast
  have "\<exists>s''. next_cmd E' None \<lparr>na_timeout = timeout, na_json = json\<rparr> s' =
        Some (Done (next_output json (pa_id args') b, None :: 'e cmd_error option, s'')) \<and>
      hub_jobs (srv_hub s'') = {#}"
    if "polls_late E' t0 (size (waiting (srv_hub s'))) timeout" for E' timeout json
    using client_next_late [OF s'(1) t0 _ that] s'(2,3) b conn by (auto simp: next_cmd_def late_result_def)
  with put(2) show ?thesis by blast
qed

text \<open>A payload from the standard input, and no id: the server gives the first generated one.\<close>

theorem put_then_next_witness:
  "\<exists>args' s' E' s''. put_cmd demo_call (None :: string option) (Inr (bytes_of ''x''))
       \<lparr>pa_id = [], pa_payload = \<lparr>bv_buf = [], bv_is_set = False\<rparr>, pa_delay = 5\<rparr>
       (new_server (new_hub (new_filter 4, 0) 10 0 0) 1000) = Done (''1'' @ newline, None, args', s') \<and>
     next_cmd E' (None :: string option) \<lparr>na_timeout = 1, na_json = False\<rparr> s' =
       Some (Done (''ID: 1'' @ newline @ ''BODY: x'', None :: string cmd_error option, s'')) \<and>
     hub_jobs (srv_hub s'') = {#}"
proof -
  let ?s = "new_server (new_hub (new_filter 4, 0 :: nat) 10 0 0) 1000"
    and ?args = "\<lparr>pa_id = [], pa_payload = \<lparr>bv_buf = [], bv_is_set = False\<rparr>, pa_delay = 5\<rparr>"
  have "(case put_cmd demo_call (None :: string option) (Inr (bytes_of ''x'')) ?args ?s of
      Done (out, e, args', s') \<Rightarrow> Some (out, e, pa_id args') | _ \<Rightarrow> None) = Some (''1'' @ newline, None, ''1'')"
    by code_simp
  then obtain args' s' where put: "put_cmd demo_call (None :: string option) (Inr (bytes_of ''x'')) ?args ?s =
      Done (''1'' @ newline, None, args', s')" "pa_id args' = ''1''"
    by (cases "put_cmd demo_call (None :: string option) (Inr (bytes_of ''x'')) ?args ?s") auto
  have e: "hub_jobs (srv_hub ?s) = {#}" by (simp add: new_server_def new_hub_jobs)
  have b: "(if bv_is_set (pa_payload ?args) then Inr (bv_buf (pa_payload ?args)) else Inr (bytes_of ''x'')) =
      (Inr (bytes_of ''x'') :: string + bytes)" by simp
  have "unat (size_of (fst (put_job (pa_id ?args) (t_add (ce_now1 demo_call) (pa_delay ?args)) (bytes_of ''x'') ?s))) = 82"
    by code_simp
  then have z: "0 + unat (size_of (fst (put_job (pa_id ?args) (t_add (ce_now1 demo_call) (pa_delay ?args))
      (bytes_of ''x'') ?s))) \<le> 2 ^ 40" by simp
  obtain t0 n where t0: "\<And>E' timeout json. polls_late E' t0 n timeout \<Longrightarrow>
      \<exists>s''. next_cmd E' None \<lparr>na_timeout = timeout, na_json = json\<rparr> s' =
        Some (Done (next_output json (pa_id args') (bytes_of ''x''), None :: string cmd_error option, s'')) \<and>
        hub_jobs (srv_hub s'') = {#}"
    using put_then_next [OF new_server_ok e put(1) b z] by blast
  let ?E = "demo_call\<lparr>ce_clk := \<lambda>_. t0, ce_clks := \<lambda>_ _. t0, ce_fuel := n, ce_now1 := 0, ce_nows := \<lambda>_. 0\<rparr>"
  have "polls_late ?E t0 n 1" by (auto simp: polls_late_def demo_call_def t_add_def)
  from t0 [OF this, of False] put show ?thesis
    by (auto simp: next_output_def)
qed

text \<open>
  C15: What \<open>next --json\<close> prints can be read back: if the id and the body are UTF-8, a reader of
  JSON gets exactly the id and the body of the job, whatever characters they hold.
\<close>

theorem json_output_read_back:
  assumes "utf8_valid (bytes_of jid)" and "utf8_valid b"
  shows "read_next_json (next_output True jid b) = Some (jid, b)"
  unfolding read_next_json_def next_json_bytes by (simp add: json_read_string assms)

text \<open>A quote in the id; a line break, an accented letter, a separator and a null byte in the body.\<close>

theorem json_output_read_back_witness:
  "read_next_json (next_output True ''a\"b'' [0x0A, 0xC3, 0xA9, 0xE2, 0x80, 0xA8, 0x00]) =
     Some (''a\"b'', [0x0A, 0xC3, 0xA9, 0xE2, 0x80, 0xA8, 0x00])"
  by (rule json_output_read_back; code_simp)

end
