(* ===== verification/Loadtest.thy ===== *)
theory Loadtest
  imports Mem_Monitor
begin

text \<open>
  \<open>cmd/loadtest.go\<close>: the jobs that the load test enqueues, and the checks it makes on the
  jobs it dequeues. A call of \<open>log.Fatal\<close>, which ends the process, is a verdict; the
  random source is a tape of numbers.
\<close>

section \<open>Numbers in decimal\<close>

text \<open>\<open>strconv.FormatInt(i, 10)\<close> and \<open>strconv.ParseInt(s, 10, 64)\<close>\<close>

definition format_int :: "64 word \<Rightarrow> string" where
  "format_int i =
     (if sint i < 0 then char_of (45 :: nat) # sprintf_d (nat (- sint i)) else sprintf_d (nat (sint i)))"

definition parse_int :: "string \<Rightarrow> 64 word option" where
  "parse_int s =
     (case s of
        [] \<Rightarrow> None
      | c # cs \<Rightarrow>
          (let neg = (of_char c = (45 :: nat)); sign = neg \<or> of_char c = (43 :: nat);
               ds = (if sign then cs else s)
           in if ds = [] then None
              else case parse_digits 0 ds of
                None \<Rightarrow> None
              | Some n \<Rightarrow>
                  (if neg then (if n \<le> 2 ^ 63 then Some (- word_of_nat n) else None)
                   else if n < 2 ^ 63 then Some (word_of_nat n) else None)))"

section \<open>Generating jobs\<close>

text \<open>\<open>bytes.Split(b, []byte{sep})\<close>\<close>

fun split_on :: "8 word \<Rightarrow> bytes \<Rightarrow> bytes list" where
  "split_on sep [] = [[]]"
| "split_on sep (b # bs) =
     (if b = sep then [] # split_on sep bs
      else case split_on sep bs of [] \<Rightarrow> [[b]] | p # ps \<Rightarrow> (b # p) # ps)"

definition space :: "8 word" where
  "space = 32"

definition letter_bytes :: bytes where
  "letter_bytes = bytes_of ''abcdefghijklmnopqrstuvwxyzABCDEFGHIJKLMNOPQRSTUVWXYZ''"

definition rand_string_bytes :: "(nat \<Rightarrow> nat) \<Rightarrow> nat \<Rightarrow> bytes" where
  "rand_string_bytes tape n = map (\<lambda>i. letter_bytes ! (tape i mod length letter_bytes)) [0..<n]"

record test_job =
  tj_id :: string
  tj_data :: bytes
  tj_delay_sec :: int

text \<open>
  \<open>rand.Intn(n)\<close> panics unless \<open>n\<close> is positive, so \<open>None\<close> here is the panic that
  equal bounds of the delay lead to.
\<close>

definition generate_job ::
  "bool \<Rightarrow> int \<Rightarrow> int \<Rightarrow> bytes \<Rightarrow> (nat \<Rightarrow> nat) \<Rightarrow> (nat \<Rightarrow> instant) \<Rightarrow> nat \<Rightarrow> test_job option" where
  "generate_job tolerance min_delay max_delay data tape nows i =
     (if max_delay - min_delay \<le> 0 then None
      else let delay = int (tape i) mod (max_delay - min_delay) + min_delay;
               trigger = t_add (nows i) (second * word_of_int delay);
               b = bytes_of (format_int (unix_nano trigger) @ '' '')
           in Some \<lparr>tj_id = sprintf_d i, tj_data = (if tolerance then b @ data else data),
                    tj_delay_sec = delay\<rparr>)"

section \<open>Checking jobs\<close>

datatype verdict = Valid | Bad_Delay | Out_Of_Order | Wrong_Body

text \<open>
  \<open>prevTriggerAt\<close> is a parameter of the function: the assignment to it at the end of the
  check has no effect outside.
\<close>

definition validate_job :: "bool \<Rightarrow> 64 word \<Rightarrow> bytes \<Rightarrow> bytes \<Rightarrow> 64 word \<Rightarrow> verdict" where
  "validate_job tolerance ns_tolerance test_data b prev =
     (let parts = split_on space b;
          b1 = (if length parts = 2 then parts ! 1 else b);
          content = (if b1 = test_data then Valid else Wrong_Body)
      in if tolerance
         then (case parse_int (string_of (parts ! 0)) of
                 None \<Rightarrow> Bad_Delay
               | Some trigger \<Rightarrow>
                   (if t_before (time_unix0 trigger) (time_unix0 prev) \<and>
                       sint ns_tolerance \<le> sint (prev - trigger)
                    then Out_Of_Order else content))
         else content)"

text \<open>
  The loop of \<open>dequeueRPC\<close> over the answers of \<open>rpcClient.Next\<close>; \<open>cancel_ok\<close> says for
  which ids \<open>rpcClient.Cancel\<close> answers without an error. A timeout is skipped, and every other
  failure is fatal. The loop runs until the process ends: \<open>Dequeuing\<close> stands for the loop
  waiting for an answer beyond the list. The number counts what was sent to \<open>deqJobs\<close>.
  \<open>prevTriggerAt\<close> is never assigned.
\<close>

datatype next_answer = Answer_Timeout | Answer_Error | Answer_Job string bytes

datatype dequeue_state = Dequeuing | Fatal_Next | Fatal_Cancel | Fatal_Check verdict

fun dequeue_loop ::
  "bool \<Rightarrow> 64 word \<Rightarrow> bytes \<Rightarrow> (string \<Rightarrow> bool) \<Rightarrow> 64 word \<Rightarrow> nat \<Rightarrow> next_answer list \<Rightarrow> dequeue_state \<times> nat" where
  "dequeue_loop tolerance ns_tolerance data cancel_ok prev n [] = (Dequeuing, n)"
| "dequeue_loop tolerance ns_tolerance data cancel_ok prev n (a # as) =
     (case a of
        Answer_Timeout \<Rightarrow> dequeue_loop tolerance ns_tolerance data cancel_ok prev n as
      | Answer_Error \<Rightarrow> (Fatal_Next, n)
      | Answer_Job jid b \<Rightarrow>
          (if \<not> cancel_ok jid then (Fatal_Cancel, n)
           else case validate_job tolerance ns_tolerance data b prev of
             Valid \<Rightarrow> dequeue_loop tolerance ns_tolerance data cancel_ok prev (Suc n) as
           | bad \<Rightarrow> (Fatal_Check bad, n)))"

definition dequeue_rpc ::
  "bool \<Rightarrow> 64 word \<Rightarrow> bytes \<Rightarrow> (string \<Rightarrow> bool) \<Rightarrow> next_answer list \<Rightarrow> dequeue_state \<times> nat" where
  "dequeue_rpc tolerance ns_tolerance data cancel_ok as =
     dequeue_loop tolerance ns_tolerance data cancel_ok 0 0 as"

section \<open>Facts\<close>

lemma of_digit: "of_char (digit_char d) = ((48 + d) mod 256 :: nat)"
  by (simp add: digit_char_def)

lemma sprintf_d_digits: "c \<in> set (sprintf_d n) \<Longrightarrow> 48 \<le> (of_char c :: nat) \<and> (of_char c :: nat) \<le> 57"
proof (induction n rule: sprintf_d.induct)
  case (1 n)
  show ?case
  proof (cases "n < 10")
    case True
    then show ?thesis using 1(2) by (subst (asm) sprintf_d.simps) (simp add: of_digit)
  next
    case False
    then show ?thesis using 1 by (subst (asm) (2) sprintf_d.simps) (auto simp: of_digit)
  qed
qed

lemma parse_format_int: "parse_int (format_int i) = Some i"
proof (cases "sint i < 0")
  case True
  have le: "nat (- sint i) \<le> 2 ^ 63" using sint_greater_eq [of i] by simp
  have "- word_of_nat (nat (- sint i)) = i" using True by simp
  with True le show ?thesis
    by (simp add: format_int_def parse_int_def sprintf_d_nonempty parse_sprintf)
next
  case False
  obtain c cs where c: "sprintf_d (nat (sint i)) = c # cs" using sprintf_d_nonempty by (metis list.exhaust)
  then have "48 \<le> (of_char c :: nat)" using sprintf_d_digits [of c "nat (sint i)"] by simp
  moreover have "nat (sint i) < 2 ^ 63" using False sint_less [of i] by simp
  moreover have "word_of_nat (nat (sint i)) = i" using False by simp
  ultimately show ?thesis
    using False c parse_sprintf [of "nat (sint i)"] by (auto simp: format_int_def parse_int_def)
qed

lemma split_on_clean: "sep \<notin> set bs \<Longrightarrow> split_on sep bs = [bs]"
  by (induction bs) auto

lemma split_on_once: "sep \<notin> set xs \<Longrightarrow> sep \<notin> set ys \<Longrightarrow> split_on sep (xs @ sep # ys) = [xs, ys]"
  by (induction xs) (auto simp: split_on_clean)

lemma bytes_of_space: "space \<in> set (bytes_of s) \<longleftrightarrow> CHR 0x20 \<in> set s"
proof -
  have "(of_char c :: 8 word) = space \<longleftrightarrow> c = CHR 0x20" for c
  proof
    assume "(of_char c :: 8 word) = space"
    then have "c = char_of (unat space)" by (metis char_of_byte)
    also have "\<dots> = CHR 0x20" by code_simp
    finally show "c = CHR 0x20" .
  next
    have "(of_char (CHR 0x20) :: 8 word) = space" by code_simp
    then show "c = CHR 0x20 \<Longrightarrow> (of_char c :: 8 word) = space" by simp
  qed
  then show ?thesis by (auto simp: bytes_of_def image_iff eq_commute [of space])
qed

lemma format_int_no_space: "space \<notin> set (bytes_of (format_int i))"
proof -
  have "CHR 0x20 \<notin> set (sprintf_d n)" for n
    using sprintf_d_digits [of "CHR 0x20" n] by auto
  moreover have "CHR 0x20 \<noteq> char_of (45 :: nat)" by code_simp
  ultimately show ?thesis by (auto simp: bytes_of_space format_int_def)
qed

lemma rand_string_no_space: "space \<notin> set (rand_string_bytes tape n)"
proof -
  have "space \<notin> set letter_bytes" by code_simp
  moreover have "set (rand_string_bytes tape n) \<subseteq> set letter_bytes"
    by (auto simp: rand_string_bytes_def letter_bytes_def intro!: nth_mem)
  ultimately show ?thesis by blast
qed

text \<open>An answer that hands out a job of the load test, with a trigger time after 1970.\<close>

definition own_answer :: "bytes \<Rightarrow> (string \<Rightarrow> bool) \<Rightarrow> next_answer \<Rightarrow> bool" where
  "own_answer data cancel_ok a \<longleftrightarrow>
     (case a of
        Answer_Timeout \<Rightarrow> True
      | Answer_Error \<Rightarrow> False
      | Answer_Job jid b \<Rightarrow> cancel_ok jid \<and> (\<exists>t. 0 \<le> sint t \<and> b = bytes_of (format_int t @ '' '') @ data))"

fun answer_is_job :: "next_answer \<Rightarrow> bool" where
  "answer_is_job (Answer_Job jid b) = True"
| "answer_is_job a = False"

lemma validate_own_body:
  assumes "0 \<le> sint t" and "space \<notin> set data"
  shows "validate_job True tol data (bytes_of (format_int t @ '' '') @ data) 0 = Valid"
proof -
  have "of_char CHR 0x20 = space" by code_simp
  then have "bytes_of (format_int t @ '' '') @ data = bytes_of (format_int t) @ space # data"
    by (simp add: bytes_of_def)
  moreover have "split_on space (bytes_of (format_int t) @ space # data) = [bytes_of (format_int t), data]"
    by (rule split_on_once [OF format_int_no_space assms(2)])
  ultimately show ?thesis
    using assms(1) by (simp add: validate_job_def Let_def parse_format_int time_unix0_def t_before_def)
qed

lemma dequeue_loop_own:
  assumes "space \<notin> set data" and "\<forall>a \<in> set as. own_answer data cancel_ok a"
  shows "dequeue_loop True tol data cancel_ok 0 n as = (Dequeuing, n + length (filter answer_is_job as))"
  using assms(2)
proof (induction as arbitrary: n)
  case (Cons a as)
  then show ?case
    by (cases a) (auto simp: own_answer_def validate_own_body [OF _ assms(1)])
qed simp

section \<open>Properties\<close>

text \<open>
  C39: The order check of the load test never fires: the bodies it generates, for trigger
  times after 1970, are all found valid in whatever order they arrive, so the loop goes on
  and counts every one of them.
\<close>

theorem loadtest_ignores_order:
  assumes "\<forall>a \<in> set as. own_answer (rand_string_bytes tape n) cancel_ok a"
  shows "dequeue_rpc True tol (rand_string_bytes tape n) cancel_ok as =
    (Dequeuing, length (filter answer_is_job as))"
  by (simp add: dequeue_rpc_def dequeue_loop_own [OF rand_string_no_space assms])

text \<open>The later job first, far outside the tolerance of 1000 nanoseconds.\<close>

theorem loadtest_ignores_order_witness:
  "dequeue_rpc True 1000 (rand_string_bytes id 3) (\<lambda>_. True)
     [Answer_Job ''1'' (bytes_of (format_int 9000000 @ '' '') @ rand_string_bytes id 3), Answer_Timeout,
      Answer_Job ''0'' (bytes_of (format_int 5 @ '' '') @ rand_string_bytes id 3)] = (Dequeuing, 2)"
proof -
  let ?as = "[Answer_Job ''1'' (bytes_of (format_int 9000000 @ '' '') @ rand_string_bytes id 3),
    Answer_Timeout, Answer_Job ''0'' (bytes_of (format_int 5 @ '' '') @ rand_string_bytes id 3)]"
  have p: "0 \<le> sint (9000000 :: 64 word)" "0 \<le> sint (5 :: 64 word)" by simp_all
  then have "\<forall>a \<in> set ?as. own_answer (rand_string_bytes id 3) (\<lambda>_. True) a"
    by (auto simp: own_answer_def intro: exI [of _ "9000000 :: 64 word"] exI [of _ "5 :: 64 word"])
  from loadtest_ignores_order [OF this, of 1000] show ?thesis by simp
qed

end
