(* ===== verification/Loadtest_Run.thy ===== *)
theory Loadtest_Run
  imports Client_Drain Loadtest
begin

text \<open>
  The whole of \<open>runLoadTest\<close> (\<open>cmd/loadtest.go\<close>): the goroutine that generates the jobs, the
  workers that enqueue and dequeue over their connections, the sink that counts, and the main
  function that waits for them, as a step relation. A channel is the list of what it holds or
  a number of tokens, a wait group is what its workers have done. The server the workers talk
  to is the RPC server behind the client.
\<close>

section \<open>Configuration and state\<close>

record load_config =
  lc_jobs :: int
  lc_connections :: int
  lc_enqueue :: bool
  lc_dequeue :: bool
  lc_tolerance :: bool
  lc_ns_tolerance :: "64 word"
  lc_min_delay :: int
  lc_max_delay :: int
  lc_data :: bytes
  lc_tape :: "nat \<Rightarrow> nat"
  lc_nows :: "nat \<Rightarrow> instant"

text \<open>With \<open>jobs\<close> at zero both modes are turned off.\<close>

definition enqueue_mode :: "load_config \<Rightarrow> bool" where
  "enqueue_mode c \<longleftrightarrow> lc_enqueue c \<and> lc_jobs c \<noteq> 0"

definition dequeue_mode :: "load_config \<Rightarrow> bool" where
  "dequeue_mode c \<longleftrightarrow> lc_dequeue c \<and> lc_jobs c \<noteq> 0"

text \<open>The connections, by their numbers: the loops run while \<open>c < connections\<close>.\<close>

definition workers :: "load_config \<Rightarrow> nat" where
  "workers c = nat (lc_connections c)"

definition load_job :: "load_config \<Rightarrow> nat \<Rightarrow> test_job option" where
  "load_job c i =
     generate_job (lc_tolerance c) (lc_min_delay c) (lc_max_delay c) (lc_data c) (lc_tape c) (lc_nows c) i"

datatype main_pc = Wait_Enqueue | Wait_Dequeue | Returned | Fatal

datatype enq_pc = Enq_Take | Enq_Put test_job | Enq_Exit

datatype deq_pc = Deq_Next | Deq_Cancel string bytes | Deq_Send

datatype sink_pc = Sink_Count | Sink_Stop nat

text \<open>
  \<open>lt_put\<close> and \<open>lt_count\<close> grow with the jobs that the server has accepted and that the sink has
  counted; \<open>lt_stopped\<close> says which dequeueing workers have left their wait group.
\<close>

record 'f loadtest =
  lt_main :: main_pc
  lt_gen :: nat
  lt_closed :: bool
  lt_queue :: "test_job list"
  lt_enq :: "nat \<Rightarrow> enq_pc"
  lt_put :: "test_job list"
  lt_deq :: "nat \<Rightarrow> deq_pc"
  lt_stopped :: "nat \<Rightarrow> bool"
  lt_tokens :: nat
  lt_sink :: sink_pc
  lt_count :: nat
  lt_server :: "'f server"

definition load_start :: "'f server \<Rightarrow> 'f loadtest" where
  "load_start s =
     \<lparr>lt_main = Wait_Enqueue, lt_gen = 0, lt_closed = False, lt_queue = [], lt_enq = \<lambda>_. Enq_Take, lt_put = [],
      lt_deq = \<lambda>_. Deq_Next, lt_stopped = \<lambda>_. False, lt_tokens = 0, lt_sink = Sink_Count, lt_count = 0,
      lt_server = s\<rparr>"

section \<open>Calls of the workers\<close>

definition load_client :: client where
  "load_client = \<lparr>cl_conn = Some Conn_Open\<rparr>"

text \<open>The call of an enqueueing worker for one job.\<close>

definition enqueue_one ::
  "'f call_env \<Rightarrow> test_job \<Rightarrow> 'f server \<Rightarrow> (client_error option \<times> 'f server) outcome" where
  "enqueue_one E j s =
     client_put_with_id E (tj_id j) (tj_data j) (second * word_of_int (tj_delay_sec j)) load_client s"

text \<open>
  The calls of a dequeueing worker: \<open>Next\<close>, whose timeout is told from other errors by its
  text, then \<open>Cancel\<close> and the check of the body. \<open>None\<close> is the end of the process.
\<close>

definition dequeue_next ::
  "'f call_env \<Rightarrow> 'f server \<Rightarrow> (deq_pc option \<times> 'f server) outcome option" where
  "dequeue_next E s =
     map_option (map_outcome (\<lambda>(jid, b, e, s1).
       (case e of
          None \<Rightarrow> Some (Deq_Cancel jid b)
        | Some e \<Rightarrow> if e = Server_Error err_timeout then Some Deq_Next else None, s1)))
       (client_next E second load_client s)"

definition dequeue_check ::
  "load_config \<Rightarrow> 'f call_env \<Rightarrow> string \<Rightarrow> bytes \<Rightarrow> 'f server \<Rightarrow> (deq_pc option \<times> 'f server) outcome" where
  "dequeue_check c E jid b s =
     map_outcome (\<lambda>(e, s1).
       (if e = None \<and> validate_job (lc_tolerance c) (lc_ns_tolerance c) (lc_data c) b 0 = Valid
        then Some Deq_Send else None, s1))
       (client_cancel E jid load_client s)"

section \<open>Steps\<close>

definition running :: "'f loadtest \<Rightarrow> bool" where
  "running s \<longleftrightarrow> lt_main s = Wait_Enqueue \<or> lt_main s = Wait_Dequeue"

text \<open>
  The channel of jobs has a place per connection. A worker that takes from the closed, empty
  channel leaves. \<open>deqJobs\<close> has no place: a worker hands its signal over to the counting
  sink. At the last job the sink sends a stop token per connection, and then counts on. \<open>E\<close>
  holds what a call of the step reads of the clock and what other handlers do meanwhile.
\<close>

inductive load_step :: "load_config \<Rightarrow> 'f call_env \<Rightarrow> 'f loadtest \<Rightarrow> 'f loadtest \<Rightarrow> bool" for c E where
  generate: "running s \<Longrightarrow> enqueue_mode c \<Longrightarrow> int (lt_gen s) < lc_jobs c \<Longrightarrow> load_job c (lt_gen s) = Some j \<Longrightarrow>
    length (lt_queue s) < workers c \<Longrightarrow>
    load_step c E s (s\<lparr>lt_queue := lt_queue s @ [j], lt_gen := Suc (lt_gen s)\<rparr>)"
| generate_panic: "running s \<Longrightarrow> enqueue_mode c \<Longrightarrow> int (lt_gen s) < lc_jobs c \<Longrightarrow> load_job c (lt_gen s) = None \<Longrightarrow>
    load_step c E s (s\<lparr>lt_main := Fatal\<rparr>)"
| close_jobs: "running s \<Longrightarrow> enqueue_mode c \<Longrightarrow> lc_jobs c \<le> int (lt_gen s) \<Longrightarrow> \<not> lt_closed s \<Longrightarrow>
    load_step c E s (s\<lparr>lt_closed := True\<rparr>)"
| take_job: "running s \<Longrightarrow> enqueue_mode c \<Longrightarrow> w < workers c \<Longrightarrow> lt_enq s w = Enq_Take \<Longrightarrow> lt_queue s = j # js \<Longrightarrow>
    load_step c E s (s\<lparr>lt_enq := (lt_enq s)(w := Enq_Put j), lt_queue := js\<rparr>)"
| put_job: "running s \<Longrightarrow> w < workers c \<Longrightarrow> lt_enq s w = Enq_Put j \<Longrightarrow>
    enqueue_one E j (lt_server s) = Done (None, s1) \<Longrightarrow>
    load_step c E s (s\<lparr>lt_enq := (lt_enq s)(w := Enq_Take), lt_put := lt_put s @ [j], lt_server := s1\<rparr>)"
| put_fatal: "running s \<Longrightarrow> w < workers c \<Longrightarrow> lt_enq s w = Enq_Put j \<Longrightarrow>
    enqueue_one E j (lt_server s) = Done (Some e, s1) \<Longrightarrow>
    load_step c E s (s\<lparr>lt_main := Fatal, lt_server := s1\<rparr>)"
| enq_exit: "running s \<Longrightarrow> enqueue_mode c \<Longrightarrow> w < workers c \<Longrightarrow> lt_enq s w = Enq_Take \<Longrightarrow> lt_queue s = [] \<Longrightarrow>
    lt_closed s \<Longrightarrow> load_step c E s (s\<lparr>lt_enq := (lt_enq s)(w := Enq_Exit)\<rparr>)"
| next_job: "running s \<Longrightarrow> dequeue_mode c \<Longrightarrow> w < workers c \<Longrightarrow> lt_deq s w = Deq_Next \<Longrightarrow>
    dequeue_next E (lt_server s) = Some (Done (Some pc, s1)) \<Longrightarrow>
    load_step c E s (s\<lparr>lt_deq := (lt_deq s)(w := pc), lt_server := s1\<rparr>)"
| next_fatal: "running s \<Longrightarrow> dequeue_mode c \<Longrightarrow> w < workers c \<Longrightarrow> lt_deq s w = Deq_Next \<Longrightarrow>
    dequeue_next E (lt_server s) = Some (Done (None, s1)) \<Longrightarrow>
    load_step c E s (s\<lparr>lt_main := Fatal, lt_server := s1\<rparr>)"
| check_job: "running s \<Longrightarrow> w < workers c \<Longrightarrow> lt_deq s w = Deq_Cancel jid b \<Longrightarrow>
    dequeue_check c E jid b (lt_server s) = Done (Some pc, s1) \<Longrightarrow>
    load_step c E s (s\<lparr>lt_deq := (lt_deq s)(w := pc), lt_server := s1\<rparr>)"
| check_fatal: "running s \<Longrightarrow> w < workers c \<Longrightarrow> lt_deq s w = Deq_Cancel jid b \<Longrightarrow>
    dequeue_check c E jid b (lt_server s) = Done (None, s1) \<Longrightarrow>
    load_step c E s (s\<lparr>lt_main := Fatal, lt_server := s1\<rparr>)"
| count_job: "running s \<Longrightarrow> w < workers c \<Longrightarrow> lt_deq s w = Deq_Send \<Longrightarrow> lt_sink s = Sink_Count \<Longrightarrow>
    load_step c E s (s\<lparr>lt_deq := (lt_deq s)(w := Deq_Next), lt_count := Suc (lt_count s),
      lt_sink := if int (Suc (lt_count s)) = lc_jobs c then Sink_Stop (workers c) else Sink_Count\<rparr>)"
| send_stop: "running s \<Longrightarrow> lt_sink s = Sink_Stop (Suc n) \<Longrightarrow> lt_tokens s < workers c \<Longrightarrow>
    load_step c E s (s\<lparr>lt_sink := Sink_Stop n, lt_tokens := Suc (lt_tokens s)\<rparr>)"
| stops_sent: "running s \<Longrightarrow> lt_sink s = Sink_Stop 0 \<Longrightarrow> load_step c E s (s\<lparr>lt_sink := Sink_Count\<rparr>)"
| take_stop: "running s \<Longrightarrow> dequeue_mode c \<Longrightarrow> w < workers c \<Longrightarrow> \<not> lt_stopped s w \<Longrightarrow> lt_tokens s = Suc n \<Longrightarrow>
    load_step c E s (s\<lparr>lt_stopped := (lt_stopped s)(w := True), lt_tokens := n\<rparr>)"
| server_gone: "running s \<Longrightarrow> w < workers c \<Longrightarrow>
    (\<exists>j. lt_enq s w = Enq_Put j \<and> enqueue_one E j (lt_server s) = Panicked) \<or>
    lt_deq s w = Deq_Next \<and> dequeue_mode c \<and> dequeue_next E (lt_server s) = Some Panicked \<or>
    (\<exists>jid b. lt_deq s w = Deq_Cancel jid b \<and> dequeue_check c E jid b (lt_server s) = Panicked) \<Longrightarrow>
    load_step c E s (s\<lparr>lt_main := Fatal\<rparr>)"
| enq_waited: "lt_main s = Wait_Enqueue \<Longrightarrow> enqueue_mode c \<longrightarrow> (\<forall>w < workers c. lt_enq s w = Enq_Exit) \<Longrightarrow>
    load_step c E s (s\<lparr>lt_main := Wait_Dequeue\<rparr>)"
| deq_waited: "lt_main s = Wait_Dequeue \<Longrightarrow> dequeue_mode c \<longrightarrow> (\<forall>w < workers c. lt_stopped s w) \<Longrightarrow>
    load_step c E s (s\<lparr>lt_main := Returned\<rparr>)"

inductive load_reach :: "load_config \<Rightarrow> 'f loadtest \<Rightarrow> 'f loadtest \<Rightarrow> bool" for c s where
  load_refl: "load_reach c s s"
| load_trans: "load_reach c s t \<Longrightarrow> load_step c E t u \<Longrightarrow> load_reach c s u"

section \<open>Invariant\<close>

definition held :: "enq_pc \<Rightarrow> test_job multiset" where
  "held pc = (case pc of Enq_Put j \<Rightarrow> {#j#} | _ \<Rightarrow> {#})"

lemma held_simps [simp]: "held Enq_Take = {#}" "held (Enq_Put j) = {#j#}" "held Enq_Exit = {#}"
  by (simp_all add: held_def)

definition stops_left :: "sink_pc \<Rightarrow> nat" where
  "stops_left pc = (case pc of Sink_Stop n \<Rightarrow> n | Sink_Count \<Rightarrow> 0)"

lemma stops_left_simps [simp]: "stops_left Sink_Count = 0" "stops_left (Sink_Stop n) = n"
  by (simp_all add: stops_left_def)

definition generated :: "load_config \<Rightarrow> nat \<Rightarrow> test_job list" where
  "generated c n = map (\<lambda>i. the (load_job c i)) [0..<n]"

text \<open>The workers that left their wait group took a token each.\<close>

definition token_of :: "bool \<Rightarrow> nat" where
  "token_of b = (if b then 1 else 0)"

definition stopped_workers :: "load_config \<Rightarrow> 'f loadtest \<Rightarrow> nat" where
  "stopped_workers c s = (\<Sum>w<workers c. token_of (lt_stopped s w))"

text \<open>Every generated job is in the channel, with a worker, or accepted by the server.\<close>

definition jobs_inv :: "load_config \<Rightarrow> 'f loadtest \<Rightarrow> bool" where
  "jobs_inv c s \<longleftrightarrow>
     mset (lt_put s) + mset (lt_queue s) + (\<Sum>w<workers c. held (lt_enq s w)) = mset (generated c (lt_gen s))"

definition gen_inv :: "load_config \<Rightarrow> 'f loadtest \<Rightarrow> bool" where
  "gen_inv c s \<longleftrightarrow> (\<forall>i<lt_gen s. load_job c i \<noteq> None) \<and> int (lt_gen s) \<le> max 0 (lc_jobs c) \<and>
     (lt_closed s \<longrightarrow> lc_jobs c \<le> int (lt_gen s)) \<and>
     (\<forall>w<workers c. lt_enq s w = Enq_Exit \<longrightarrow> lt_closed s \<and> lt_queue s = [])"

text \<open>The stop tokens: none before the last job is counted, one per worker from then on.\<close>

definition token_inv :: "load_config \<Rightarrow> 'f loadtest \<Rightarrow> bool" where
  "token_inv c s \<longleftrightarrow> lt_tokens s + stopped_workers c s + stops_left (lt_sink s) =
     (if 0 < lc_jobs c \<and> lc_jobs c \<le> int (lt_count s) then workers c else 0)"

definition main_inv :: "load_config \<Rightarrow> 'f loadtest \<Rightarrow> bool" where
  "main_inv c s \<longleftrightarrow>
     (lt_main s = Wait_Dequeue \<or> lt_main s = Returned \<longrightarrow> enqueue_mode c \<longrightarrow> (\<forall>w<workers c. lt_enq s w = Enq_Exit)) \<and>
     (lt_main s = Returned \<longrightarrow> dequeue_mode c \<longrightarrow> (\<forall>w<workers c. lt_stopped s w))"

definition load_inv :: "load_config \<Rightarrow> 'f loadtest \<Rightarrow> bool" where
  "load_inv c s \<longleftrightarrow> jobs_inv c s \<and> gen_inv c s \<and> token_inv c s \<and> main_inv c s"

lemmas load_inv_defs = load_inv_def jobs_inv_def gen_inv_def token_inv_def main_inv_def

lemma sum_upd:
  fixes g :: "'a \<Rightarrow> 'b :: comm_monoid_add" and f :: "nat \<Rightarrow> 'a"
  assumes "w < n"
  shows "(\<Sum>v<n. g ((f(w := y)) v)) + g (f w) = (\<Sum>v<n. g (f v)) + g y"
proof -
  have eq: "(\<Sum>v\<in>{..<n} - {w}. g ((f(w := y)) v)) = (\<Sum>v\<in>{..<n} - {w}. g (f v))"
    by (rule sum.cong) auto
  have w: "w \<in> {..<n}" using assms by simp
  show ?thesis
    using sum.remove [OF _ w, of "\<lambda>v. g ((f(w := y)) v)"] sum.remove [OF _ w, of "\<lambda>v. g (f v)"] eq
    by (simp add: ac_simps)
qed

lemma held_upd: "w < workers c \<Longrightarrow> (\<Sum>v<workers c. held ((f(w := pc)) v)) + held (f w) =
    (\<Sum>v<workers c. held (f v)) + held pc"
  by (rule sum_upd)

lemma load_start_inv: "load_inv c (load_start s)"
  by (simp add: load_inv_defs load_start_def generated_def stopped_workers_def token_of_def)

lemma jobs_inv_step: "load_step c E s t \<Longrightarrow> jobs_inv c s \<Longrightarrow> jobs_inv c t"
proof (induction rule: load_step.induct)
  case (take_job s w j js)
  then show ?case using held_upd [of w c "lt_enq s" "Enq_Put j"]
    by (simp add: jobs_inv_def add.assoc del: fun_upd_apply)
next
  case (put_job s w j s1)
  then have "(\<Sum>v<workers c. held (lt_enq s v)) = add_mset j (\<Sum>v<workers c. held (((lt_enq s)(w := Enq_Take)) v))"
    using held_upd [of w c "lt_enq s" Enq_Take] by (simp del: fun_upd_apply)
  then show ?case using put_job by (simp add: jobs_inv_def del: fun_upd_apply)
next
  case (enq_exit s w)
  then show ?case using held_upd [of w c "lt_enq s" Enq_Exit]
    by (simp add: jobs_inv_def del: fun_upd_apply)
qed (simp_all add: jobs_inv_def generated_def)

lemma gen_inv_step: "load_step c E s t \<Longrightarrow> gen_inv c s \<Longrightarrow> gen_inv c t"
  by (induction rule: load_step.induct) (auto simp: gen_inv_def less_Suc_eq)

lemma token_inv_step: "load_step c E s t \<Longrightarrow> token_inv c s \<Longrightarrow> token_inv c t"
proof (induction rule: load_step.induct)
  case (take_stop s w n)
  then show ?case using sum_upd [of w "workers c" token_of "lt_stopped s" True]
    by (simp add: token_inv_def stopped_workers_def token_of_def [of True] token_of_def [of False] del: fun_upd_apply)
qed (auto simp: token_inv_def stopped_workers_def)

lemma main_inv_step: "load_step c E s t \<Longrightarrow> main_inv c s \<Longrightarrow> main_inv c t"
  by (induction rule: load_step.induct) (auto simp: main_inv_def running_def)

lemma load_step_inv: "load_step c E s t \<Longrightarrow> load_inv c s \<Longrightarrow> load_inv c t"
  unfolding load_inv_def by (blast intro: jobs_inv_step gen_inv_step token_inv_step main_inv_step)

lemma load_reach_inv: "load_reach c s t \<Longrightarrow> load_inv c s \<Longrightarrow> load_inv c t"
  by (induction rule: load_reach.induct) (blast intro: load_step_inv)+

section \<open>Progress\<close>

text \<open>All jobs are accepted, and the last one is counted: what is left needs no server.\<close>

definition work_done :: "load_config \<Rightarrow> 'f loadtest \<Rightarrow> bool" where
  "work_done c s \<longleftrightarrow> (enqueue_mode c \<longrightarrow> lc_jobs c \<le> int (length (lt_put s))) \<and>
     (dequeue_mode c \<longrightarrow> 0 < lc_jobs c \<and> lc_jobs c \<le> int (lt_count s))"

definition main_left :: "main_pc \<Rightarrow> nat" where
  "main_left m = (case m of Wait_Enqueue \<Rightarrow> 2 | Wait_Dequeue \<Rightarrow> 1 | _ \<Rightarrow> 0)"

definition exits_left :: "load_config \<Rightarrow> 'f loadtest \<Rightarrow> nat" where
  "exits_left c s = (\<Sum>w<workers c. token_of (lt_enq s w \<noteq> Enq_Exit))"

definition work_left :: "load_config \<Rightarrow> 'f loadtest \<Rightarrow> nat" where
  "work_left c s = token_of (\<not> lt_closed s) + exits_left c s + 2 * stops_left (lt_sink s) + lt_tokens s + main_left (lt_main s)"

lemma size_held: "size (\<Sum>v\<in>A. held (f v)) = (\<Sum>v\<in>A. size (held (f v)))"
  by (induction A rule: infinite_finite_induct) auto

text \<open>Nothing is left in the channel or with a worker.\<close>

lemma work_done_empty:
  assumes "load_inv c s" and "work_done c s" and "enqueue_mode c"
  shows "lt_queue s = []" "lc_jobs c \<le> int (lt_gen s)" "w < workers c \<Longrightarrow> held (lt_enq s w) = {#}"
proof -
  have "mset (lt_put s) + mset (lt_queue s) + (\<Sum>w<workers c. held (lt_enq s w)) = mset (generated c (lt_gen s))"
    using assms(1) by (simp add: load_inv_defs)
  then have "size (mset (lt_put s) + mset (lt_queue s) + (\<Sum>w<workers c. held (lt_enq s w))) =
      size (mset (generated c (lt_gen s)))" by simp
  then have "length (lt_put s) + length (lt_queue s) + (\<Sum>w<workers c. size (held (lt_enq s w))) = lt_gen s"
    by (simp add: generated_def size_held)
  moreover have "int (lt_gen s) \<le> max 0 (lc_jobs c)" using assms(1) by (simp add: load_inv_defs)
  moreover have "lc_jobs c \<le> int (length (lt_put s))" using assms(2,3) by (simp add: work_done_def)
  ultimately have z: "length (lt_queue s) = 0" "(\<Sum>w<workers c. size (held (lt_enq s w))) = 0"
    and "lc_jobs c \<le> int (lt_gen s)" by linarith+
  then show "lt_queue s = []" "lc_jobs c \<le> int (lt_gen s)" by simp_all
  show "w < workers c \<Longrightarrow> held (lt_enq s w) = {#}" using z(2) by simp
qed

lemma work_progress:
  assumes inv: "load_inv c s" and fin: "work_done c s" and run: "running s"
  shows "\<exists>t. load_step c E s t \<and> work_done c t \<and> work_left c t < work_left c s \<and> (running t \<or> lt_main t = Returned) \<and>
    lt_server t = lt_server s \<and> lt_gen t = lt_gen s"
proof (cases "lt_main s = Wait_Enqueue")
  case main: True
  show ?thesis
  proof (cases "enqueue_mode c \<longrightarrow> (\<forall>w<workers c. lt_enq s w = Enq_Exit)")
    case True
    then show ?thesis using enq_waited [OF main True] fin main
      by (intro exI [of _ "s\<lparr>lt_main := Wait_Dequeue\<rparr>"])
        (simp add: work_done_def work_left_def exits_left_def main_left_def running_def)
  next
    case False
    then obtain w where e: "enqueue_mode c" and w: "w < workers c" "lt_enq s w \<noteq> Enq_Exit" by blast
    note empty = work_done_empty [OF inv fin e]
    have t: "lt_enq s w = Enq_Take" using empty(3) [OF w(1)] w(2) by (cases "lt_enq s w") auto
    show ?thesis
    proof (cases "lt_closed s")
      case False
      then show ?thesis using close_jobs [OF run e empty(2) False] fin run
        by (intro exI [of _ "s\<lparr>lt_closed := True\<rparr>"])
          (simp add: work_done_def work_left_def exits_left_def running_def token_of_def)
    next
      case True
      have "exits_left c (s\<lparr>lt_enq := (lt_enq s)(w := Enq_Exit)\<rparr>) < exits_left c s"
        using sum_upd [OF w(1), of "\<lambda>pc. token_of (pc \<noteq> Enq_Exit)" "lt_enq s" Enq_Exit] w(2)
        by (simp add: exits_left_def token_of_def [of True] token_of_def [of False] del: fun_upd_apply)
      then show ?thesis using enq_exit [OF run e w(1) t empty(1) True] fin run
        by (intro exI [of _ "s\<lparr>lt_enq := (lt_enq s)(w := Enq_Exit)\<rparr>"])
          (simp add: work_done_def work_left_def running_def)
    qed
  qed
next
  case False
  then have main: "lt_main s = Wait_Dequeue" using run by (simp add: running_def)
  show ?thesis
  proof (cases "dequeue_mode c \<longrightarrow> (\<forall>w<workers c. lt_stopped s w)")
    case True
    then show ?thesis using deq_waited [OF main True] fin main
      by (intro exI [of _ "s\<lparr>lt_main := Returned\<rparr>"])
        (simp add: work_done_def work_left_def exits_left_def main_left_def)
  next
    case False
    then obtain w where d: "dequeue_mode c" and w: "w < workers c" "\<not> lt_stopped s w" by blast
    have tok: "lt_tokens s + stopped_workers c s + stops_left (lt_sink s) = workers c"
      using inv fin d by (simp add: load_inv_defs work_done_def)
    have "stopped_workers c s < (\<Sum>w<workers c. 1)"
      unfolding stopped_workers_def using w by (intro sum_strict_mono_ex1) (auto simp: token_of_def)
    then have "stopped_workers c s < workers c" by simp
    with tok have pos: "0 < lt_tokens s + stops_left (lt_sink s)" by linarith
    show ?thesis
    proof (cases "lt_tokens s")
      case (Suc n)
      then show ?thesis using take_stop [OF run d w Suc] fin run
        by (intro exI [of _ "s\<lparr>lt_stopped := (lt_stopped s)(w := True), lt_tokens := n\<rparr>"])
          (simp add: work_done_def work_left_def exits_left_def running_def)
    next
      case 0
      with pos obtain n where n: "lt_sink s = Sink_Stop (Suc n)"
        by (cases "lt_sink s") (auto simp: gr0_conv_Suc)
      have "lt_tokens s < workers c" using 0 w(1) by simp
      from send_stop [OF run n this] fin run n show ?thesis
        by (intro exI [of _ "s\<lparr>lt_sink := Sink_Stop n, lt_tokens := Suc (lt_tokens s)\<rparr>"])
          (simp add: work_done_def work_left_def exits_left_def running_def)
    qed
  qed
qed

section \<open>Runs on a clock\<close>

text \<open>
  The readings of a call between two instants, in the order the handlers make them: a put reads
  the clock twice; \<open>Next\<close> reads it in its first attempt, for its deadline, and then before and
  in each poll, with a sleep of 200 milliseconds after it. No other handler runs meanwhile.
\<close>

definition call_times :: "'f filter_ops \<Rightarrow> instant \<Rightarrow> instant \<Rightarrow> 'f call_env \<Rightarrow> bool" where
  "call_times F t t' E \<longleftrightarrow> ce_filter E = F \<and> ce_env E = (\<lambda>_ s. s) \<and> t \<le> t' \<and>
     t \<le> ce_now1 E \<and> ce_now1 E \<le> ce_now2 E \<and> ce_now2 E \<le> t' \<and>
     (\<forall>i. t \<le> ce_clk E i \<and> ce_clk E i \<le> ce_clk E (Suc i) \<and> ce_clk E i \<le> ce_now1 E) \<and> ce_now1 E \<le> ce_nows E 0 \<and>
     (\<forall>k i. ce_nows E k \<le> ce_clks E k i \<and> ce_clks E k i \<le> ce_clks E k (Suc i) \<and>
        ce_clks E k i + 200 * sint millisecond \<le> ce_nows E (Suc k)) \<and>
     (\<forall>k < ce_fuel E. ce_nows E k \<le> t')"

text \<open>
  A run of the load test on one clock that never goes back: \<open>load_timed F c t s t' s'\<close> leads from
  the state \<open>s\<close> at \<open>t\<close> to \<open>s'\<close> at \<open>t'\<close>, the calls of a step falling between the instants before
  and after it. The reading that a generated job keeps in its body, with the order check, does so
  too.
\<close>

inductive load_timed ::
  "'f filter_ops \<Rightarrow> load_config \<Rightarrow> instant \<Rightarrow> 'f loadtest \<Rightarrow> instant \<Rightarrow> 'f loadtest \<Rightarrow> bool" for F c t s where
  timed_refl: "load_timed F c t s t s"
| timed_step: "load_timed F c t s t1 s1 \<Longrightarrow> call_times F t1 t2 E \<Longrightarrow> load_step c E s1 s2 \<Longrightarrow>
    (lc_tolerance c \<and> lt_gen s2 \<noteq> lt_gen s1 \<longrightarrow> t1 \<le> lc_nows c (lt_gen s1) \<and> lc_nows c (lt_gen s1) \<le> t2) \<Longrightarrow>
    load_timed F c t s t2 s2"

lemma load_timed_reach: "load_timed F c t s t' s' \<Longrightarrow> load_reach c s s'"
  by (induction rule: load_timed.induct) (blast intro: load_reach.intros)+

lemma load_timed_trans: "load_timed F c t1 s1 t2 s2 \<Longrightarrow> load_timed F c t s t1 s1 \<Longrightarrow> load_timed F c t s t2 s2"
  by (induction rule: load_timed.induct) (blast intro: load_timed.intros)+

lemma load_timed_le: "load_timed F c t s t' s' \<Longrightarrow> t \<le> t'"
  by (induction rule: load_timed.induct) (auto simp: call_times_def)

text \<open>The calls of a step that starts at \<open>t\<close>: all at \<open>t\<close>, but for the polls.\<close>

definition from_time :: "'f filter_ops \<Rightarrow> instant \<Rightarrow> 'f call_env" where
  "from_time F t = \<lparr>ce_filter = F, ce_rank = \<lambda>_. 0, ce_now1 = t, ce_now2 = t, ce_clk = \<lambda>_. t,
     ce_nows = \<lambda>k. t + int k * (200 * sint millisecond), ce_clks = \<lambda>k _. t + int k * (200 * sint millisecond),
     ce_env = \<lambda>_ s. s, ce_fuel = 6\<rparr>"

lemma from_time_simps [simp]:
  "ce_filter (from_time F t) = F" "ce_now1 (from_time F t) = t" "ce_now2 (from_time F t) = t"
  "ce_clk (from_time F t) = (\<lambda>_. t)" "ce_env (from_time F t) = (\<lambda>_ s. s)" "ce_fuel (from_time F t) = 6"
  by (simp_all add: from_time_def)

lemma from_time_times: "t + sint second \<le> t' \<Longrightarrow> call_times F t t' (from_time F t)"
  unfolding call_times_def by (auto simp: from_time_def millisecond_def second_def algebra_simps)

lemma timed_start:
  assumes "load_step c (from_time F t) s s'" and "\<not> lc_tolerance c"
  shows "load_timed F c t s (t + sint second) s'"
  using timed_step [OF timed_refl from_time_times assms(1)] assms(2) by simp

lemma timed_cons:
  assumes "load_step c (from_time F t) s s'" and "\<not> lc_tolerance c" and "load_timed F c (t + sint second) s' t' s''"
  shows "load_timed F c t s t' s''"
  using load_timed_trans [OF assms(3) timed_start [OF assms(1,2)]] .

lemma work_finish:
  "load_inv c s \<Longrightarrow> work_done c s \<Longrightarrow> running s \<Longrightarrow> \<not> lc_tolerance c \<Longrightarrow>
   \<exists>t' s'. load_timed F c t s t' s' \<and> lt_main s' = Returned \<and> lt_server s' = lt_server s"
proof (induction "work_left c s" arbitrary: s t rule: less_induct)
  case less
  obtain s1 where s1: "load_step c (from_time F t) s s1" "work_done c s1" "work_left c s1 < work_left c s"
    "running s1 \<or> lt_main s1 = Returned" "lt_server s1 = lt_server s"
    using work_progress [OF less.prems(1-3), of "from_time F t"] by blast
  show ?case
  proof (cases "lt_main s1 = Returned")
    case True
    then show ?thesis using timed_start [OF s1(1) less.prems(4)] s1(5) by blast
  next
    case False
    with s1(4) less.hyps [OF s1(3) load_step_inv [OF s1(1) less.prems(1)] s1(2) _ less.prems(4), of "t + sint second"]
    show ?thesis using timed_cons [OF s1(1) less.prems(4)] s1(5) by metis
  qed
qed

section \<open>A run without faults\<close>

definition job_delay :: "load_config \<Rightarrow> nat \<Rightarrow> int" where
  "job_delay c i = int (lc_tape c i) mod (lc_max_delay c - lc_min_delay c) + lc_min_delay c"

text \<open>
  Settings under which nothing has to fail: both modes, the order check off, delays of at least
  a second that fit a duration, a body of letters, and memory for one job beside \<open>leak\<close> bytes.
\<close>

definition load_fits :: "load_config \<Rightarrow> nat \<Rightarrow> bool" where
  "load_fits c leak \<longleftrightarrow> lc_enqueue c \<and> lc_dequeue c \<and> \<not> lc_tolerance c \<and> 0 < lc_jobs c \<and> 0 < lc_connections c \<and>
     0 < lc_min_delay c \<and> lc_min_delay c < lc_max_delay c \<and> lc_max_delay c \<le> 9000000000 \<and>
     space \<notin> set (lc_data c) \<and>
     (\<forall>i < nat (lc_jobs c). \<forall>j.
        load_job c i = Some j \<longrightarrow> leak + unat (size_of (new_job (tj_id j) 0 (tj_data j))) \<le> 2 ^ 40)"

lemma job_delay_range: "lc_min_delay c < lc_max_delay c \<Longrightarrow> lc_min_delay c \<le> job_delay c i \<and> job_delay c i < lc_max_delay c"
  using pos_mod_bound [of "lc_max_delay c - lc_min_delay c" "int (lc_tape c i)"]
    pos_mod_sign [of "lc_max_delay c - lc_min_delay c" "int (lc_tape c i)"]
  unfolding job_delay_def by linarith

lemma load_job_fits:
  assumes fits: "load_fits c leak" and i: "i < nat (lc_jobs c)"
  obtains j where "load_job c i = Some j" "tj_id j \<noteq> []" "tj_delay_sec j = job_delay c i"
    "validate_job (lc_tolerance c) (lc_ns_tolerance c) (lc_data c) (tj_data j) 0 = Valid"
proof -
  have d: "lc_min_delay c < lc_max_delay c" and data: "space \<notin> set (lc_data c)" using fits by (simp_all add: load_fits_def)
  let ?j = "\<lparr>tj_id = sprintf_d i, tj_data = lc_data c, tj_delay_sec = job_delay c i\<rparr>"
  have "load_job c i = Some ?j" using d fits by (simp add: load_job_def generate_job_def job_delay_def load_fits_def Let_def)
  moreover have "validate_job (lc_tolerance c) (lc_ns_tolerance c) (lc_data c) (tj_data ?j) 0 = Valid"
    using data fits by (simp add: validate_job_def split_on_clean load_fits_def Let_def)
  ultimately show ?thesis using that [of ?j] by (simp add: sprintf_d_nonempty)
qed

lemma delay_positive:
  assumes "0 < d" and "d \<le> 9000000000"
  shows "0 < sint (second * word_of_int d :: 64 word)"
proof -
  have "second * word_of_int d = (word_of_int (1000000000 * d) :: 64 word)" by (simp add: second_def)
  also have "sint \<dots> = 1000000000 * d" using assms by (intro sint_word_of_int_in_range) auto
  finally show ?thesis using assms by simp
qed

text \<open>A server that no job is left in, and the states between two jobs.\<close>

definition idle :: "nat \<Rightarrow> 'f server \<Rightarrow> bool" where
  "idle leak sv \<longleftrightarrow> srv_ok leak sv \<and> hub_jobs (srv_hub sv) = {#} \<and> has_room leak (srv_config sv)"

definition load_at :: "load_config \<Rightarrow> nat \<Rightarrow> 'f server \<Rightarrow> 'f loadtest" where
  "load_at c k sv = (load_start sv)\<lparr>lt_gen := k, lt_put := generated c k, lt_count := k,
     lt_sink := if 0 < k \<and> int k = lc_jobs c then Sink_Stop (workers c) else Sink_Count\<rparr>"

text \<open>
  A dequeueing worker whose jobs are due calls \<open>Next\<close> until it has one: a call that times out
  has moved a waiting spoke on.
\<close>

lemma next_until:
  assumes "running s" and "dequeue_mode c" and "0 < workers c" and "lt_deq s 0 = Deq_Next" and "\<not> lc_tolerance c"
    and "hub_jobs (srv_hub (lt_server s)) = {#j#}"
  shows "srv_ok leak (lt_server s) \<Longrightarrow> hub_due t (srv_hub (lt_server s)) \<Longrightarrow>
    \<exists>t' s2. load_timed F c t s t' (s\<lparr>lt_deq := (lt_deq s)(0 := Deq_Cancel (job_id j) (body j)), lt_server := s2\<rparr>) \<and>
      late_result leak (lt_server s) j s2"
  using assms
proof (induction "size (waiting (srv_hub (lt_server s)))" arbitrary: s t rule: less_induct)
  case less
  let ?E = "from_time F t" and ?s = "lt_server s"
  note deq = less.prems(3-6) and tol = less.prems(7) and j = less.prems(8)
  have ne: "hub_jobs (srv_hub ?s) \<noteq> {#}" using j by simp
  have late: "\<forall>i. t \<le> ce_clk ?E i" "\<forall>k i. t \<le> ce_clks ?E k i" "ce_env ?E = (\<lambda>_ s. s)" "ce_fuel ?E = Suc 5"
    "t_add (ce_now1 ?E) second \<le> ce_nows ?E 5" "second \<noteq> 0"
    by (simp_all add: from_time_def millisecond_def second_def t_add_def)
  show ?case
  proof (cases rule: client_next_returns [OF less.prems(1,2) ne late])
    case (1 s1)
    let ?t = "s\<lparr>lt_server := s1\<rparr>"
    have "dequeue_next ?E ?s = Some (Done (Some Deq_Next, s1))" using 1(1) by (simp add: dequeue_next_def load_client_def)
    from load_step.next_job [OF deq(1-3,4) this] deq(4) have step: "load_step c ?E s ?t" by (simp add: fun_upd_idem)
    have "srv_ok leak s1" "hub_due (t + sint second) (srv_hub s1)" "hub_jobs (srv_hub s1) = {#j#}"
      using 1(2) j hub_due_later [of t "srv_hub s1" "t + sint second"] by (simp_all add: late_skip_def second_def)
    with less.hyps [of ?t "t + sint second"] 1(3) deq tol obtain t' s2 where
      "load_timed F c (t + sint second) ?t t'
        (?t\<lparr>lt_deq := (lt_deq s)(0 := Deq_Cancel (job_id j) (body j)), lt_server := s2\<rparr>)"
      "late_result leak s1 j s2" by (auto simp: running_def)
    with timed_cons [OF step tol] 1(2) show ?thesis by (auto simp: late_skip_def late_result_def)
  next
    case (2 i s1)
    then have "i = j" using j by (simp add: late_result_def)
    then have "dequeue_next ?E ?s = Some (Done (Some (Deq_Cancel (job_id j) (body j)), s1))"
      using 2(1) by (simp add: dequeue_next_def load_client_def)
    from timed_start [OF load_step.next_job [OF deq(1-3,4) this] tol] 2(2) \<open>i = j\<close> show ?thesis by blast
  qed
qed

text \<open>The put of a round, and its end once the job is due: the cancel and the check.\<close>

lemma round_put:
  fixes F :: "'f filter_ops"
  assumes fits: "load_fits c leak" and i: "i < nat (lc_jobs c)" and j: "load_job c i = Some j" and sv: "idle leak sv"
  obtains s1 d where "enqueue_one (from_time F t) j sv = Done (None, s1)" "srv_ok leak s1"
    "hub_jobs (srv_hub s1) = {#new_job (tj_id j) d (tj_data j)#}" "srv_config s1 = srv_config sv"
proof -
  obtain j' where "load_job c i = Some j'" and id: "tj_id j' \<noteq> []" and dl: "tj_delay_sec j' = job_delay c i"
    by (rule load_job_fits [OF fits i])
  then have j': "j' = j" using j by simp
  have ok: "srv_ok leak sv" and e: "hub_jobs (srv_hub sv) = {#}" and room: "has_room leak (srv_config sv)"
    using sv by (simp_all add: idle_def)
  let ?d = "second * word_of_int (tj_delay_sec j) :: 64 word"
  have pos: "0 < sint ?d"
    using job_delay_range [of c i] fits dl j' by (intro delay_positive) (auto simp: load_fits_def)
  have "leak + unat (size_of (new_job (tj_id j) (t_add t ?d) (tj_data j))) \<le> 2 ^ 40"
    using fits i j by (simp add: load_fits_def size_of_def new_job_def)
  then obtain s1 where "enqueue_one (from_time F t) j sv = Done (None, s1)" "srv_ok leak s1"
    "hub_jobs (srv_hub s1) = {#new_job (tj_id j) (t_add t ?d) (tj_data j)#}" "srv_config s1 = srv_config sv"
    using client_put_future [of leak sv "tj_id j" "from_time F t" ?d "tj_data j"] ok e room id j' pos
    by (auto simp: enqueue_one_def load_client_def hub_ids_def t_add_def)
  then show ?thesis by (rule that)
qed

lemma round_check:
  assumes fits: "load_fits c leak" and i: "i < nat (lc_jobs c)" and j: "load_job c i = Some j"
    and ok: "srv_ok leak s" and e: "hub_jobs (srv_hub s) = {#}" and room: "has_room leak (srv_config s)"
  obtains s' where "dequeue_check c E jid (tj_data j) s = Done (Some Deq_Send, s')" "idle leak s'"
proof -
  have valid: "validate_job (lc_tolerance c) (lc_ns_tolerance c) (lc_data c) (tj_data j) 0 = Valid"
    by (rule load_job_fits [OF fits i]) (use j in simp)
  from client_cancel_done [OF ok e, of E jid] obtain s' where
    "client_cancel E jid load_client s = Done (None, s')" "srv_ok leak s'" "hub_jobs (srv_hub s') = {#}"
      "srv_config s' = srv_config s" by (auto simp: load_client_def)
  then have "dequeue_check c E jid (tj_data j) s = Done (Some Deq_Send, s')" "idle leak s'"
    using valid room by (simp_all add: dequeue_check_def idle_def)
  then show ?thesis by (rule that)
qed

lemma load_round:
  assumes fits: "load_fits c leak" and i: "i < nat (lc_jobs c)" and sv: "idle leak sv"
  shows "\<exists>t' sv'. idle leak sv' \<and> load_timed F c t (load_at c i sv) t' (load_at c (Suc i) sv')"
proof -
  obtain j where j: "load_job c i = Some j" by (rule load_job_fits [OF fits i])
  have modes: "enqueue_mode c" "dequeue_mode c" and w: "0 < workers c" and tol: "\<not> lc_tolerance c"
    using fits by (simp_all add: load_fits_def enqueue_mode_def dequeue_mode_def workers_def)
  have lt: "int i < lc_jobs c" and ne: "(int i = lc_jobs c) = False" using i by auto
  have g: "generated c (Suc i) = generated c i @ [j]" using j by (simp add: generated_def)
  let ?a = "load_at c i sv"
  let ?b = "?a\<lparr>lt_queue := [j], lt_gen := Suc i\<rparr>"
  let ?c = "?b\<lparr>lt_enq := (\<lambda>_. Enq_Take)(0 := Enq_Put j), lt_queue := []\<rparr>"
  define t1 where "t1 = t + sint second + sint second"
  note simp = load_at_def load_start_def ne fun_upd_idem running_def
  have a: "load_step c (from_time F t) ?a ?b"
    using load_step.generate [of ?a c j] lt j w modes by (simp add: simp)
  have "load_step c (from_time F (t + sint second)) ?b ?c"
    using load_step.take_job [of ?b c 0 j "[]"] w modes by (simp add: simp)
  from timed_cons [OF a tol timed_start [OF this tol]] have ac: "load_timed F c t ?a t1 ?c" by (simp only: t1_def)
  obtain s1 d where put: "enqueue_one (from_time F t1) j sv = Done (None, s1)" and s1: "srv_ok leak s1"
    "hub_jobs (srv_hub s1) = {#new_job (tj_id j) d (tj_data j)#}" "srv_config s1 = srv_config sv"
    by (rule round_put [OF fits i j sv])
  let ?d = "?c\<lparr>lt_enq := \<lambda>_. Enq_Take, lt_put := generated c (Suc i), lt_server := s1\<rparr>"
  have "hub_wf (srv_hub s1)" using s1(1) by (simp add: srv_ok_def hub_good_def)
  from hub_due_eventually [OF this] obtain t0 where t0: "\<forall>now\<ge>t0. hub_due now (srv_hub s1)" by blast
  define t2 where "t2 = max t0 (t1 + sint second)"
  have d: "load_step c (from_time F t1) ?c ?d" using load_step.put_job [of ?c 0 c j "from_time F t1" s1] put w g by (simp add: simp)
  have "call_times F t1 t2 (from_time F t1)" by (rule from_time_times) (simp add: t2_def)
  from timed_step [OF ac this d] tol have ad: "load_timed F c t ?a t2 ?d" by simp
  have "hub_due t2 (srv_hub s1)" using t0 by (simp add: t2_def)
  with next_until [of ?d c "new_job (tj_id j) d (tj_data j)" leak t2 F] s1(1,2) modes w tol obtain t3 s2 where
    de: "load_timed F c t2 ?d t3 (?d\<lparr>lt_deq := (\<lambda>_. Deq_Next)(0 := Deq_Cancel (tj_id j) (tj_data j)), lt_server := s2\<rparr>)"
    and s2: "late_result leak s1 (new_job (tj_id j) d (tj_data j)) s2" by (auto simp: simp new_job_def)
  let ?e = "?d\<lparr>lt_deq := (\<lambda>_. Deq_Next)(0 := Deq_Cancel (tj_id j) (tj_data j)), lt_server := s2\<rparr>"
  have "srv_ok leak s2" "hub_jobs (srv_hub s2) = {#}" "has_room leak (srv_config s2)"
    using s1 s2 sv by (simp_all add: late_result_def idle_def)
  from round_check [OF fits i j this] obtain s3 where
    chk: "dequeue_check c (from_time F t3) (tj_id j) (tj_data j) s2 = Done (Some Deq_Send, s3)" and idle: "idle leak s3" .
  let ?f = "?e\<lparr>lt_deq := (\<lambda>_. Deq_Next)(0 := Deq_Send), lt_server := s3\<rparr>"
  have e: "load_step c (from_time F t3) ?e ?f"
    using load_step.check_job [of ?e 0 c "tj_id j" "tj_data j" "from_time F t3" "Deq_Send" s3] chk w by (simp add: simp)
  have "load_step c (from_time F (t3 + sint second)) ?f (load_at c (Suc i) s3)"
    using load_step.count_job [of ?f 0 c] w lt by (auto simp: simp)
  from timed_cons [OF e tol timed_start [OF this tol]]
  have "load_timed F c t3 ?e (t3 + sint second + sint second) (load_at c (Suc i) s3)" .
  with load_timed_trans [OF de ad] idle show ?thesis using load_timed_trans by blast
qed

lemma load_rounds:
  assumes "load_fits c leak" and sv: "idle leak sv"
  shows "k \<le> nat (lc_jobs c) \<Longrightarrow> \<exists>t' sv'. idle leak sv' \<and> load_timed F c t (load_start sv) t' (load_at c k sv')"
proof (induction k)
  case 0
  have "load_at c 0 sv = load_start sv" by (simp add: load_at_def load_start_def generated_def)
  then show ?case using sv timed_refl by metis
next
  case (Suc k)
  then obtain t1 sv1 where 1: "idle leak sv1" "load_timed F c t (load_start sv) t1 (load_at c k sv1)" by auto
  from Suc.prems have k: "k < nat (lc_jobs c)" by simp
  from load_round [OF assms(1) k 1(1), of F t1] show ?case using load_timed_trans [OF _ 1(2)] by blast
qed

lemma load_finishes:
  assumes fits: "load_fits c leak" and sv: "idle leak sv"
  shows "\<exists>t' s. load_timed F c t (load_start sv) t' s \<and> lt_main s = Returned \<and> idle leak (lt_server s)"
proof -
  let ?n = "nat (lc_jobs c)"
  obtain t1 sv' where sv': "idle leak sv'" and r: "load_timed F c t (load_start sv) t1 (load_at c ?n sv')"
    using load_rounds [OF fits sv, of ?n F t] by blast
  have "load_inv c (load_at c ?n sv')" by (rule load_reach_inv [OF load_timed_reach [OF r] load_start_inv])
  moreover have "work_done c (load_at c ?n sv')"
    using fits by (simp add: work_done_def load_at_def load_start_def generated_def load_fits_def)
  moreover have "running (load_at c ?n sv')" by (simp add: running_def load_at_def load_start_def)
  moreover have "\<not> lc_tolerance c" using fits by (simp add: load_fits_def)
  ultimately obtain t' s where s: "load_timed F c t1 (load_at c ?n sv') t' s" "lt_main s = Returned"
    "lt_server s = lt_server (load_at c ?n sv')" using work_finish by blast
  have "lt_server s = sv'" using s(3) by (simp add: load_at_def load_start_def)
  then show ?thesis using load_timed_trans [OF s(1) r] s(2) sv' by blast
qed

section \<open>Properties\<close>

lemma return_done:
  assumes inv: "load_inv c s" and ret: "lt_main s = Returned" and w: "0 < lc_connections c"
  shows "enqueue_mode c \<Longrightarrow> mset (lt_put s) = mset (generated c (nat (lc_jobs c)))"
    "enqueue_mode c \<Longrightarrow> i < nat (lc_jobs c) \<Longrightarrow> load_job c i \<noteq> None"
    "dequeue_mode c \<Longrightarrow> 0 < lc_jobs c \<and> lc_jobs c \<le> int (lt_count s)"
proof -
  have w0: "0 < workers c" using w by (simp add: workers_def)
  have "mset (lt_put s) = mset (generated c (lt_gen s)) \<and> lt_gen s = nat (lc_jobs c) \<and> (\<forall>i < lt_gen s. load_job c i \<noteq> None)"
    if e: "enqueue_mode c"
  proof -
    have ex: "\<forall>v<workers c. lt_enq s v = Enq_Exit" using inv ret e by (simp add: load_inv_defs)
    then have "lt_closed s" "lt_queue s = []" using inv w0 by (auto simp: load_inv_defs)
    moreover have "(\<Sum>v<workers c. held (lt_enq s v)) = {#}" using ex by simp
    ultimately show ?thesis using inv by (auto simp: load_inv_defs)
  qed
  then show "enqueue_mode c \<Longrightarrow> mset (lt_put s) = mset (generated c (nat (lc_jobs c)))"
    "enqueue_mode c \<Longrightarrow> i < nat (lc_jobs c) \<Longrightarrow> load_job c i \<noteq> None" by auto
  assume d: "dequeue_mode c"
  have "\<forall>v<workers c. lt_stopped s v" using inv ret d by (simp add: load_inv_defs)
  then have "stopped_workers c s = workers c" by (simp add: stopped_workers_def token_of_def)
  then show "0 < lc_jobs c \<and> lc_jobs c \<le> int (lt_count s)" using inv w0
    by (auto simp: load_inv_defs split: if_splits)
qed

text \<open>
  C18: With one connection or more, the load test returns only when its work is done, in whatever
  order its goroutines ran and whatever the clocks read: with an enqueueing mode, the jobs that the server has accepted
  are all the generated ones, each once; with a dequeueing mode, the sink has counted as many
  jobs as were asked for. Any failure on the way ends the process instead.
\<close>

theorem loadtest_return_means_done:
  assumes "load_reach c (load_start sv) s" and "lt_main s = Returned" and "0 < lc_connections c"
  shows "(enqueue_mode c \<longrightarrow> (\<forall>i < nat (lc_jobs c). load_job c i \<noteq> None) \<and>
      mset (lt_put s) = mset (generated c (nat (lc_jobs c)))) \<and>
    (dequeue_mode c \<longrightarrow> 0 < lc_jobs c \<and> lc_jobs c \<le> int (lt_count s))"
  using return_done [OF load_reach_inv [OF assms(1) load_start_inv] assms(2,3)] by blast

text \<open>Two jobs over one connection against a server with a monitor.\<close>

definition demo_load :: load_config where
  "demo_load = \<lparr>lc_jobs = 2, lc_connections = 1, lc_enqueue = True, lc_dequeue = True, lc_tolerance = False,
     lc_ns_tolerance = 1000, lc_min_delay = 1, lc_max_delay = 3, lc_data = bytes_of ''ab'', lc_tape = id,
     lc_nows = \<lambda>i. unix_epoch + int i\<rparr>"

definition demo_server :: "(cuckoo \<times> nat) server" where
  "demo_server = new_server (new_hub (new_filter 4, 0) 10 0 0) 1000"

lemma demo_load_fits: "load_fits demo_load 0"
proof -
  have small: "unat (size_of (new_job (tj_id j) 0 (tj_data j))) \<le> 2 ^ 40"
    if "i < nat (lc_jobs demo_load)" and "load_job demo_load i = Some j" for i j
  proof -
    have "i = 0 \<or> i = 1" using that(1) by (auto simp: demo_load_def)
    moreover have "tj_id j = sprintf_d i \<and> tj_data j = bytes_of ''ab''"
      using that(2) by (auto simp: load_job_def generate_job_def demo_load_def Let_def)
    moreover have "sprintf_d 0 = ''0'' \<and> sprintf_d 1 = ''1''" by code_simp
    ultimately show ?thesis by (auto simp: size_of_def size_overhead_def new_job_def bytes_of_def)
  qed
  have "space \<notin> set (lc_data demo_load)" by code_simp
  with small show ?thesis by (simp add: load_fits_def) (simp add: demo_load_def)
qed

lemma demo_server_idle: "idle 0 demo_server"
proof -
  have "hub_jobs (srv_hub demo_server) = {#}" by (simp add: demo_server_def new_server_def new_hub_jobs)
  moreover have "has_room 0 (srv_config demo_server)"
    by (simp add: demo_server_def has_room_def srv_config_def mm_limit_def configure_mem_monitor_def new_server_def new_hub_def)
  ultimately show ?thesis by (simp add: idle_def demo_server_def new_server_ok)
qed

theorem loadtest_return_means_done_witness:
  "\<exists>s. load_reach demo_load (load_start demo_server) s \<and> lt_main s = Returned \<and>
    mset (lt_put s) = mset (generated demo_load 2) \<and> 2 \<le> lt_count s"
proof -
  obtain s where s: "load_reach demo_load (load_start demo_server) s" "lt_main s = Returned"
    using load_finishes [OF demo_load_fits demo_server_idle] load_timed_reach by blast
  have "0 < lc_connections demo_load" "enqueue_mode demo_load" "dequeue_mode demo_load" "lc_jobs demo_load = 2"
    by (simp_all add: demo_load_def enqueue_mode_def dequeue_mode_def)
  with loadtest_return_means_done [OF s] s show ?thesis by auto
qed

text \<open>
  C19: A load test that fits its server can end, on one clock that never goes back: its settings
  have both modes, at least one job and one connection, the order check off, delays of at least a
  second and bodies without a space, as \<open>load_fits\<close> says; the hub of the server is empty, its
  spans are positive and its monitor has room for a job. From any instant on there is a run of the
  goroutines, each call reading the clock between the instants before and after its step and
  sleeping 200 milliseconds between polls, that returns with every generated job accepted and
  counted, and with the hub empty again. That the run exists does not say that every run ends.
\<close>

theorem loadtest_can_finish:
  assumes "load_fits c leak" and "srv_ok leak sv" and "hub_jobs (srv_hub sv) = {#}" and "has_room leak (srv_config sv)"
  shows "\<exists>t' s. load_timed F c t (load_start sv) t' s \<and> lt_main s = Returned \<and>
    mset (lt_put s) = mset (generated c (nat (lc_jobs c))) \<and> lc_jobs c \<le> int (lt_count s) \<and>
    hub_jobs (srv_hub (lt_server s)) = {#}"
proof -
  have "idle leak sv" using assms(2-4) by (simp add: idle_def)
  from load_finishes [OF assms(1) this] obtain t' s where s: "load_timed F c t (load_start sv) t' s" "lt_main s = Returned"
    "idle leak (lt_server s)" by blast
  have "0 < lc_connections c" "enqueue_mode c" "dequeue_mode c"
    using assms(1) by (simp_all add: load_fits_def enqueue_mode_def dequeue_mode_def)
  with return_done [OF load_reach_inv [OF load_timed_reach [OF s(1)] load_start_inv] s(2)] s show ?thesis
    by (auto simp: idle_def)
qed

theorem loadtest_can_finish_witness:
  "\<exists>t' s. load_timed (cuckoo_ops length_hash id) demo_load unix_epoch (load_start demo_server) t' s \<and>
    lt_main s = Returned \<and> mset (lt_put s) = mset (generated demo_load 2) \<and> 2 \<le> lt_count s \<and>
    hub_jobs (srv_hub (lt_server s)) = {#}"
proof -
  have "lc_jobs demo_load = 2" by (simp add: demo_load_def)
  with loadtest_can_finish [OF demo_load_fits, of demo_server "cuckoo_ops length_hash id" unix_epoch] demo_server_idle
  show ?thesis by (auto simp: idle_def)
qed

end
