(* ===== verification/Metrics.thy ===== *)
theory Metrics
  imports Complex_Main Text_Output
begin

text \<open>
  \<open>pkg/metrics/metrics.go\<close> and what it uses of the vendored \<open>statsd\<close> client: the text of a
  metric, the buffer of commands and its flush into datagrams. The global client is an
  argument and a result of every function, \<open>None\<close> before \<open>InitMetrics\<close>.
\<close>

section \<open>Floating point numbers\<close>

text \<open>
  A finite \<open>float64\<close> as the rational it denotes. The result of an operation is the exact one
  rounded to 53 significant bits, ties to even; the values here are far from the largest and
  the least exponent.
\<close>

type_synonym float64 = rat

definition round_even :: "rat \<Rightarrow> int" where
  "round_even r =
     (let f = \<lfloor>r\<rfloor>; d = r - of_int f
      in if d < 1 / 2 \<or> d = 1 / 2 \<and> even f then f else f + 1)"

fun log2_nat :: "nat \<Rightarrow> nat" where
  "log2_nat n = (if n < 2 then 0 else Suc (log2_nat (n div 2)))"

declare log2_nat.simps [simp del]

text \<open>The exponent of a positive number, and powers of two with any exponent.\<close>

definition exponent :: "rat \<Rightarrow> int" where
  "exponent x =
     (if 1 \<le> x then int (log2_nat (nat \<lfloor>x\<rfloor>)) else - int (log2_nat (nat (\<lceil>1 / x\<rceil> - 1)) + 1))"

definition pow2 :: "int \<Rightarrow> rat" where
  "pow2 e = (if 0 \<le> e then 2 ^ nat e else 1 / 2 ^ nat (- e))"

definition f64 :: "rat \<Rightarrow> float64" where
  "f64 r =
     (if r = 0 then 0
      else let e = exponent \<bar>r\<bar> - 52 in of_int (round_even (r * pow2 (- e))) * pow2 e)"

text \<open>\<open>strconv.AppendFloat\<close> with six decimals.\<close>

definition float_text :: "float64 \<Rightarrow> string" where
  "float_text x =
     (let m = nat (round_even (\<bar>x\<bar> * 1000000));
          frac = sprintf_d (m mod 1000000)
      in (if x < 0 then ''-'' else []) @ sprintf_d (m div 1000000) @ ''.'' @
         replicate (6 - length frac) CHR ''0'' @ frac)"

text \<open>\<open>Duration.Seconds\<close>: both quotients round towards zero.\<close>

definition seconds :: "duration \<Rightarrow> float64" where
  "seconds d =
     (let s = sint d; q = \<bar>s\<bar> div 10 ^ 9; r = \<bar>s\<bar> mod 10 ^ 9; sg = (if s < 0 then -1 else 1)
      in f64 (f64 (of_int (sg * q)) + f64 (f64 (of_int (sg * r)) / 10 ^ 9)))"

section \<open>The statsd client\<close>

datatype 'e metric_error = Client_Nil | Message_Too_Long | Write_Failed 'e

text \<open>\<open>sc_sent\<close> are the datagrams that went out, \<open>sc_writes\<close> the writes tried.\<close>

record statsd =
  sc_namespace :: string
  sc_buffer_length :: nat
  sc_commands :: "string list"
  sc_sent :: "string list"
  sc_writes :: nat

definition optimal_payload :: nat where "optimal_payload = 1432"
definition max_udp_payload :: nat where "max_udp_payload = 65467"

datatype metric_value = No_Value | Float_Value float64

text \<open>\<open>format\<close> at rate 1 and without tags.\<close>

definition metric_text :: "statsd \<Rightarrow> string \<Rightarrow> metric_value \<Rightarrow> string \<Rightarrow> string" where
  "metric_text c name v suffix =
     sc_namespace c @ name @ '':'' @ (case v of Float_Value x \<Rightarrow> float_text x | No_Value \<Rightarrow> []) @ suffix"

text \<open>\<open>joinMaxSize\<close>: the frames with the number of their commands.\<close>

fun join_frames :: "string list \<Rightarrow> string \<Rightarrow> nat \<Rightarrow> (string \<times> nat) list" where
  "join_frames [] buf elem = (if buf = [] then [] else [(buf, elem)])"
| "join_frames (cmd # cmds) buf elem =
     (if length buf + (if elem = 0 then length cmd else length cmd + 1) \<le> optimal_payload
      then join_frames cmds (if elem = 0 then buf @ cmd else buf @ newline @ cmd) (elem + 1)
      else (buf, elem) # join_frames cmds cmd 1)"

text \<open>Writing the frames up to the first error; \<open>wr k\<close> is the error of the \<open>k\<close>-th write.\<close>

fun write_frames :: "(nat \<Rightarrow> 'e option) \<Rightarrow> (string \<times> nat) list \<Rightarrow> statsd \<Rightarrow> nat \<Rightarrow> 'e option \<times> nat \<times> statsd" where
  "write_frames wr [] c flushed = (None, flushed, c)"
| "write_frames wr ((data, n) # frames) c flushed =
     (case wr (sc_writes c) of
        Some e \<Rightarrow> (Some e, flushed, c\<lparr>sc_writes := sc_writes c + 1\<rparr>)
      | None \<Rightarrow> write_frames wr frames
                  (c\<lparr>sc_writes := sc_writes c + 1, sc_sent := sc_sent c @ [data]\<rparr>) (flushed + n))"

definition flush_locked :: "(nat \<Rightarrow> 'e option) \<Rightarrow> statsd \<Rightarrow> 'e option \<times> statsd" where
  "flush_locked wr c =
     (let (e, flushed, c1) = write_frames wr (join_frames (sc_commands c) [] 0) c 0
      in (e, c1\<lparr>sc_commands :=
                 (if flushed = length (sc_commands c) then [] else drop (flushed + 1) (sc_commands c))\<rparr>))"

definition append_command :: "(nat \<Rightarrow> 'e option) \<Rightarrow> string \<Rightarrow> statsd \<Rightarrow> 'e option \<times> statsd" where
  "append_command wr cmd c =
     (let c1 = c\<lparr>sc_commands := sc_commands c @ [cmd]\<rparr>
      in if length (sc_commands c1) = sc_buffer_length c1 then flush_locked wr c1 else (None, c1))"

text \<open>\<open>sendMsg\<close> of a buffered client, and \<open>send\<close> at rate 1.\<close>

definition send_msg :: "(nat \<Rightarrow> 'e option) \<Rightarrow> string \<Rightarrow> statsd \<Rightarrow> 'e metric_error option \<times> statsd" where
  "send_msg wr msg c =
     (if max_udp_payload < length msg then (Some Message_Too_Long, c)
      else let (e, c1) = append_command wr msg c in (map_option Write_Failed e, c1))"

definition statsd_send ::
  "(nat \<Rightarrow> 'e option) \<Rightarrow> string \<Rightarrow> metric_value \<Rightarrow> string \<Rightarrow> statsd option \<Rightarrow> 'e metric_error option \<times> statsd option" where
  "statsd_send wr name v suffix co =
     (case co of
        None \<Rightarrow> (Some Client_Nil, None)
      | Some c \<Rightarrow> (let (e, c1) = send_msg wr (metric_text c name v suffix) c in (e, Some c1)))"

text \<open>A tick of the goroutine \<open>watch\<close>, every 100 milliseconds; its error is dropped.\<close>

definition watch_tick :: "(nat \<Rightarrow> 'e option) \<Rightarrow> statsd \<Rightarrow> statsd" where
  "watch_tick wr c = (if sc_commands c = [] then c else snd (flush_locked wr c))"

section \<open>The metrics of the program\<close>

text \<open>
  \<open>InitMetrics\<close>: \<open>opened\<close> is the error of opening the UDP socket, which ends the process
  (\<open>None\<close>). A second call does nothing.
\<close>

definition init_metrics :: "'e option \<Rightarrow> statsd option \<Rightarrow> statsd option option" where
  "init_metrics opened co =
     (case co of
        Some c \<Rightarrow> Some (Some c)
      | None \<Rightarrow>
          (case opened of
             Some e \<Rightarrow> None
           | None \<Rightarrow> Some (Some \<lparr>sc_namespace = ''chronomq'', sc_buffer_length = 500,
                                 sc_commands = [], sc_sent = [], sc_writes = 0\<rparr>)))"

text \<open>\<open>Time\<close>: \<open>now\<close> is the reading of the clock.\<close>

definition metric_time ::
  "(nat \<Rightarrow> 'e option) \<Rightarrow> string \<Rightarrow> instant \<Rightarrow> instant \<Rightarrow> statsd option \<Rightarrow> 'e metric_error option \<times> statsd option" where
  "metric_time wr name start now = statsd_send wr name (Float_Value (f64 (seconds (t_sub now start) * 1000))) ''|ms''"

definition metric_incr ::
  "(nat \<Rightarrow> 'e option) \<Rightarrow> string \<Rightarrow> statsd option \<Rightarrow> 'e metric_error option \<times> statsd option" where
  "metric_incr wr name = statsd_send wr name No_Value ''1|c''"

definition metric_decr ::
  "(nat \<Rightarrow> 'e option) \<Rightarrow> string \<Rightarrow> statsd option \<Rightarrow> 'e metric_error option \<times> statsd option" where
  "metric_decr wr name = statsd_send wr name No_Value ''-1|c''"

definition metric_gauge ::
  "(nat \<Rightarrow> 'e option) \<Rightarrow> string \<Rightarrow> float64 \<Rightarrow> statsd option \<Rightarrow> 'e metric_error option \<times> statsd option" where
  "metric_gauge wr name val = statsd_send wr name (Float_Value val) ''|g''"

definition metric_gauge_int ::
  "(nat \<Rightarrow> 'e option) \<Rightarrow> string \<Rightarrow> 64 word \<Rightarrow> statsd option \<Rightarrow> 'e metric_error option \<times> statsd option" where
  "metric_gauge_int wr name val = statsd_send wr name (Float_Value (f64 (of_int (sint val)))) ''|g''"

section \<open>Numbers\<close>

lemma log2_nat_bounds: "0 < n \<Longrightarrow> 2 ^ log2_nat n \<le> n \<and> n < 2 ^ Suc (log2_nat n)"
proof (induction n rule: log2_nat.induct)
  case (1 n)
  show ?case
  proof (cases "n < 2")
    case True
    then show ?thesis using 1(2) by (simp add: log2_nat.simps [of n])
  next
    case False
    then have "2 ^ log2_nat (n div 2) \<le> n div 2 \<and> n div 2 < 2 ^ Suc (log2_nat (n div 2))"
      using 1(1) by simp
    then have "2 * 2 ^ log2_nat (n div 2) \<le> n \<and> n < 2 * 2 ^ Suc (log2_nat (n div 2))" by linarith
    then show ?thesis using False by (simp add: log2_nat.simps [of n])
  qed
qed

lemma round_even_of_int [simp]: "round_even (of_int k) = k"
  by (simp add: round_even_def)

text \<open>An integer of at most 53 bits is a float; a larger one may be rounded.\<close>

lemma f64_of_int:
  assumes "\<bar>n\<bar> < 2 ^ 53"
  shows "f64 (of_int n) = of_int n"
proof (cases "n = 0")
  case True
  then show ?thesis by (simp add: f64_def)
next
  case False
  define l where "l = log2_nat (nat \<bar>n\<bar>)"
  have "2 ^ l \<le> nat \<bar>n\<bar>" using log2_nat_bounds [of "nat \<bar>n\<bar>"] False by (simp add: l_def)
  moreover have "nat \<bar>n\<bar> < 2 ^ 53" using assms by (simp add: nat_less_iff)
  ultimately have "(2::nat) ^ l < 2 ^ 53" by (rule le_less_trans)
  then have l: "l < 53" by (rule power_less_imp_less_exp [rotated]) simp
  have ab: "\<bar>of_int n\<bar> = (of_int \<bar>n\<bar> :: rat)" by simp
  have "(1::rat) \<le> of_int \<bar>n\<bar>" using False by simp
  then have e: "exponent \<bar>of_int n\<bar> = int l" unfolding ab by (simp only: exponent_def floor_of_int if_True l_def)
  obtain k where k: "l + k = 52" using l by (metis Suc_leI add_Suc_right le_add_diff_inverse plus_1_eq_Suc
        Suc_eq_plus1 eval_nat_numeral(3) less_Suc_eq_le numeral_eq_Suc)
  then have lk: "int l - 52 = - int k" "52 - int l = int k" by linarith+
  have p: "pow2 (int l - 52) = 1 / 2 ^ k" "pow2 (52 - int l) = 2 ^ k"
    using lk by (cases "k = 0"; simp add: pow2_def)+
  have "(of_int n :: rat) * 2 ^ k = of_int (n * 2 ^ k)" by simp
  then have "round_even (of_int n * 2 ^ k) = n * 2 ^ k" by (simp only: round_even_of_int)
  then show ?thesis using False by (simp add: f64_def e p Let_def)
qed

lemma float_text_of_int:
  "float_text (of_int n) = (if n < 0 then ''-'' else []) @ sprintf_d (nat \<bar>n\<bar>) @ ''.000000''"
proof -
  have "\<bar>of_int n\<bar> * 1000000 = (of_int (\<bar>n\<bar> * 1000000) :: rat)" by simp
  then have "round_even (\<bar>of_int n\<bar> * 1000000) = \<bar>n\<bar> * 1000000" by (simp only: round_even_of_int)
  then have "nat (round_even (\<bar>of_int n\<bar> * 1000000)) = nat \<bar>n\<bar> * 1000000" by (simp add: nat_mult_distrib)
  moreover have "sprintf_d 0 = ''0''" by code_simp
  moreover have "replicate 5 CHR ''0'' = ''00000''" by code_simp
  ultimately show ?thesis by (simp add: float_text_def Let_def)
qed

text \<open>A gauge of a count shows exactly the count.\<close>

lemma gauge_int_text:
  assumes "\<bar>sint v\<bar> < 2 ^ 53"
  shows "metric_gauge_int wr name v (Some c) =
    apsnd Some (send_msg wr (sc_namespace c @ name @ '':'' @
      (if sint v < 0 then ''-'' else []) @ sprintf_d (nat \<bar>sint v\<bar>) @ ''.000000|g'') c)"
  unfolding metric_gauge_int_def statsd_send_def metric_text_def f64_of_int [OF assms]
  by (simp only: option.case metric_value.case float_text_of_int append_assoc append.simps)
    (simp only: apsnd_def map_prod_def id_apply case_prod_beta Let_def)

section \<open>The datagrams\<close>

fun joined :: "string list \<Rightarrow> string" where
  "joined [] = []"
| "joined [x] = x"
| "joined (x # y # zs) = x @ newline @ joined (y # zs)"

lemma joined_snoc: "xs \<noteq> [] \<Longrightarrow> joined (xs @ [y]) = joined xs @ newline @ y"
  by (induction xs rule: joined.induct) auto

lemma length_newline [simp]: "length newline = 1"
  by (simp add: newline_def)

lemma joined_empty: "\<forall>x\<in>set xs. x \<noteq> [] \<Longrightarrow> joined xs = [] \<longleftrightarrow> xs = []"
  by (cases xs rule: joined.cases) auto

definition fitting :: "string \<Rightarrow> bool" where
  "fitting msg \<longleftrightarrow> msg \<noteq> [] \<and> length msg \<le> optimal_payload"

definition frame_of :: "string list \<Rightarrow> string \<times> nat" where
  "frame_of g = (joined g, length g)"

text \<open>The frames are the commands, cut into groups that fit into a datagram.\<close>

lemma join_frames_groups:
  "\<forall>cmd\<in>set (g @ cmds). fitting cmd \<Longrightarrow> length (joined g) \<le> optimal_payload \<Longrightarrow>
   \<exists>gs. concat gs = g @ cmds \<and> join_frames cmds (joined g) (length g) = map frame_of gs \<and>
     (\<forall>x\<in>set gs. x \<noteq> [] \<and> length (joined x) \<le> optimal_payload)"
proof (induction cmds arbitrary: g)
  case Nil
  then show ?case
    by (intro exI [of _ "if g = [] then [] else [g]"]) (auto simp: fitting_def joined_empty frame_of_def)
next
  case (Cons cmd cmds)
  let ?fits = "length (joined g) + (if length g = 0 then length cmd else length cmd + 1) \<le> optimal_payload"
  show ?case
  proof (cases ?fits)
    case True
    have j: "(if length g = 0 then joined g @ cmd else joined g @ newline @ cmd) = joined (g @ [cmd])"
      by (simp add: joined_snoc)
    have "length (joined (g @ [cmd])) \<le> optimal_payload" using True by (cases "g = []") (simp_all add: joined_snoc)
    with Cons.IH [of "g @ [cmd]"] Cons.prems(1) show ?thesis using True
      by (simp only: join_frames.simps if_True j length_append list.size append_assoc append.simps set_append) simp
  next
    case False
    have "length (joined [cmd]) \<le> optimal_payload" "g \<noteq> []" using Cons.prems False by (auto simp: fitting_def)
    with Cons.IH [of "[cmd]"] Cons.prems(1) obtain gs where gs: "concat gs = cmd # cmds"
      "join_frames cmds cmd 1 = map frame_of gs" "\<forall>x\<in>set gs. x \<noteq> [] \<and> length (joined x) \<le> optimal_payload"
      by auto
    have "join_frames (cmd # cmds) (joined g) (length g) = frame_of g # map frame_of gs"
      using False gs(2) by (simp only: join_frames.simps if_False frame_of_def)
    then show ?thesis using gs Cons.prems(2) \<open>g \<noteq> []\<close> by (intro exI [of _ "g # gs"]) auto
  qed
qed

lemma write_frames_all:
  "\<forall>k. wr k = None \<Longrightarrow>
   write_frames wr frames c n = (None, n + sum_list (map snd frames),
     c\<lparr>sc_writes := sc_writes c + length frames, sc_sent := sc_sent c @ map fst frames\<rparr>)"
  by (induction frames arbitrary: c n) auto

lemma write_frames_commands:
  "write_frames wr frames c n = (e, k, c1) \<Longrightarrow>
     sc_commands c1 = sc_commands c \<and> sc_namespace c1 = sc_namespace c \<and> sc_buffer_length c1 = sc_buffer_length c"
  by (induction frames arbitrary: c n) (auto split: option.splits)

text \<open>A full buffer is flushed at once; what an error leaves is shorter by a command at least.\<close>

lemma flush_shrinks:
  assumes "flush_locked wr c = (e, c1)"
  shows "sc_commands c1 = [] \<or> length (sc_commands c1) < length (sc_commands c)"
    and "sc_buffer_length c1 = sc_buffer_length c" and "sc_namespace c1 = sc_namespace c"
  using assms write_frames_commands
  by (force simp: flush_locked_def split: prod.splits if_splits)+

lemma flush_keeps [simp]:
  "sc_buffer_length (snd (flush_locked wr c)) = sc_buffer_length c"
  "sc_namespace (snd (flush_locked wr c)) = sc_namespace c"
  using flush_shrinks(2,3) [of wr c] by (metis surj_pair snd_conv)+

definition buffer_ok :: "statsd \<Rightarrow> bool" where
  "buffer_ok c \<longleftrightarrow> length (sc_commands c) < sc_buffer_length c"

lemma send_buffer_ok:
  assumes "buffer_ok c" and "statsd_send wr name v suffix (Some c) = (e, Some c1)"
  shows "buffer_ok c1"
proof (cases "max_udp_payload < length (metric_text c name v suffix)")
  case True
  then show ?thesis using assms by (simp add: statsd_send_def send_msg_def)
next
  case False
  let ?c = "c\<lparr>sc_commands := sc_commands c @ [metric_text c name v suffix]\<rparr>"
  show ?thesis
  proof (cases "length (sc_commands ?c) = sc_buffer_length ?c")
    case True
    then obtain e2 where "flush_locked wr ?c = (e2, c1)"
      using assms(2) False by (auto simp: statsd_send_def send_msg_def append_command_def Let_def split: prod.splits)
    from flush_shrinks(1,2) [OF this] True assms(1) show ?thesis by (auto simp: buffer_ok_def)
  next
    case False2: False
    then show ?thesis using assms False
      by (auto simp: statsd_send_def send_msg_def append_command_def Let_def buffer_ok_def)
  qed
qed

section \<open>Nothing is lost\<close>

text \<open>The calls on the client of a process, in the order of its lock, and the ticks of \<open>watch\<close>.\<close>

datatype metric_op = Send_Metric string metric_value string | Watch_Tick

fun metrics_run :: "(nat \<Rightarrow> 'e option) \<Rightarrow> metric_op list \<Rightarrow> statsd option \<Rightarrow> statsd option" where
  "metrics_run wr [] co = co"
| "metrics_run wr (Send_Metric name v suffix # ops) co = metrics_run wr ops (snd (statsd_send wr name v suffix co))"
| "metrics_run wr (Watch_Tick # ops) co = metrics_run wr ops (map_option (watch_tick wr) co)"

text \<open>The messages of the calls.\<close>

fun messages :: "statsd \<Rightarrow> metric_op list \<Rightarrow> string list" where
  "messages c [] = []"
| "messages c (Send_Metric name v suffix # ops) = metric_text c name v suffix # messages c ops"
| "messages c (Watch_Tick # ops) = messages c ops"

text \<open>What went out as datagrams of whole messages, and what waits in the buffer.\<close>

definition delivered :: "statsd \<Rightarrow> string list \<Rightarrow> bool" where
  "delivered c msgs \<longleftrightarrow>
     (\<exists>gs. sc_sent c = map joined gs \<and> concat gs @ sc_commands c = msgs \<and>
        (\<forall>g\<in>set gs. g \<noteq> [] \<and> length (joined g) \<le> optimal_payload))"

lemma flush_delivered:
  assumes "\<forall>k. wr k = None" and "delivered c msgs" and "\<forall>msg\<in>set (sc_commands c). fitting msg"
  shows "delivered (snd (flush_locked wr c)) msgs" and "fst (flush_locked wr c) = None"
    and "sc_commands (snd (flush_locked wr c)) = []"
proof -
  obtain gs where gs: "concat gs = sc_commands c" "join_frames (sc_commands c) [] 0 = map frame_of gs"
    "\<forall>g\<in>set gs. g \<noteq> [] \<and> length (joined g) \<le> optimal_payload"
    using join_frames_groups [of "[]" "sc_commands c"] assms(3) by (auto simp: optimal_payload_def)
  have len: "sum_list (map snd (map frame_of gs)) = length (sc_commands c)"
    unfolding gs(1) [symmetric] by (simp add: length_concat frame_of_def comp_def)
  have f: "flush_locked wr c = (None, c\<lparr>sc_commands := [], sc_sent := sc_sent c @ map joined gs,
      sc_writes := sc_writes c + length gs\<rparr>)"
    by (simp only: flush_locked_def gs(2) write_frames_all [OF assms(1)] len Let_def prod.case add_0_left if_True)
      (simp add: frame_of_def comp_def)
  obtain gs0 where "sc_sent c = map joined gs0" "concat gs0 @ sc_commands c = msgs"
    "\<forall>g\<in>set gs0. g \<noteq> [] \<and> length (joined g) \<le> optimal_payload"
    using assms(2) by (auto simp: delivered_def)
  with gs show "delivered (snd (flush_locked wr c)) msgs"
    unfolding f delivered_def by (intro exI [of _ "gs0 @ gs"]) auto
  show "fst (flush_locked wr c) = None" "sc_commands (snd (flush_locked wr c)) = []" by (simp_all add: f)
qed

definition sending :: "statsd \<Rightarrow> string \<Rightarrow> string list \<Rightarrow> bool" where
  "sending c ns msgs \<longleftrightarrow>
     sc_namespace c = ns \<and> sc_buffer_length c = 500 \<and> buffer_ok c \<and> (\<forall>msg\<in>set (sc_commands c). fitting msg) \<and> delivered c msgs"

lemma send_delivered:
  assumes wr: "\<forall>k. wr k = None" and c: "sending c ns msgs" and fit: "fitting (metric_text c name v suffix)"
  shows "\<exists>c1. statsd_send wr name v suffix (Some c) = (None, Some c1) \<and>
    sending c1 ns (msgs @ [metric_text c name v suffix])"
proof -
  let ?t = "metric_text c name v suffix"
  let ?c = "c\<lparr>sc_commands := sc_commands c @ [?t]\<rparr>"
  have d: "delivered ?c (msgs @ [?t])" using c unfolding sending_def delivered_def by auto
  have fits: "\<forall>msg\<in>set (sc_commands ?c). fitting msg" using c fit by (auto simp: sending_def)
  have short: "\<not> max_udp_payload < length ?t"
    using fit by (simp add: fitting_def optimal_payload_def max_udp_payload_def)
  obtain c1 where s: "statsd_send wr name v suffix (Some c) = (None, Some c1)"
    "c1 = (if length (sc_commands ?c) = sc_buffer_length ?c then snd (flush_locked wr ?c) else ?c)"
    using short flush_delivered(2) [OF wr d fits]
    by (cases "flush_locked wr ?c") (auto simp: statsd_send_def send_msg_def append_command_def Let_def)
  have "buffer_ok c" using c by (simp add: sending_def)
  from send_buffer_ok [OF this s(1)] have "buffer_ok c1" .
  moreover have "delivered c1 (msgs @ [?t])" unfolding s(2) using flush_delivered(1) [OF wr d fits] d by simp
  moreover have "\<forall>msg\<in>set (sc_commands c1). fitting msg"
    unfolding s(2) using flush_delivered(3) [OF wr d fits] fits by simp
  moreover have "sc_namespace c1 = ns" "sc_buffer_length c1 = 500"
    unfolding s(2) using c by (simp_all add: sending_def)
  ultimately show ?thesis using s(1) by (auto simp: sending_def)
qed

lemma tick_delivered:
  assumes wr: "\<forall>k. wr k = None" and c: "sending c ns msgs"
  shows "sending (watch_tick wr c) ns msgs"
proof -
  have "delivered (snd (flush_locked wr c)) msgs" "sc_commands (snd (flush_locked wr c)) = []"
    using flush_delivered(1,3) [OF wr, of c msgs] c by (simp_all add: sending_def)
  then show ?thesis using c by (simp add: watch_tick_def sending_def buffer_ok_def)
qed

lemma metrics_run_sending:
  assumes wr: "\<forall>k. wr k = None"
  shows "sending c ns msgs \<Longrightarrow> \<forall>msg\<in>set (messages c ops). fitting msg \<Longrightarrow>
    \<exists>c1. metrics_run wr ops (Some c) = Some c1 \<and> sending c1 ns (msgs @ messages c ops)"
proof (induction ops arbitrary: c msgs)
  case (Cons op ops)
  have same: "messages c1 ops = messages c ops" if "sc_namespace c1 = sc_namespace c" for c1 c :: statsd and ops
    using that by (induction c ops rule: messages.induct) (auto simp: metric_text_def)
  show ?case
  proof (cases op)
    case (Send_Metric name v suffix)
    with Cons.prems(2) have "fitting (metric_text c name v suffix)" by simp
    with send_delivered [OF wr Cons.prems(1)] obtain c1
      where c1: "statsd_send wr name v suffix (Some c) = (None, Some c1)"
        "sending c1 ns (msgs @ [metric_text c name v suffix])" by blast
    with Cons.prems same [of c1 c ops] have "messages c1 ops = messages c ops" by (simp add: sending_def)
    with Cons.IH [OF c1(2)] Cons.prems(2) c1(1) Send_Metric show ?thesis by simp
  next
    case Watch_Tick
    have t: "sending (watch_tick wr c) ns msgs" by (rule tick_delivered [OF wr Cons.prems(1)])
    with Cons.prems same [of "watch_tick wr c" c ops] have "messages (watch_tick wr c) ops = messages c ops"
      by (simp add: sending_def)
    with Cons.IH [OF t] Cons.prems(2) Watch_Tick show ?thesis by simp
  qed
qed simp

text \<open>
  From \<open>InitMetrics\<close> on, while no write fails, every metric goes out once and in order, in
  datagrams of whole messages of at most 1432 bytes, or is one of less than 500 that wait for
  the next tick. What waits when a command returns is lost: nothing flushes the client.
\<close>

lemma metrics_delivered:
  assumes "init_metrics (None :: 'e option) None = Some (Some c)" and "\<forall>k. wr k = (None :: 'e option)"
    and "\<forall>msg\<in>set (messages c ops). fitting msg"
  shows "\<exists>c1. metrics_run wr ops (Some c) = Some c1 \<and> delivered c1 (messages c ops) \<and> length (sc_commands c1) < 500"
proof -
  have run: "\<exists>c1. metrics_run wr ops (Some c) = Some c1 \<and> sending c1 ''chronomq'' ([] @ messages c ops)"
    by (rule metrics_run_sending [OF assms(2) _ assms(3)])
      (use assms(1) in \<open>auto simp: sending_def init_metrics_def buffer_ok_def delivered_def\<close>)
  then show ?thesis by (auto simp: sending_def buffer_ok_def)
qed

text \<open>The name of a metric is the namespace and the name given, with nothing between.\<close>

lemma metric_incr_text:
  assumes "init_metrics (None :: 'e option) None = Some (Some c)"
  shows "metric_text c name No_Value ''1|c'' = ''chronomq'' @ name @ '':1|c''"
  using assms by (auto simp: init_metrics_def metric_text_def)

lemma init_metrics_twice: "init_metrics opened co = Some co1 \<Longrightarrow> init_metrics opened2 co1 = Some co1"
  by (auto simp: init_metrics_def split: option.splits)

lemma metric_before_init: "metric_incr wr name None = (Some Client_Nil, None)"
  by (simp add: metric_incr_def statsd_send_def)

end
