(* ===== verification/Server_Command.thy ===== *)
theory Server_Command
  imports Server_App
begin

text \<open>
  The command \<open>server\<close> from its flags to the running process: the configuration with its
  defaults, the bucket that the store URL and the prefix name, and the hub's options.
\<close>

section \<open>Flags\<close>

text \<open>\<open>addrs\<close> and \<open>config\<close> with the values they have when no flag is given.\<close>

record addrs =
  ad_rpc :: string
  ad_grpc :: string
  ad_stats :: string

definition default_addrs :: addrs where
  "default_addrs = \<lparr>ad_rpc = '':11301'', ad_grpc = '':9999'', ad_stats = '':8125''\<rparr>"

record config =
  cfg_addrs :: addrs
  cfg_url :: string
  cfg_prefix :: string
  cfg_restore :: bool
  cfg_spoke_span :: duration

definition default_config :: "string \<Rightarrow> config" where
  "default_config cwd = \<lparr>cfg_addrs = default_addrs, cfg_url = cwd, cfg_prefix = '''', cfg_restore = False,
     cfg_spoke_span = second * 10\<rparr>"

definition app_opts :: "config \<Rightarrow> hub_opts" where
  "app_opts cfg = \<lparr>ho_attempt_restore = cfg_restore cfg, ho_spoke_span = cfg_spoke_span cfg,
     ho_max_cf_size = default_max_cf_size\<rparr>"

section \<open>The bucket\<close>

text \<open>
  \<open>blob.OpenBucket\<close> of a URL with a prefix opens the bucket without it and puts a prefixed
  bucket in front; \<open>NewBlobStore\<close> puts \<open>journal/\<close> in front of that.
\<close>

definition opened_bucket :: "'e \<Rightarrow> ('b, 'w, 'e) bucket_ops \<Rightarrow> url \<Rightarrow> ('b, 'w, 'e) bucket_ops" where
  "opened_bucket bad_key B u =
     (if bucket_prefix u \<noteq> [] then prefixed_bucket bad_key (bucket_prefix u) B else B)"

definition store_bucket :: "'e \<Rightarrow> ('b, 'w, 'e) bucket_ops \<Rightarrow> url \<Rightarrow> ('b, 'w, 'e) bucket_ops" where
  "store_bucket bad_key B u = prefixed_bucket bad_key ''journal/'' (opened_bucket bad_key B u)"

datatype ('p, 'e) server_error = Config_Failed "'p config_error" | Storage_Failed "'e blob_error"

text \<open>
  The command: \<open>parse\<close> and \<open>render\<close> are \<open>url.Parse\<close> and \<open>URL.String\<close>, \<open>open_url\<close> opens the bucket
  of a URL. Both errors end the process before it serves: without a store \<open>NewJournalPersister\<close>
  calls a method of nil, should the fatal error not exit.
\<close>

definition server_run ::
  "'e \<Rightarrow> ('b, 'w, 'e) bucket_ops \<Rightarrow> (string \<Rightarrow> 'p + url) \<Rightarrow> (url \<Rightarrow> string) \<Rightarrow> (url \<Rightarrow> 'e + 'b) \<Rightarrow> string \<Rightarrow>
   (nat \<Rightarrow> nat \<Rightarrow> nat) \<Rightarrow> monitor \<Rightarrow> 'r \<Rightarrow> instant \<Rightarrow> instant \<Rightarrow> config \<Rightarrow>
   ('p, 'e) server_error + (cuckoo \<times> 'r, ('b, 'w) blob_store, 'e blob_error) app" where
  "server_run bad_key B parse render open_url now sizes m tape now1 now2 cfg =
     (case pre_run (parse (cfg_url cfg)) (cfg_prefix cfg) of
        Inl e \<Rightarrow> Inl (Config_Failed e)
      | Inr (u, p) \<Rightarrow>
          (case start_app (blob_storage (store_bucket bad_key B u) now) sizes (app_opts cfg) m tape now1 now2
                  (new_blob_store bad_key (opened_bucket bad_key B u) (render u) (open_url u) now) of
             Inl e \<Rightarrow> Inl (Storage_Failed e)
           | Inr a \<Rightarrow> Inr a))"

text \<open>The key of the snapshot in the bucket of the URL.\<close>

definition snapshot_key :: "url \<Rightarrow> string" where
  "snapshot_key u = bucket_prefix u @ ''journal/'' @ data_key"

section \<open>Prefixed buckets\<close>


context blob_bucket
begin

text \<open>A prefixed bucket keeps the promises of the bucket, for the keys with the prefix.\<close>

lemma prefixed_ok:
  "blob_bucket (prefixed_bucket bad_key p B) (\<lambda>b k. blobs b (p @ k))
     (\<lambda>w. (drop (length p) (fst (pend w)), snd (pend w))) (\<lambda>w. writing w \<and> take (length p) (fst (pend w)) = p)"
proof unfold_locales
  fix w b e b'
  assume w: "writing w \<and> take (length p) (fst (pend w)) = p"
    and c: "bk_writer_close (prefixed_bucket bad_key p B) (w, b) = (e, b')"
  obtain k where k: "fst (pend w) = p @ k" using w by (metis append_take_drop_id)
  have "bk_writer_close B (w, b) = (e, b')" using c by (simp add: prefixed_bucket_def)
  from writer_close_ok [OF conjunct1 [OF w] this] k
  show "e = None \<and> (\<lambda>k. blobs b' (p @ k)) = (\<lambda>k. blobs b (p @ k))
      (fst (drop (length p) (fst (pend w)), snd (pend w)) \<mapsto> snd (drop (length p) (fst (pend w)), snd (pend w)))"
    by (auto simp: fun_eq_iff)
next
  fix k b
  show "k \<noteq> [] \<Longrightarrow> \<exists>w. bk_new_writer (prefixed_bucket bad_key p B) k b = Inr w \<and>
      (writing w \<and> take (length p) (fst (pend w)) = p) \<and> (drop (length p) (fst (pend w)), snd (pend w)) = (k, [])"
    using new_writer_ok [of "p @ k" b] by (auto simp: prefixed_bucket_def)
next
  fix k b d
  show "blobs b (p @ k) = Some d \<Longrightarrow> bk_new_reader (prefixed_bucket bad_key p B) k b = Inr (d, None)"
    by (simp add: prefixed_bucket_def new_reader_ok)
next
  fix k b d e b'
  assume "k \<noteq> []" and "bk_write_all (prefixed_bucket bad_key p B) k d b = (e, b')"
  then have "bk_write_all B (p @ k) d b = (e, b')" "p @ k \<noteq> []" by (simp_all add: prefixed_bucket_def)
  from write_all_ok [OF this(2,1)] show "e = None \<and> (\<lambda>k. blobs b' (p @ k)) = (\<lambda>k. blobs b (p @ k))(k \<mapsto> d)"
    by (auto simp: fun_eq_iff)
next
  fix k b e b'
  assume n: "blobs b (p @ k) \<noteq> None" and "bk_delete (prefixed_bucket bad_key p B) k b = (e, b')"
  then have "bk_delete B (p @ k) b = (e, b')" by (simp add: prefixed_bucket_def)
  from delete_ok [OF n this] show "e = None \<and> (\<lambda>k. blobs b' (p @ k)) = (\<lambda>k. blobs b (p @ k))(k := None)"
    by (auto simp: fun_eq_iff)
next
  fix w d b e w' b'
  assume w: "writing w \<and> take (length p) (fst (pend w)) = p"
    and "bk_writer_write (prefixed_bucket bad_key p B) d (w, b) = (e, w', b')"
  then have "bk_writer_write B d (w, b) = (e, w', b')" by (simp add: prefixed_bucket_def)
  from writer_write_ok [OF conjunct1 [OF w] this] w
  show "e = None \<and> (writing w' \<and> take (length p) (fst (pend w')) = p) \<and>
      (drop (length p) (fst (pend w')), snd (pend w')) =
        (fst (drop (length p) (fst (pend w)), snd (pend w)), snd (drop (length p) (fst (pend w)), snd (pend w)) @ d) \<and>
      (\<lambda>k. blobs b' (p @ k)) = (\<lambda>k. blobs b (p @ k))"
    by auto
qed (simp_all add: prefixed_bucket_def exists_ok read_all_ok)

lemma store_bucket_ok:
  obtains pend' writing' where "blob_bucket (store_bucket bad_key B u)
    (\<lambda>b k. blobs b (bucket_prefix u @ ''journal/'' @ k)) pend' writing'"
proof (cases "bucket_prefix u = []")
  case True
  then have "store_bucket bad_key B u = prefixed_bucket bad_key ''journal/'' B"
    by (simp add: store_bucket_def opened_bucket_def)
  then show ?thesis using that prefixed_ok [of bad_key "''journal/''"] True by simp
next
  case False
  then have s: "store_bucket bad_key B u =
      prefixed_bucket bad_key ''journal/'' (prefixed_bucket bad_key (bucket_prefix u) B)"
    by (simp add: store_bucket_def opened_bucket_def)
  show ?thesis
    by (rule that, unfold s)
      (rule blob_bucket.prefixed_ok [OF prefixed_ok [of bad_key "bucket_prefix u"], of bad_key "''journal/''"])
qed

end

section \<open>From the flags to the process\<close>

text \<open>
  The span is not checked. With one that is not positive no future job is ever accepted: no
  bound lies on its grid, so there is no spoke but the past one.
\<close>

lemma nonpositive_span_rejects:
  assumes wf: "hub_wf h" and span: "sint (spoke_span h) \<le> 0" and future: "now < trigger_at j"
  shows "\<exists>e. hub_add F rank now j h = (Some e, h)"
proof (cases rule: hub_add_cases [OF wf, of F rank now j])
  case (3 ok h1)
  then have "accepts now j h" by simp
  then obtain c where "current_spoke h = Some c" using span future by (auto simp: accepts_def split: if_splits)
  from current_in_map [OF wf this] obtain b where "(b, c) \<in> set (spoke_map h)" by auto
  from map_aligned [OF wf this] span show ?thesis by (simp add: aligned_def)
qed auto

text \<open>A prefix flag with and without the slash at its end name the same store.\<close>

definition with_slash :: "string \<Rightarrow> string" where
  "with_slash p = (if p \<noteq> [] \<and> last p = slash then p else p @ [slash])"

lemma pre_run_slash: "with_slash p = with_slash q \<Longrightarrow> pre_run parsed p = pre_run parsed q"
  by (auto simp: pre_run_def with_slash_def Let_def split: sum.splits)

lemma server_run_starts:
  assumes "server_run bad_key B parse render open_url now sizes m tape now1 now2 cfg = Inr a"
    and "pre_run (parse (cfg_url cfg)) (cfg_prefix cfg) = Inr (u, p)"
  obtains st where "start_app (blob_storage (store_bucket bad_key B u) now) sizes (app_opts cfg) m tape now1 now2
      (Inr st :: 'e blob_error + ('b, 'w) blob_store) = Inr a"
  using assms by (auto simp: server_run_def start_app_def split: sum.splits)

text \<open>On a bucket that keeps its promises the command starts, with the snapshot it finds.\<close>

lemma server_run_ok:
  assumes "blob_bucket B blobs pend writing" and "pre_run (parse (cfg_url cfg)) (cfg_prefix cfg) = Inr (u, p)"
    and "open_url u = Inr b"
  obtains st a where
    "server_run bad_key B parse render open_url now sizes m tape now1 now2 cfg = Inr a"
    "start_app (blob_storage (store_bucket bad_key B u) now) sizes (app_opts cfg) m tape now1 now2
       (Inr st :: 'e blob_error + ('b, 'w) blob_store) = Inr a"
    "blobs (bs_bucket st) (snapshot_key u) = blobs b (snapshot_key u)"
proof -
  obtain pend' writing' where ok: "blob_bucket (store_bucket bad_key B u)
      (\<lambda>b k. blobs b (bucket_prefix u @ ''journal/'' @ k)) pend' writing'"
    by (rule blob_bucket.store_bucket_ok [OF assms(1)])
  let ?s0 = "\<lparr>bs_bucket = b, bs_url = render u, bs_writer = None\<rparr> :: ('b, 'w) blob_store"
  obtain st where st: "bs_verify_access (store_bucket bad_key B u) now ?s0 = (None, st)"
    "(\<lambda>k. blobs (bs_bucket st) (bucket_prefix u @ ''journal/'' @ k)) =
       (\<lambda>k. blobs (bs_bucket ?s0) (bucket_prefix u @ ''journal/'' @ k))(verify_access_key := None)"
    by (rule blob_bucket.verify_access_ok [OF ok])
  have new: "new_blob_store bad_key (opened_bucket bad_key B u) (render u) (open_url u) now = Inr st"
    using st(1) by (simp add: new_blob_store_def assms(3) store_bucket_def)
  have "blobs (bs_bucket st) (snapshot_key u) = blobs b (snapshot_key u)"
    using fun_cong [OF st(2), of data_key] by (simp add: snapshot_key_def data_key_def verify_access_key_def)
  moreover obtain a where a: "start_app (blob_storage (store_bucket bad_key B u) now) sizes (app_opts cfg) m tape now1 now2
      (Inr st :: 'e blob_error + ('b, 'w) blob_store) = Inr a"
    by (simp add: start_app_def Let_def)
  moreover have "server_run bad_key B parse render open_url now sizes m tape now1 now2 cfg = Inr a"
    by (simp add: server_run_def assms(2) new a)
  ultimately show ?thesis using that by blast
qed

text \<open>The steps of the restore in a row.\<close>

definition restored_app ::
  "'f filter_ops \<Rightarrow> (nat \<Rightarrow> bound \<Rightarrow> nat) \<Rightarrow> (nat \<Rightarrow> instant) \<Rightarrow> nat \<Rightarrow> ('f, 's, 'e) app \<Rightarrow> ('f, 's, 'e) app" where
  "restored_app F ranks clk k a = a\<lparr>app_restoring := [], app_server := app_server a\<lparr>srv_hub :=
     fold (\<lambda>(i, b). restore_one F (ranks i) (clk i) b) (enumerate k (app_restoring a)) (srv_hub (app_server a))\<rparr>\<rparr>"

lemma restore_steps: "app_phase a \<noteq> Crashed \<Longrightarrow> app_reach F S a (restored_app F ranks clk k a)"
proof (induction "app_restoring a" arbitrary: a k)
  case Nil
  then have "restored_app F ranks clk k a = a" by (simp add: restored_app_def)
  then show ?case using reach_start by simp
next
  case (Cons b bs)
  let ?a = "a\<lparr>app_restoring := bs,
      app_server := app_server a\<lparr>srv_hub := restore_one F (ranks k) (clk k) b (srv_hub (app_server a))\<rparr>\<rparr>"
  have step: "app_step F S a ?a" by (rule restore) (use Cons.hyps(2) Cons.prems in simp_all)
  have "app_reach F S ?a (restored_app F ranks clk (Suc k) ?a)"
    by (rule Cons.hyps(1)) (use Cons.prems in simp_all)
  moreover have "restored_app F ranks clk (Suc k) ?a = restored_app F ranks clk k a"
    by (simp add: restored_app_def flip: Cons.hyps(2))
  ultimately show ?case using app_reach_first step by metis
qed

text \<open>A new process reads what a save left, and restores it into its hub.\<close>

lemma start_reads:
  assumes "blob_bucket B blobs pend writing" and "saveable h0 h" and "hub_jobs h \<noteq> {#}" and "ho_attempt_restore opts"
    and "hub_stop (journal_ops (blob_storage B t) sz) True h (new_journal_persister s) = (n, lp)"
    and "blobs (bs_bucket st) data_key = blobs (bs_bucket (jp_storage lp)) data_key"
    and "start_app (blob_storage B now) sizes opts m tape now1 now2 (Inr st) = Inr a"
  obtains bufs where "list_all2 (\<lambda>j b. gob_encode j = Inr b) (persist_order h) bufs" "app_restoring a = bufs"
    "srv_hub (app_server a) = new_hub_opts opts tape now1 now2"
proof -
  obtain lp' bufs where l: "hub_stop (journal_ops (blob_storage B t) sz) True h (new_journal_persister s) = (0, lp')"
    "\<And>now sizes. p_recover (journal_ops (blob_storage B now) sizes) (new_journal_persister (jp_storage lp')) = Inr bufs"
    "list_all2 (\<lambda>j b. gob_encode j = Inr b) (persist_order h) bufs"
    using stop_saves [OF assms(1-3), of t sz s] by metis
  have "jp_recover (blob_storage B now) sizes (new_journal_persister st) = Inr bufs"
    using l(1) l(2) [of now sizes] assms(5,6)
    by (simp add: blob_bucket.jp_recover_blob [OF assms(1)] journal_ops_def new_journal_persister_def)
  with l(3) assms(4,7) show ?thesis by (intro that) (auto simp: start_app_def Let_def)
qed

definition restore_ops :: "(nat \<Rightarrow> bound \<Rightarrow> nat) \<Rightarrow> (nat \<Rightarrow> instant) \<Rightarrow> nat \<Rightarrow> job list \<Rightarrow> hub_op list" where
  "restore_ops ranks clk k js = map (\<lambda>(i, j). OpAdd (ranks i) (clk i) j) (enumerate k js)"

lemma restore_fold_run:
  "list_all2 (\<lambda>j b. gob_encode j = Inr b) js bs \<Longrightarrow> \<forall>j \<in> set js. unix_range (trigger_at j) \<Longrightarrow>
   \<exists>rs. hub_run F (restore_ops ranks clk k js) h =
     Some (rs, fold (\<lambda>(i, b). restore_one F (ranks i) (clk i) b) (enumerate k bs) h)"
proof (induction arbitrary: k h rule: list_all2_induct)
  case (Cons j js b bs)
  obtain e h1 where h1: "hub_add F (ranks k) (clk k) j h = (e, h1)" by fastforce
  have "gob_decode b zero_job = (None, j)" using gob_round_trip [OF Cons.hyps(1)] Cons.prems by simp
  then have "restore_one F (ranks k) (clk k) b h = h1" by (simp add: restore_one_def h1)
  with Cons.IH [of "Suc k" h1] Cons.prems h1 show ?case by (auto simp: restore_ops_def)
qed (simp add: restore_ops_def)

lemma start_restores_run:
  assumes "blob_bucket B blobs pend writing" and "saveable (new_hub_opts opts tape now1 now2) h"
    and "hub_jobs h \<noteq> {#}" and "ho_attempt_restore opts"
    and "hub_stop (journal_ops (blob_storage B t) sz) True h (new_journal_persister s) = (n, lp)"
    and "blobs (bs_bucket st) data_key = blobs (bs_bucket (jp_storage lp)) data_key"
    and "start_app (blob_storage B now) sizes opts m tape now1 now2 (Inr st) = Inr a"
  shows "\<exists>rs. hub_run F (restore_ops ranks clk 0 (persist_order h)) (new_hub_opts opts tape now1 now2) =
    Some (rs, srv_hub (app_server (restored_app F ranks clk 0 a)))"
proof -
  obtain bufs where b: "list_all2 (\<lambda>j b. gob_encode j = Inr b) (persist_order h) bufs" "app_restoring a = bufs"
    "srv_hub (app_server a) = new_hub_opts opts tape now1 now2" by (rule start_reads [OF assms])
  have "\<forall>j \<in> set (persist_order h). unix_range (trigger_at j)"
    using saveable_jobs(3) [OF assms(2)] by (simp add: restorable_def)
  from restore_fold_run [OF b(1) this, of F ranks clk 0] b(2,3) show ?thesis by (simp add: restored_app_def)
qed

lemma start_restores:
  assumes "blob_bucket B blobs pend writing" and "saveable (new_hub_opts opts tape now1 now2) h"
    and "hub_jobs h \<noteq> {#}" and "0 < sint (ho_spoke_span opts)" and "ho_attempt_restore opts"
    and "hub_stop (journal_ops (blob_storage B t) sz) True h (new_journal_persister s) = (n, lp)"
    and "blobs (bs_bucket st) data_key = blobs (bs_bucket (jp_storage lp)) data_key"
    and "start_app (blob_storage B now) sizes opts m tape now1 now2 (Inr st) = Inr a"
  shows "hub_jobs (srv_hub (app_server (restored_app F ranks clk 0 a))) = hub_jobs h"
proof -
  obtain bufs where b: "list_all2 (\<lambda>j b. gob_encode j = Inr b) (persist_order h) bufs" "app_restoring a = bufs"
    "srv_hub (app_server a) = new_hub_opts opts tape now1 now2" by (rule start_reads [OF assms(1-3,5-8)])
  note js = saveable_jobs [OF assms(2)]
  let ?c = "\<lparr>decode_errors = 0, add_errors = 0, recovered = 0\<rparr>" and ?h0 = "new_hub_opts opts tape now1 now2"
  have "hub_wf ?h0" "0 < sint (spoke_span ?h0)" "hub_ids ?h0 = {#}"
    using assms(4) by (simp_all add: new_hub_opts_def new_hub_wf new_hub_jobs hub_ids_def) (simp add: new_hub_def)
  then obtain h' where "restore_loop F ranks clk 0 bufs ?c ?h0 = (?c\<lparr>recovered := recovered ?c + length (persist_order h)\<rparr>, h')"
    "hub_jobs h' = mset (persist_order h) + hub_jobs ?h0"
    using restore_loop_all [OF _ _ js(2) _ js(3) b(1), of F ranks clk 0 ?c] by fastforce
  then show ?thesis
    using restore_loop_steps [of F ranks clk 0 bufs ?c ?h0] b(2,3) js(1)
    by (simp add: restored_app_def new_hub_opts_def new_hub_jobs)
qed

text \<open>A process that has served one request over RPC and is about to save.\<close>

lemma run_to_save:
  assumes "app_phase a0 = Serving" and "app_rpc a0 = Starting" and "app_grpc a0 = Starting"
    and "app_grpc_calls a0 = {#}" and "rpc_call_begins c" and "call_runs F c (app_server a0) s"
  obtains a where "app_reach F S a0 a" "app_phase a = Grpc_Stopped" "app_server a = s"
    "app_persister a = app_persister a0"
proof -
  let ?a1 = "a0\<lparr>app_rpc := Server_App.serve_rpc None\<rparr>"
  let ?a2 = "?a1\<lparr>app_grpc := Server_App.serve_grpc None\<rparr>"
  let ?a3 = "?a2\<lparr>app_conns := app_conns ?a2 + 1\<rparr>"
  let ?a4 = "?a3\<lparr>app_server := s\<rparr>"
  let ?a5 = "?a4\<lparr>app_phase := Rpc_Closed\<rparr>"
  let ?a6 = "?a5\<lparr>app_phase := Grpc_Stopped\<rparr>"
  have l: "Server_App.serve_rpc None = Listening" "Server_App.serve_grpc None = Listening"
    by (simp_all add: serve_rpc_def serve_grpc_def)
  have "app_reach F S a0 ?a1" by (rule reach_step [OF reach_start listen_rpc]) (simp_all add: assms)
  then have "app_reach F S a0 ?a2" by (rule reach_step) (rule listen_grpc, simp_all add: assms)
  then have 3: "app_reach F S a0 ?a3" by (rule reach_step) (rule connect, simp_all add: assms l)
  have "app_reach F S ?a3 ?a4" by (rule rpc_call_alone [where c = c]) (simp_all add: assms)
  from app_reach_trans [OF this 3]
  have "app_reach F S a0 ?a5" by (rule reach_step) (use close_rpc [of ?a4 F S] assms(1) in \<open>simp add: l\<close>)
  then have "app_reach F S a0 ?a6" by (rule reach_step) (use stop_grpc [of ?a5 F S] assms(4) in \<open>simp add: l\<close>)
  then show ?thesis by (rule that) simp_all
qed

end
