(* ===== verification/Command_Flags.thy ===== *)
theory Command_Flags
  imports Command_Line Loadtest_Run Metrics Server_Command
begin

text \<open>
  What the commands have in common before they run (\<open>cmd/root.go\<close>): the log level and the
  metrics; the values of their flags when none is given; the start of the load test; and when
  a fatal error does not end the process.
\<close>

section \<open>The log level\<close>

text \<open>The levels of \<open>zerolog\<close>, and the order in which they are compared.\<close>

datatype log_level = Debug_Level | Info_Level | Warn_Level | Error_Level | Fatal_Level | Panic_Level | No_Level

fun level_number :: "log_level \<Rightarrow> nat" where
  "level_number Debug_Level = 0"
| "level_number Info_Level = 1"
| "level_number Warn_Level = 2"
| "level_number Error_Level = 3"
| "level_number Fatal_Level = 4"
| "level_number Panic_Level = 5"
| "level_number No_Level = 6"

definition parse_level :: "string \<Rightarrow> log_level option" where
  "parse_level s =
     (if s = ''debug'' then Some Debug_Level else if s = ''info'' then Some Info_Level
      else if s = ''warn'' then Some Warn_Level else if s = ''error'' then Some Error_Level
      else if s = ''fatal'' then Some Fatal_Level else if s = ''panic'' then Some Panic_Level
      else if s = '''' then Some No_Level else None)"

text \<open>
  \<open>strings.ToLower\<close> as far as a level can come out of it: of the characters beyond ASCII only
  the dotted capital I becomes a letter that the name of a level has.
\<close>

definition lower_char :: "char \<Rightarrow> char" where
  "lower_char c =
     (let n = (of_char c :: nat) in if 65 \<le> n \<and> n \<le> 90 then char_of (n + 32) else c)"

fun to_lower :: "string \<Rightarrow> string" where
  "to_lower (c # d # cs) =
     (if c = CHR 0xC4 \<and> d = CHR 0xB0 then CHR ''i'' # to_lower cs else lower_char c # to_lower (d # cs))"
| "to_lower [c] = [lower_char c]"
| "to_lower [] = []"

text \<open>
  \<open>log.Fatal\<close> and \<open>log.Panic\<close> give no event when their level is below the global one, and then
  neither exit nor panic.
\<close>

definition fatal_exits :: "log_level \<Rightarrow> bool" where
  "fatal_exits lvl \<longleftrightarrow> level_number lvl \<le> level_number Fatal_Level"

definition panic_panics :: "log_level \<Rightarrow> bool" where
  "panic_panics lvl \<longleftrightarrow> level_number lvl \<le> level_number Panic_Level"

text \<open>\<open>setLogLevel\<close>: at the level of the start, the lowest, a bad flag ends the process (\<open>None\<close>).\<close>

definition set_log_level :: "string \<Rightarrow> log_level option" where
  "set_log_level flag = parse_level (to_lower flag)"

text \<open>
  \<open>PersistentPreRun\<close>. When the metrics client cannot be opened and the fatal error is not
  logged, the nil client is written to, which ends the process too.
\<close>

definition persistent_pre_run :: "string \<Rightarrow> 'e option \<Rightarrow> statsd option \<Rightarrow> (log_level \<times> statsd option) option" where
  "persistent_pre_run flag opened co =
     (case set_log_level flag of
        None \<Rightarrow> None
      | Some lvl \<Rightarrow> map_option (Pair lvl) (init_metrics opened co))"

section \<open>Flags\<close>

definition default_log_level :: string where "default_log_level = ''INFO''"

definition put_flags :: put_args where
  "put_flags = \<lparr>pa_id = '''', pa_payload = \<lparr>bv_buf = [], bv_is_set = False\<rparr>, pa_delay = 0\<rparr>"

definition next_flags :: next_args where
  "next_flags = \<lparr>na_timeout = 0, na_json = False\<rparr>"

definition inspect_num_flag :: "64 word" where "inspect_num_flag = 1"

text \<open>The load test: \<open>size\<close> bytes of data from the random source, the generator's source and clock.\<close>

definition load_flags :: "(nat \<Rightarrow> nat) \<Rightarrow> (nat \<Rightarrow> nat) \<Rightarrow> (nat \<Rightarrow> instant) \<Rightarrow> load_config" where
  "load_flags data tape nows =
     \<lparr>lc_jobs = 1000, lc_connections = 5, lc_enqueue = False, lc_dequeue = False, lc_tolerance = False,
      lc_ns_tolerance = 1000, lc_min_delay = 0, lc_max_delay = 60, lc_data = rand_string_bytes data 1000,
      lc_tape = tape, lc_nows = nows\<rparr>"

section \<open>The load test command\<close>

text \<open>
  The clients of the workers: \<open>dialed k\<close> is the error of the \<open>k\<close>-th connection. Every client
  pings, and the answer is not looked at. A failed connection ends the process when fatal
  errors do; otherwise its client stays in the list, not connected.
\<close>

fun dial_workers ::
  "log_level \<Rightarrow> (nat \<Rightarrow> 'e option) \<Rightarrow> nat \<Rightarrow> nat \<Rightarrow> 'f server \<Rightarrow> (client list \<times> 'f server) outcome option" where
  "dial_workers lvl dialed k 0 s = Some (Done ([], s))"
| "dial_workers lvl dialed k (Suc n) s =
     (case new_client (dialed k) of
        (e, c) \<Rightarrow>
          (if e \<noteq> None \<and> fatal_exits lvl then None
           else (case client_ping c s of
                   Done (_, s1) \<Rightarrow>
                     map_option (map_outcome (\<lambda>(cs, s2). (c # cs, s2))) (dial_workers lvl dialed (Suc k) n s1)
                 | Blocked \<Rightarrow> Some Blocked
                 | Panicked \<Rightarrow> Some Panicked)))"

text \<open>\<open>Run\<close> of the command up to the start of the goroutines; \<open>None\<close> is the end of the process.\<close>

definition loadtest_cmd ::
  "log_level \<Rightarrow> (nat \<Rightarrow> 'e option) \<Rightarrow> load_config \<Rightarrow> 'f server \<Rightarrow> (client list \<times> 'f loadtest) outcome option" where
  "loadtest_cmd lvl dialed c s =
     (if \<not> lc_enqueue c \<and> \<not> lc_dequeue c \<and> fatal_exits lvl then None
      else map_option (map_outcome (\<lambda>(cs, s1). (cs, load_start s1))) (dial_workers lvl dialed 0 (workers c) s))"

lemma dial_workers_ok:
  "(\<And>k. dialed k = None) \<Longrightarrow> dial_workers lvl dialed k n s = Some (Done (replicate n load_client, s))"
  by (induction n arbitrary: k)
    (auto simp: new_client_def client_connect_def client_ping_def rpc_call_def load_client_def rpc_ping_def)

text \<open>With the connections up and a mode chosen the run starts, with a client in order per worker.\<close>

lemma loadtest_cmd_starts:
  assumes "lc_enqueue c \<or> lc_dequeue c" and "\<And>k. dialed k = None"
  shows "loadtest_cmd lvl dialed c s = Some (Done (replicate (workers c) load_client, load_start s))"
  using assms(1) by (auto simp: loadtest_cmd_def dial_workers_ok [of dialed, OF assms(2)])

lemma dial_workers_failed:
  "fatal_exits lvl \<Longrightarrow> i < n \<Longrightarrow> dialed (k + i) \<noteq> None \<Longrightarrow> (\<And>m. m < i \<Longrightarrow> dialed (k + m) = None) \<Longrightarrow>
   dial_workers lvl dialed k n s = None"
proof (induction n arbitrary: k i)
  case (Suc n)
  show ?case
  proof (cases i)
    case 0
    then show ?thesis using Suc.prems by (auto simp: new_client_def client_connect_def split: option.splits)
  next
    case (Suc i')
    have "dialed k = None" using Suc.prems(4) [of 0] Suc by simp
    moreover have "dial_workers lvl dialed (Suc k) n s = None"
      by (rule Suc.IH [of i']) (use Suc.prems(1-3) Suc.prems(4) [of "Suc _"] Suc in auto)
    ultimately show ?thesis
      by (simp add: new_client_def client_connect_def client_ping_def rpc_call_def rpc_ping_def)
  qed
qed simp

section \<open>Errors that do not end the process\<close>

lemma default_level_fatal: "set_log_level default_log_level = Some Info_Level \<and> fatal_exits Info_Level"
  by code_simp

lemma panic_level_not_fatal: "set_log_level ''Panic'' = Some Panic_Level \<and> \<not> fatal_exits Panic_Level"
  by code_simp

text \<open>With \<open>--log-level panic\<close> a load test that cannot connect starts, with clients that are not connected.\<close>

lemma dial_workers_unconnected:
  "\<not> fatal_exits lvl \<Longrightarrow> (\<And>k. dialed k \<noteq> None) \<Longrightarrow>
   dial_workers lvl dialed k n s = Some (Done (replicate n \<lparr>cl_conn = None\<rparr>, s))"
proof (induction n arbitrary: k)
  case (Suc n)
  obtain e where "dialed k = Some e" using Suc.prems(2) [of k] by blast
  with Suc show ?case by (simp add: new_client_def client_connect_def client_ping_def)
qed simp

lemma loadtest_cmd_unconnected:
  assumes "\<And>k. dialed k \<noteq> None"
  shows "loadtest_cmd Panic_Level dialed c s = Some (Done (replicate (workers c) \<lparr>cl_conn = None\<rparr>, load_start s))"
  by (simp add: loadtest_cmd_def dial_workers_unconnected [of Panic_Level dialed, OF _ assms] fatal_exits_def)

end
