(* ===== verification/Examples.thy ===== *)
theory Examples
  imports Client_Drain
begin

text \<open>
  The programs of \<open>examples\<close>. \<open>embedded/embedded.go\<close> uses the library without a server: a hub of
  its own with a store in memory, two jobs added to it, and a loop around \<open>NextLocked\<close> for
  each. \<open>rpc/rpcclient.go\<close> starts a server, connects to it, puts a job and waits for it.
\<close>

section \<open>The embedded hub\<close>

text \<open>
  \<open>getJob\<close>: \<open>polls k\<close> are the readings of the clock in the \<open>k\<close>-th call of \<open>NextLocked\<close>;
  the answer comes with the number of the next call. \<open>None\<close>: the fuel has run out.
\<close>

fun get_job ::
  "'f filter_ops \<Rightarrow> (nat \<Rightarrow> nat \<Rightarrow> instant) \<Rightarrow> nat \<Rightarrow> nat \<Rightarrow> 'f hub \<Rightarrow> (job \<times> nat \<times> 'f hub) outcome option" where
  "get_job F polls 0 k h = None"
| "get_job F polls (Suc n) k h =
     (case hub_next F (polls k) h of
        None \<Rightarrow> Some Panicked
      | Some (Some j, h1) \<Rightarrow> Some (Done (j, Suc k, h1))
      | Some (None, h1) \<Rightarrow> get_job F polls n (Suc k) h1)"

definition embedded_opts :: hub_opts where
  "embedded_opts = \<lparr>ho_attempt_restore = False, ho_spoke_span = second, ho_max_cf_size = 0\<rparr>"

text \<open>
  \<open>main\<close>, with the readings \<open>nows\<close> of the clock before the loops; an error of the store or
  of \<open>AddJobLocked\<close> is logged with a panic. The hub holds the persister but never calls it.
\<close>

definition embedded_main ::
  "(cuckoo \<times> 'r) filter_ops \<Rightarrow> (nat \<Rightarrow> bound \<Rightarrow> nat) \<Rightarrow> 'r \<Rightarrow> string \<Rightarrow> (nat \<Rightarrow> instant) \<Rightarrow>
   (nat \<Rightarrow> nat \<Rightarrow> instant) \<Rightarrow> nat \<Rightarrow> (job \<times> job \<times> (cuckoo \<times> 'r) hub) outcome option" where
  "embedded_main F ranks tape stamp nows polls fuel =
     (case in_mem_storage stamp of
        Inl e \<Rightarrow> Some Panicked
      | Inr store \<Rightarrow>
          (let h0 = new_hub_opts embedded_opts tape (nows 0) (nows 1);
               j1 = new_job ''jobID1'' (t_add (nows 2) (15 * millisecond)) (bytes_of ''Hello World!'')
           in case hub_add F (ranks 0) (nows 3) j1 h0 of
                (Some e, _) \<Rightarrow> Some Panicked
              | (None, h1) \<Rightarrow>
                  (let j2 = new_job ''jobID2'' (t_add (nows 4) (5 * millisecond))
                              (bytes_of ''Hi, I'' @ 39 # bytes_of ''m Chronomq, I am a time traveler.'')
                   in case hub_add F (ranks 1) (nows 5) j2 h1 of
                        (Some e, _) \<Rightarrow> Some Panicked
                      | (None, h2) \<Rightarrow>
                          (case get_job F polls fuel 0 h2 of
                             None \<Rightarrow> None
                           | Some Blocked \<Rightarrow> Some Blocked
                           | Some Panicked \<Rightarrow> Some Panicked
                           | Some (Done (a, k, h3)) \<Rightarrow>
                               map_option (map_outcome (\<lambda>(b, _, h4). (a, b, h4))) (get_job F polls fuel k h3)))))"

section \<open>The client\<close>

text \<open>
  \<open>getClient\<close>: up to ten attempts; \<open>dials i\<close> is the error of the \<open>i\<close>-th dial, if any. After
  the last one the client is nil and the error that of the last attempt.
\<close>

fun dial_loop :: "(nat \<Rightarrow> 'e option) \<Rightarrow> nat \<Rightarrow> nat \<Rightarrow> 'e option \<Rightarrow> client option \<times> 'e option" where
  "dial_loop dials 0 i err = (None, err)"
| "dial_loop dials (Suc n) i err =
     (case new_client (dials i) of
        (None, c) \<Rightarrow> (Some c, None)
      | (Some e, c) \<Rightarrow> dial_loop dials n (Suc i) (Some e))"

definition get_client :: "(nat \<Rightarrow> 'e option) \<Rightarrow> client option \<times> 'e option" where
  "get_client dials = dial_loop dials 10 0 None"

text \<open>
  \<open>main\<close> from the connection on, with the server in the same process: every error is logged
  with a panic. The result is the line printed at the end: an id and a body. \<open>E1\<close> and
  \<open>E2\<close> are what the put and the next depend on.
\<close>

definition rpc_example ::
  "(nat \<Rightarrow> 'e option) \<Rightarrow> 'f call_env \<Rightarrow> 'f call_env \<Rightarrow> 'f server \<Rightarrow> (string \<times> bytes \<times> 'f server) outcome option" where
  "rpc_example dials E1 E2 s =
     (case get_client dials of
        (_, Some e) \<Rightarrow> Some Panicked
      | (None, None) \<Rightarrow> Some Panicked
      | (Some c, None) \<Rightarrow>
          (case client_ping c s of
             Done (None, s1) \<Rightarrow>
               (case client_put_with_id E1 ''job1'' (bytes_of ''hi'') (100 * millisecond) c s1 of
                  Done (None, s2) \<Rightarrow>
                    map_option (\<lambda>r. case r of
                        Done (jid, b, None, s3) \<Rightarrow> Done (jid, b, s3)
                      | Done (jid, b, Some e, s3) \<Rightarrow> Panicked
                      | Blocked \<Rightarrow> Blocked
                      | Panicked \<Rightarrow> Panicked)
                      (client_next E2 second c s2)
                | Done (Some e, s2) \<Rightarrow> Some Panicked
                | Blocked \<Rightarrow> Some Blocked
                | Panicked \<Rightarrow> Some Panicked)
           | _ \<Rightarrow> Some Panicked))"

lemma dial_loop_connects:
  "dials k = None \<Longrightarrow> i \<le> k \<Longrightarrow> k < i + n \<Longrightarrow> dial_loop dials n i err = (Some \<lparr>cl_conn = Some Conn_Open\<rparr>, None)"
proof (induction n arbitrary: i err)
  case (Suc n)
  show ?case
  proof (cases "dials i")
    case None
    then show ?thesis by (simp add: new_client_def client_connect_def)
  next
    case (Some e)
    with Suc.prems have "i \<noteq> k" by auto
    with Suc Some show ?thesis by (simp add: new_client_def client_connect_def)
  qed
qed simp

text \<open>
  Against a server with an empty hub and room for the job, reached by one of the ten dials,
  the example prints its own job, if the call of \<open>Next\<close> polls late and often enough.
\<close>

lemma rpc_example_prints:
  assumes ok: "srv_ok leak s" and e: "hub_jobs (srv_hub s) = {#}" and room: "has_room leak (srv_config s)"
    and "leak + 100 \<le> 2 ^ 40" and dial: "dials k = None" "k < 10" and fut: "ce_now2 E1 < t_add (ce_now1 E1) (100 * millisecond)"
  shows "\<exists>t0 n. \<forall>E2. polls_late E2 t0 n second \<longrightarrow>
    (\<exists>s'. rpc_example dials E1 E2 s = Some (Done (''job1'', bytes_of ''hi'', s')) \<and> hub_jobs (srv_hub s') = {#})"
proof -
  let ?c = "\<lparr>cl_conn = Some Conn_Open\<rparr>" and ?j = "new_job ''job1'' (t_add (ce_now1 E1) (100 * millisecond)) (bytes_of ''hi'')"
  have c: "get_client dials = (Some ?c, None)"
    using dial_loop_connects [of dials k 0 10 None] dial by (simp add: get_client_def)
  have ping: "client_ping ?c s = Done (None, s)" by (simp add: client_ping_def rpc_call_def rpc_ping_def)
  have "unat (size_of ?j) \<le> 100" by (simp add: size_of_def size_overhead_def new_job_def bytes_of_def)
  then have "leak + unat (size_of ?j) \<le> 2 ^ 40" using assms(4) by simp
  then obtain s1 where s1: "client_put_with_id E1 ''job1'' (bytes_of ''hi'') (100 * millisecond) ?c s = Done (None, s1)"
    "srv_ok leak s1" "hub_jobs (srv_hub s1) = {#?j#}"
    using client_put_future [OF ok _ _ _ fut, of "''job1''" "bytes_of ''hi''"] e room by (auto simp: hub_ids_def)
  have "hub_wf (srv_hub s1)" using s1(2) by (simp add: srv_ok_def hub_good_def)
  from hub_due_eventually [OF this] obtain t0 where t0: "\<forall>now\<ge>t0. hub_due now (srv_hub s1)" by blast
  have "\<exists>s'. rpc_example dials E1 E2 s = Some (Done (''job1'', bytes_of ''hi'', s')) \<and> hub_jobs (srv_hub s') = {#}"
    if late: "polls_late E2 t0 (size (waiting (srv_hub s1))) second" for E2
    using client_next_late [OF s1(2) t0 _ late] s1(1,3) c ping
    by (auto simp: rpc_example_def late_result_def new_job_def)
  then show ?thesis by blast
qed

section \<open>The loop returns\<close>

text \<open>With fuel \<open>n\<close> or more the loop returns a job that triggers no later than any other.\<close>

definition gets :: "'f filter_ops \<Rightarrow> (nat \<Rightarrow> nat \<Rightarrow> instant) \<Rightarrow> nat \<Rightarrow> nat \<Rightarrow> 'f hub \<Rightarrow> bool" where
  "gets F polls n k h \<longleftrightarrow> (\<exists>j k' h'. (\<forall>fuel \<ge> n. get_job F polls fuel k h = Some (Done (j, k', h'))) \<and>
     hub_wf h' \<and> hub_ordered h' \<and> hub_jobs h = add_mset j (hub_jobs h') \<and>
     (\<forall>i \<in># hub_jobs h. trigger_at j \<le> trigger_at i))"

lemma getsI:
  "(\<And>fuel. n \<le> fuel \<Longrightarrow> get_job F polls fuel k h = Some (Done (j, k', h'))) \<Longrightarrow> hub_wf h' \<Longrightarrow> hub_ordered h' \<Longrightarrow>
   hub_jobs h = add_mset j (hub_jobs h') \<Longrightarrow> (\<And>i. i \<in># hub_jobs h \<Longrightarrow> trigger_at j \<le> trigger_at i) \<Longrightarrow> gets F polls n k h"
  unfolding gets_def by blast

lemma gets_step:
  assumes wf: "hub_wf h" and o: "hub_ordered h"
    and nxt: "\<And>h'. hub_next F (polls k) h = Some (None, h') \<Longrightarrow> hub_wf h' \<Longrightarrow> hub_ordered h' \<Longrightarrow>
      hub_jobs h' = hub_jobs h \<Longrightarrow> set (spoke_map h') \<subseteq> set (spoke_map h) \<Longrightarrow> gets F polls n (Suc k) h'"
  shows "gets F polls (Suc n) k h"
proof (cases rule: hub_next_cases [OF wf, of F "polls k"])
  case (1 h')
  note ord = hub_next_ordered [OF wf o 1(1)]
  have "gets F polls n (Suc k) h'" using nxt [OF 1(1)] 1(2) ord by (simp add: jobs_kept_def)
  then obtain j k' h2 where r: "\<forall>fuel \<ge> n. get_job F polls fuel (Suc k) h' = Some (Done (j, k', h2))"
    and rest: "hub_wf h2" "hub_ordered h2" "hub_jobs h' = add_mset j (hub_jobs h2)"
      "\<forall>i \<in># hub_jobs h'. trigger_at j \<le> trigger_at i" unfolding gets_def by blast
  have "get_job F polls fuel k h = Some (Done (j, k', h2))" if "Suc n \<le> fuel" for fuel
    using that r 1(1) by (cases fuel) simp_all
  moreover have "hub_jobs h' = hub_jobs h" using 1(2) by (simp add: jobs_kept_def)
  ultimately show ?thesis using rest by (intro getsI [of _ _ _ _ _ j k' h2]) simp_all
next
  case (2 j h' ok)
  note ord = hub_next_ordered [OF wf o 2(1)]
  have "get_job F polls fuel k h = Some (Done (j, Suc k, h'))" if "Suc n \<le> fuel" for fuel
    using that 2(1) by (cases fuel) simp_all
  with 2(3,4) ord show ?thesis by (intro getsI [of _ _ _ _ _ j "Suc k" h']) auto
qed

text \<open>Late polls.\<close>

lemma gets_late:
  "size (waiting h) < n \<Longrightarrow> hub_due t h \<Longrightarrow> hub_ordered h \<Longrightarrow> hub_jobs h \<noteq> {#} \<Longrightarrow>
   \<forall>m\<ge>k. \<forall>i. t \<le> polls m i \<Longrightarrow> gets F polls n k h"
proof (induction n arbitrary: h k)
  case (Suc n)
  have wf: "hub_wf h" using Suc.prems(2) by (simp add: hub_due_def)
  have late: "\<forall>i. t \<le> polls k i" using Suc.prems(5) by simp
  show ?case
  proof (rule gets_step [OF wf Suc.prems(3)])
    fix h' assume n: "hub_next F (polls k) h = Some (None, h')" and h': "hub_wf h'" "hub_ordered h'"
      "hub_jobs h' = hub_jobs h" "set (spoke_map h') \<subseteq> set (spoke_map h)"
    from n have "size (waiting h) = Suc (size (waiting h'))"
      by (cases rule: late_next [OF Suc.prems(2) late, of F]) (use Suc.prems(4) in auto)
    moreover have "hub_due t h'" using Suc.prems(2) h' by (auto simp: hub_due_def)
    ultimately show "gets F polls n (Suc k) h'"
      using Suc.prems h' by (intro Suc.IH) auto
  qed
qed simp

text \<open>
  The clock of the loop passes every instant: from some call on, all the readings within a call,
  which may differ, are after it. Nothing is asked of the readings before.
\<close>

definition clock_goes_on :: "(nat \<Rightarrow> nat \<Rightarrow> instant) \<Rightarrow> bool" where
  "clock_goes_on polls \<longleftrightarrow> (\<forall>t. \<exists>n. \<forall>k\<ge>n. \<forall>i. t \<le> polls k i)"

lemma gets_early:
  "\<forall>m \<ge> N. \<forall>i. t \<le> polls m i \<Longrightarrow> N \<le> k + d \<Longrightarrow> hub_due t h \<Longrightarrow> hub_ordered h \<Longrightarrow>
   hub_jobs h \<noteq> {#} \<Longrightarrow> \<exists>n. gets F polls n k h"
proof (induction d arbitrary: h k)
  case 0
  then show ?case using gets_late [of h "Suc (size (waiting h))" t k polls F] by auto
next
  case (Suc d)
  have wf: "hub_wf h" using Suc.prems(3) by (simp add: hub_due_def)
  show ?case
  proof (cases "\<exists>h'. hub_next F (polls k) h = Some (None, h')")
    case True
    then obtain h' where n: "hub_next F (polls k) h = Some (None, h')" by blast
    have kept: "hub_wf h'" "hub_jobs h' = hub_jobs h"
      by (cases rule: hub_next_cases [OF wf, of F "polls k"]; use n in \<open>simp add: jobs_kept_def\<close>)+
    note ord = hub_next_ordered [OF wf Suc.prems(4) n]
    have "hub_due t h'" using Suc.prems(3) kept ord by (auto simp: hub_due_def)
    then obtain m where "gets F polls m (Suc k) h'"
      using Suc.IH [of "Suc k" h'] Suc.prems kept ord by auto
    then show ?thesis using gets_step [OF wf Suc.prems(4), of F polls k m] n by (metis option.inject prod.inject)
  next
    case False
    then show ?thesis using gets_step [OF wf Suc.prems(4), of F polls k 0] by blast
  qed
qed

lemma get_job_returns:
  assumes "hub_wf h" and "hub_ordered h" and "hub_jobs h \<noteq> {#}" and "clock_goes_on polls"
  shows "\<exists>n. gets F polls n k h"
proof -
  obtain t where t: "\<forall>now\<ge>t. hub_due now h" using hub_due_eventually [OF assms(1)] by blast
  obtain N where N: "\<forall>m\<ge>N. \<forall>i. t \<le> polls m i" using assms(4) unfolding clock_goes_on_def by blast
  show ?thesis by (rule gets_early [OF N, of k N]) (use t assms in auto)
qed

section \<open>Properties\<close>

text \<open>The jobs of the example are taken in by a new hub.\<close>

lemma in_mem_storage_opens: "\<exists>s. in_mem_storage stamp = Inr s"
proof -
  obtain s where "bs_verify_access journal_bucket stamp \<lparr>bs_bucket = \<lambda>_. None, bs_url = ''mem:'', bs_writer = None\<rparr> = (None, s)"
    by (rule jmem.verify_access_ok)
  then show ?thesis by (simp add: in_mem_storage_def new_blob_store_def journal_bucket_def)
qed

text \<open>
  C20: The embedded example ends: if each job is added before its trigger time and the second
  triggers before the first, then, with a clock that goes on, both loops return, whatever the
  polls before read and although the readings within a call may differ; they hand out the
  second job and then the first, and the hub is empty.
\<close>

theorem embedded_example_finishes:
  assumes "nows 3 < t_add (nows 2) (15 * millisecond)" and "nows 5 < t_add (nows 4) (5 * millisecond)"
    and "t_add (nows 4) (5 * millisecond) < t_add (nows 2) (15 * millisecond)" and "clock_goes_on polls"
  shows "\<exists>n a b h. (\<forall>fuel \<ge> n. embedded_main F ranks tape stamp nows polls fuel = Some (Done (a, b, h))) \<and>
    job_id a = ''jobID2'' \<and> job_id b = ''jobID1'' \<and> body b = bytes_of ''Hello World!'' \<and> hub_jobs h = {#}"
proof -
  define j1 where "j1 = new_job ''jobID1'' (t_add (nows 2) (15 * millisecond)) (bytes_of ''Hello World!'')"
  define j2 where "j2 = new_job ''jobID2'' (t_add (nows 4) (5 * millisecond))
    (bytes_of ''Hi, I'' @ 39 # bytes_of ''m Chronomq, I am a time traveler.'')"
  define h0 where "h0 = new_hub_opts embedded_opts tape (nows 0) (nows 1)"
  obtain store where store: "in_mem_storage stamp = Inr store" using in_mem_storage_opens by blast
  have h0: "hub_untouched h0" "hub_jobs h0 = {#}" "0 < sint (spoke_span h0)"
    by (simp_all add: h0_def new_hub_opts_def new_hub_untouched new_hub_jobs)
      (simp add: new_hub_def embedded_opts_def second_def)
  have j: "job_id j1 = ''jobID1''" "job_id j2 = ''jobID2''" "nows 3 < trigger_at j1" "nows 5 < trigger_at j2"
    "trigger_at j2 < trigger_at j1" "body j1 = bytes_of ''Hello World!''"
    using assms(1-3) by (simp_all add: j1_def j2_def new_job_def)
  obtain h1 where h1: "hub_add F (ranks 0) (nows 3) j1 h0 = (None, h1)" "hub_untouched h1" "hub_jobs h1 = {#j1#}"
    "0 < sint (spoke_span h1)"
    using add_future_taken [OF h0(1,3) j(3), of F "ranks 0"] h0(2,3) by (auto simp: hub_ids_def)
  obtain h2 where h2: "hub_add F (ranks 1) (nows 5) j2 h1 = (None, h2)" "hub_untouched h2" "hub_jobs h2 = {#j1, j2#}"
    using add_future_taken [OF h1(2,4) j(4), of F "ranks 1"] h1(3) j(1,2) by (auto simp: hub_ids_def)
  have "hub_wf h2" using h2(2) by (simp add: hub_untouched_def hub_good_def)
  from get_job_returns [OF this untouched_ordered [OF h2(2)] _ assms(4), of F 0] h2(3)
  have "\<exists>n. gets F polls n 0 h2" by simp
  then obtain n a k h3 where
    a: "\<forall>fuel \<ge> n. get_job F polls fuel 0 h2 = Some (Done (a, k, h3))" "hub_wf h3" "hub_ordered h3"
      "hub_jobs h2 = add_mset a (hub_jobs h3)" "\<forall>i \<in># hub_jobs h2. trigger_at a \<le> trigger_at i"
    unfolding gets_def by blast
  have "a = j2" using a(4,5) h2(3) j(5) by (auto simp: add_eq_conv_ex)
  with a(4) h2(3) have h3: "hub_jobs h3 = {#j1#}" by (simp add: add_mset_commute)
  from get_job_returns [OF a(2,3) _ assms(4), of F k] h3 have "\<exists>n. gets F polls n k h3" by simp
  then obtain m b k' h4 where
    b: "\<forall>fuel \<ge> m. get_job F polls fuel k h3 = Some (Done (b, k', h4))" "hub_jobs h3 = add_mset b (hub_jobs h4)"
    unfolding gets_def by blast
  have b': "b = j1" "hub_jobs h4 = {#}" using b(2) h3 by (auto simp: add_mset_eq_single)
  have "embedded_main F ranks tape stamp nows polls fuel = Some (Done (j2, j1, h4))" if "max n m \<le> fuel" for fuel
    using that a(1) b(1) h1(1) h2(1) store \<open>a = j2\<close> b'(1)
    by (simp add: embedded_main_def Let_def del: One_nat_def flip: h0_def j1_def j2_def)
  with j b' show ?thesis by blast
qed

text \<open>
  Readings a millisecond apart, and polls every five milliseconds whose calls read the clock
  six times, a microsecond apart.
\<close>

theorem embedded_example_finishes_witness:
  "\<exists>n a b h. (\<forall>fuel \<ge> n. embedded_main (cuckoo_ops length_hash id) (\<lambda>_ _. 0) 0 ''now'' (\<lambda>i. 1000000 * int i)
      (\<lambda>k i. 6000000 + 5000000 * int k + 1000 * int i) fuel = Some (Done (a, b, h))) \<and>
    job_id a = ''jobID2'' \<and> job_id b = ''jobID1'' \<and> body b = bytes_of ''Hello World!'' \<and> hub_jobs h = {#}"
proof -
  have "clock_goes_on (\<lambda>k i. 6000000 + 5000000 * int k + 1000 * int i)"
    unfolding clock_goes_on_def
  proof (intro allI)
    show "\<exists>n. \<forall>k\<ge>n. \<forall>i. t \<le> 6000000 + 5000000 * int k + 1000 * int i" for t
      by (intro exI [of _ "nat t"] allI impI) linarith
  qed
  from embedded_example_finishes [OF _ _ _ this, of "\<lambda>i. 1000000 * int i" "cuckoo_ops length_hash id" "\<lambda>_ _. 0" 0 "''now''"]
  show ?thesis by (simp add: t_add_def millisecond_def)
qed

end
