(* ===== verification/Hub_Refinement.thy ===== *)
theory Hub_Refinement
  imports Hub_Filter
begin

text \<open>
  The abstract hub is a map from ids to jobs. With a membership filter that keeps its contract
  every call of \<open>AddJobLocked\<close>, \<open>NextLocked\<close> and \<open>CancelJobLocked\<close>, with its reply, is a step of the
  map: the spokes, their heaps and the filter do not show.
\<close>

section \<open>The abstract hub\<close>

type_synonym job_map = "string \<rightharpoonup> job"

text \<open>
  A new id is taken in, unless its trigger time has passed (then it may lie before the past
  spoke) or the span of the hub is not positive; a known one is rejected. \<open>Next\<close> takes out a job
  that was ready at one of the readings of the clock, or nothing. A cancel takes out the job
  of the id, and an unknown id is no error.
\<close>

inductive map_step :: "duration \<Rightarrow> job_map \<Rightarrow> hub_op \<Rightarrow> hub_reply \<Rightarrow> job_map \<Rightarrow> bool" for span where
  map_add: "m (job_id j) = None \<Longrightarrow>
    map_step span m (OpAdd rank now j) (AddReply None) (m(job_id j \<mapsto> j))"
| map_add_known: "m (job_id j) = Some i \<Longrightarrow>
    map_step span m (OpAdd rank now j) (AddReply (Some (ErrDuplicateJob (job_id j)))) m"
| map_add_bounds: "m (job_id j) = None \<Longrightarrow> trigger_at j \<le> now \<or> sint span \<le> 0 \<Longrightarrow>
    map_step span m (OpAdd rank now j) (AddReply (Some ErrJobOutOfSpokeBounds)) m"
| map_next: "m jid = Some j \<Longrightarrow> trigger_at j \<le> clk 0 \<or> trigger_at j \<le> clk 5 \<Longrightarrow>
    map_step span m (OpNext clk) (NextReply (Some j)) (m(jid := None))"
| map_next_none: "map_step span m (OpNext clk) (NextReply None) m"
| map_cancel: "m jid = Some j \<Longrightarrow>
    map_step span m (OpCancel rank jid) (CancelReply (Inr (Some j))) (m(jid := None))"
| map_cancel_unknown: "m jid = None \<Longrightarrow>
    map_step span m (OpCancel rank jid) (CancelReply (Inr None)) m"

text \<open>A sequence of calls with their replies.\<close>

inductive map_run :: "duration \<Rightarrow> job_map \<Rightarrow> hub_op list \<Rightarrow> hub_reply list \<Rightarrow> job_map \<Rightarrow> bool" for span where
  map_done: "map_run span m [] [] m"
| map_more: "map_step span m op r m1 \<Longrightarrow> map_run span m1 ops rs m2 \<Longrightarrow> map_run span m (op # ops) (r # rs) m2"

section \<open>Simulation\<close>

text \<open>The jobs of a hub as a map.\<close>

definition represents :: "'f hub \<Rightarrow> job_map \<Rightarrow> bool" where
  "represents h m \<longleftrightarrow> (\<forall>jid j. m jid = Some j \<longleftrightarrow> j \<in># hub_jobs h \<and> job_id j = jid)"

lemma hub_ids_iff: "jid \<in># hub_ids h \<longleftrightarrow> (\<exists>j. j \<in># hub_jobs h \<and> job_id j = jid)"
  by (auto simp: hub_ids_def)

lemma represents_None:
  assumes "represents h m"
  shows "m jid = None \<longleftrightarrow> jid \<notin># hub_ids h"
proof -
  have "m jid = Some j \<longleftrightarrow> j \<in># hub_jobs h \<and> job_id j = jid" for j using assms by (simp add: represents_def)
  then show ?thesis unfolding hub_ids_iff by (metis not_None_eq)
qed

lemma represents_same: "represents h m \<Longrightarrow> hub_jobs h' = hub_jobs h \<Longrightarrow> represents h' m"
  by (simp add: represents_def)

lemma represents_add:
  assumes r: "represents h m" and jobs: "hub_jobs h' = add_mset j (hub_jobs h)" and new: "job_id j \<notin># hub_ids h"
  shows "represents h' (m(job_id j \<mapsto> j))"
  unfolding represents_def
proof (intro allI)
  fix jid k
  have "k \<in># hub_jobs h \<Longrightarrow> job_id k \<noteq> job_id j" using new by (auto simp: hub_ids_iff)
  then show "(m(job_id j \<mapsto> j)) jid = Some k \<longleftrightarrow> k \<in># hub_jobs h' \<and> job_id k = jid"
    using r by (auto simp: represents_def jobs)
qed

lemma represents_remove:
  assumes r: "represents h m" and jobs: "hub_jobs h = add_mset j (hub_jobs h')" and gone: "job_id j \<notin># hub_ids h'"
  shows "represents h' (m(job_id j := None))" and "m (job_id j) = Some j"
proof -
  show "represents h' (m(job_id j := None))"
    unfolding represents_def
  proof (intro allI)
    fix jid k
    have "k \<in># hub_jobs h' \<Longrightarrow> job_id k \<noteq> job_id j" using gone by (auto simp: hub_ids_iff)
    then show "(m(job_id j := None)) jid = Some k \<longleftrightarrow> k \<in># hub_jobs h' \<and> job_id k = jid"
      using r by (auto simp: represents_def jobs)
  qed
  show "m (job_id j) = Some j" using r by (simp add: represents_def jobs)
qed

lemma new_hub_represents: "represents (new_hub f span now1 now2) Map.empty"
  by (simp add: represents_def new_hub_jobs)

context job_filter
begin

lemma add_simulated:
  assumes f: "filtered h" and r: "represents h m" and add: "hub_add F rank now j h = (e, h')"
  shows "\<exists>m'. map_step (spoke_span h) m (OpAdd rank now j) (AddReply e) m' \<and> represents h' m'"
proof (cases "job_id j \<in># hub_ids h")
  case True
  then obtain i where "m (job_id j) = Some i" using represents_None [OF r] by blast
  moreover have "e = Some (ErrDuplicateJob (job_id j))" "h' = h" using add add_known [OF f True, of rank now] by simp_all
  ultimately show ?thesis using map_add_known r by blast
next
  case False
  then have m: "m (job_id j) = None" using represents_None [OF r] by simp
  show ?thesis
  proof (cases rule: hub_add_cases [OF filtered_wf [OF f], of F rank now j])
    case (1 a)
    then show ?thesis using filtered_owned [OF f] False by blast
  next
    case 2
    then have "trigger_at j \<le> now \<or> sint (spoke_span h) \<le> 0" by (auto simp: accepts_def split: if_splits)
    moreover have "e = Some ErrJobOutOfSpokeBounds" "h' = h" using 2(1) add by simp_all
    ultimately show ?thesis using map_add_bounds m r by blast
  next
    case (3 ok h1)
    then have "e = None" "h' = h1" using add by simp_all
    then show ?thesis using map_add m represents_add [OF r 3(6) False] by blast
  qed
qed

lemma next_simulated:
  assumes f: "filtered h" and r: "represents h m" and n: "hub_next F clk h = Some (x, h')"
  shows "\<exists>m'. map_step (spoke_span h) m (OpNext clk) (NextReply x) m' \<and> represents h' m'"
proof (cases rule: hub_next_cases [OF filtered_wf [OF f], of F clk])
  case (1 h1)
  then have "hub_jobs h1 = hub_jobs h" by (simp add: jobs_kept_def)
  from represents_same [OF r this] show ?thesis using 1(1) n map_next_none by (intro exI [of _ m]) simp
next
  case (2 j h1 ok)
  have "job_id j \<notin># hub_ids h1"
    by (rule delete_filtered(2) [OF f 2(4,3) _ 2(8)]) (use 2(6) filtered_mapped [OF f] in simp)
  note rem = represents_remove [OF r 2(4) this]
  have "map_step (spoke_span h) m (OpNext clk) (NextReply (Some j)) (m(job_id j := None))"
    by (rule map_next) (use rem(2) 2(2) in auto)
  then show ?thesis using rem(1) 2(1) n by auto
qed

lemma cancel_simulated:
  assumes f: "filtered h" and r: "represents h m" and c: "hub_cancel F rank jid h = Some (x, h')"
  shows "\<exists>m'. map_step (spoke_span h) m (OpCancel rank jid) (CancelReply x) m' \<and> represents h' m'"
proof (cases "jid \<in># hub_ids h")
  case True
  from cancel_known [OF f this, of rank] c obtain j where j: "x = Inr (Some j)" "job_id j = jid"
    "hub_jobs h = add_mset j (hub_jobs h')" "jid \<notin># hub_ids h'" by auto
  with represents_remove [OF r j(3)] show ?thesis using map_cancel [of m jid j] by blast
next
  case False
  from cancel_unknown [OF f this, of rank] c have "x = Inr None" "hub_jobs h' = hub_jobs h" by auto
  then show ?thesis using map_cancel_unknown [of m jid] represents_None [OF r] False represents_same [OF r] by blast
qed

lemma do_simulated:
  assumes "filtered h" and "represents h m" and do: "hub_do F op h = Some (x, h')"
  shows "\<exists>m'. map_step (spoke_span h) m op x m' \<and> represents h' m'"
  using do add_simulated [OF assms(1,2)] next_simulated [OF assms(1,2)] cancel_simulated [OF assms(1,2)]
  by (cases op) (auto split: prod.splits)

lemma run_simulated:
  "filtered h \<Longrightarrow> hub_good h \<Longrightarrow> represents h m \<Longrightarrow> clean_run F ops h \<Longrightarrow> hub_run F ops h = Some (rs, h') \<Longrightarrow>
   \<exists>m'. map_run (spoke_span h) m ops rs m' \<and> represents h' m'"
proof (induction ops arbitrary: h m rs)
  case Nil
  then show ?case using map_done by auto
next
  case (Cons op ops)
  obtain x h1 rs1 where x: "hub_do F op h = Some (x, h1)" "hub_run F ops h1 = Some (rs1, h')" "rs = x # rs1"
    using Cons.prems(5) by (auto split: option.splits)
  have clean: "clean_op F op h" "clean_run F ops h1" using Cons.prems(4) x(1) by simp_all
  have h1: "hub_good h1" "spoke_span h1 = spoke_span h"
    using x(1) by (cases rule: hub_do_good [OF Cons.prems(2), of F op]; simp)+
  obtain m1 where m1: "map_step (spoke_span h) m op x m1" "represents h1 m1"
    using do_simulated [OF Cons.prems(1,3) x(1)] by blast
  obtain m' where "map_run (spoke_span h1) m1 ops rs1 m'" "represents h' m'"
    using Cons.IH [OF clean_do [OF Cons.prems(1) clean(1) x(1)] h1(1) m1(2) clean(2) x(2)] by blast
  then show ?case using map_more [OF m1(1)] x(3) h1(2) by auto
qed

end

end
