(* ===== verification/Spec2Isabelle.thy ===== *)
theory Spec2Isabelle
  imports Command_Flags Examples Hub_Refinement
begin

text \<open>
  \<^bold>\<open>Chronomq\<close> is a time-ordered job queue: a client puts a job with a delay, and a later
  \<open>Next\<close> hands it out once its trigger time has come. This library models the Go sources of
  the queue and of the parts around it, and proves what makes them correct.

  \<^bold>\<open>The program.\<close> A \<open>Hub\<close> (\<open>pkg/chronomq/hub.go\<close>) divides time into spokes
  (\<open>spoke.go\<close>) of a fixed width. A spoke keeps its jobs (\<open>job.go\<close>) in a priority queue
  (\<open>internal/queue/priorityQueue.go\<close>, on top of \<open>container/heap\<close>) and in a map by id; the hub
  keeps its spokes in a second priority queue and in a map by their bounds
  (\<open>internal/temporal/bound.go\<close>), one spoke pinned to the past, and at most one current spoke.
  A cuckoo filter (vendored, \<open>seiflotfy/cuckoofilter\<close>) answers quickly whether an id may be
  known. The RPC and gRPC servers (\<open>pkg/protocol\<close>), to which the client and the commands
  talk, call the hub under its lock and account for
  the memory of the jobs with a monitor (\<open>internal/monitor/memory.go\<close>) whose fence blocks
  puts. On shutdown the hub hands its jobs to a persister (\<open>pkg/persistence\<close>), which writes
  them as a journal to a blob of a bucket; on start they are read back.

  \<^bold>\<open>Theories, in the order of their imports.\<close>
  \<^item> \<open>Chrono_Prelude\<close>: bytes and strings, words as Go uses them, multisets and association lists.
  \<^item> \<open>Go_Time\<close>: instants (unbounded nanoseconds), durations (64-bit), the operations of
    package \<open>time\<close> that the program uses.
  \<^item> \<open>Temporal_Bound\<close>: \<open>internal/temporal\<close>.
  \<^item> \<open>Item_Queue\<close>, \<open>Heap_Order\<close>, \<open>Min_Queue\<close>: \<open>internal/queue/priorityQueue.go\<close> with the
    items as an explicit store (so that the index each item carries is a field that \<open>Swap\<close>
    updates) and \<open>container/heap\<close>; the heap order, the index invariant, and the contracts
    \<open>pop_queue\<close> and \<open>min_queue\<close> (a queue that gives back the least key first).
  \<^item> \<open>Job\<close>, \<open>Spoke\<close>, \<open>Hub_Stats\<close>: \<open>job.go\<close>, \<open>globalid.go\<close>, \<open>spoke.go\<close>, \<open>internal/stats\<close>.
  \<^item> \<open>Job_Filter\<close>: the contract of a membership filter, as the hub relies on it;
    \<open>Cuckoo_Filter\<close>: the vendored filter and the proof that it meets the contract.
  \<^item> \<open>Hub\<close>: the operations of \<open>hub.go\<close>; \<open>Hub_Invariant\<close>: its invariant, operation by
    operation; \<open>Hub_Steps\<close>: sequences of calls, as a step relation and as a function;
    \<open>Hub_Filter\<close>: the hub together with its filter; \<open>Hub_Refinement\<close>: the abstract hub, a map
    from ids to jobs, and the simulation; \<open>Hub_Drain\<close>: what polling hands out;
    \<open>Hub_Inspect\<close>: \<open>GetNJobs\<close>, \<open>StatusLocked\<close>; \<open>Hub_Persist\<close>: \<open>PersistLocked\<close>, \<open>Stop\<close>, \<open>Restore\<close>.
  \<^item> \<open>Gob\<close>, \<open>Job_Gob\<close>: the wire format of \<open>encoding/gob\<close> for the types used, and
    \<open>GobEncode\<close> and \<open>GobDecode\<close> of a job.
  \<^item> \<open>Journal\<close>, \<open>Journal_Reader\<close>: the vendored journal of \<open>goleveldb\<close>, writer and reader, with
    every error of theirs; \<open>Journal_Format\<close>: its chunks and how they parse;
    \<open>Journal_Records\<close>: what the reader makes of records of chunks, complete or torn;
    \<open>Journal_Writer\<close>: the writer as an append-only list of records, over the interface
    \<open>byte_sink\<close>.
  \<^item> \<open>Blob_Store\<close>: \<open>pkg/persistence/store.go\<close> and \<open>blobstore.go\<close>; what a bucket promises
    (\<open>blob_bucket\<close>), from which it gives a \<open>byte_sink\<close>, and the in-memory bucket as an instance.
  \<^item> \<open>Journal_Persister\<close>: \<open>pkg/persistence/journalPersister.go\<close>; \<open>Hub_Restart\<close>: the hub saved
    through it and restored from it.
  \<^item> \<open>Mem_Monitor\<close>: \<open>internal/monitor/memory.go\<close>, as functions and as goroutines with
    atomic operations and lock steps.
  \<^item> \<open>Protocol\<close>: the handlers of both servers, each run from beginning to end; \<open>Handler_Steps\<close>: the
    same handlers as goroutines, with the points between their steps at which others come in.
  \<^item> \<open>Client\<close>: \<open>api/rpc/chronomq/rpcclient.go\<close> and a call of \<open>net/rpc\<close> between client and
    server.
  \<^item> \<open>Server_App\<close>: \<open>cmd/server.go\<close>, the options of \<open>NewHub\<close>, and the process from start to
    shutdown as a step relation, with its listeners, the calls under way step by step and the
    panics that end it;
    \<open>Server_Command\<close>: the command \<open>server\<close> from its flags to that process.
  \<^item> \<open>Client_Drain\<close>: what a server in order does for the calls of a client at suitable times.
  \<^item> \<open>Command_Line\<close>: the commands of \<open>cmd/client.go\<close>, \<open>inspect.go\<close> and \<open>version.go\<close> with
    what they print; \<open>Text_Output\<close>: durations and JSON strings as the commands write them, and a
    reader of JSON strings.
  \<^item> \<open>Metrics\<close>: \<open>pkg/metrics/metrics.go\<close> over the vendored \<open>statsd\<close> client: texts, buffer, datagrams.
  \<^item> \<open>Command_Flags\<close>: \<open>cmd/root.go\<close>, the defaults of the flags, the start of the load test, and when a
    fatal error ends the process.
  \<^item> \<open>Loadtest\<close>: the jobs and the checks of \<open>cmd/loadtest.go\<close>; \<open>Loadtest_Run\<close>: the goroutines
    of a run, their channels and wait groups, as a step relation over the model of the client.
  \<^item> \<open>Examples\<close>: the programs of \<open>examples\<close>.
  \<^item> \<open>Spec2Isabelle\<close> (here): the properties that span components.

  \<^bold>\<open>What is proved.\<close> For the hub: no run panics, loses or makes up a job (C1),
  ids stay unique and cancellable with the cuckoo filter (C2), which makes the hub a map from ids to
  jobs (C3), everything is handed out in the end (C4), in order for future jobs whenever it is
  polled (C5), with what an answer of \<open>NextLocked\<close> means (C6) and how the filter (C23)
  and a future current spoke (C22) break the promises. For its parts: the heap (C25, C26), spokes
  (C27, C28), the grid of bounds (C29), the filter (C30), inspection (C36, C37). For persistence:
  the gob encoding (C32), the journal and its persister (C9, C31, C10), and shutdown and restart
  through all layers (C7, C8, C21, C16, C17). For the servers and their clients: the memory monitor
  (C11, C24), generated ids (C38), \<open>Next\<close> (C12), the accounting of puts and how it goes
  wrong (C33, C34, C40), the gRPC handlers (C35), the client (C13), the commands (C14, C15), the
  load test (C39, C18, C19) and the embedded example (C20).

  \<^bold>\<open>Conventions.\<close> A pointer is an address in a store (a list) of the owning record. A method
  that may panic returns an option or an outcome, an error is a value of a sum or option. The
  hub's lock makes each locked call one step, so it is a function of the hub; \<open>GetNJobs\<close>, which does
  not take that lock, is modelled for when nothing overlaps it. A handler of a server is more than
  one such call: \<open>Handler_Steps\<close> and \<open>Server_App\<close> interleave its steps, and the client's theories
  (\<open>Client\<close>, \<open>Client_Drain\<close>, \<open>Command_Line\<close>, \<open>Loadtest_Run\<close>, \<open>Examples\<close>) take a handler as one step,
  but for the polls of \<open>Next\<close>, between which a given function changes the server. Readings of the
  clock and the iteration order of Go maps are arguments: \<open>clk k\<close> is the \<open>k\<close>-th reading in
  a call, \<open>rank\<close> orders the bounds of the map. The hash of the filter and its random source are
  arguments too (\<open>hash\<close>, \<open>tape\<close>). Integers that can wrap around are words.

  \<^bold>\<open>Bounds and fuel.\<close> The loop of the RPC \<open>Next\<close> is a recursion with fuel; \<open>poll_fuel\<close> of
  the timeout is enough because a poll sleeps a fixed time, and \<open>next_answers_in_time\<close> proves
  that it is. \<open>max_cuckoo_count\<close> (500) is the code's own bound on relocations. \<open>too_big\<close> is the
  limit of a gob message (8 GiB). The accounting lemmas assume a usage below one tebibyte, the
  bound above which the monitor itself takes a counter to have underflowed. The journal has its
  own blocks of 32 KiB; the loops of its reader terminate because every chunk taken makes the
  unread rest smaller, for any sizes of the buffers it is read into (\<open>sizes\<close>). \<open>polls_late\<close>
  asks for one poll per waiting spoke after the first attempt, with no other call in between; all
  readings are at or after the given instant and may differ. The loop of the embedded example
  has fuel too; \<open>embedded_example_finishes\<close> proves that some amount is enough, and any larger one
  gives the same. A run of the load test has as many steps as it takes; \<open>load_timed\<close> puts a run on one
  clock that never goes back.

  \<^bold>\<open>Terms of the statements.\<close> A \<open>clean_run\<close> is one in which no insertion into the filter of an accepted
  add fails. \<open>srv_ok leak\<close>: the hub is in order and the monitor counts its jobs and \<open>leak\<close> bytes that no
  job gives back. \<open>tally\<close> sums what the goroutines of the monitor added and took, as long as they
  take no more than was added. \<open>saveable\<close>: the jobs have ids of their own, can be
  encoded and fit the new hub.

  \<^bold>\<open>Not modelled.\<close> What is logged, and at which points the operations send metrics (neither has
  an effect on the state); listening sockets and the
  transport of \<open>net/rpc\<close> and gRPC below a call; the parsing of the command line, the tuning and the
  profiling listener of the process; the cloud drivers of the buckets, of which only the
  promises of the interface are used; the code that \<open>protoc\<close> generates; \<open>StatusPrinter\<close>, which
  only calls \<open>StatusLocked\<close>. Everywhere but in \<open>Command_Flags\<close> fatal errors end the process and
  \<open>log.Panic\<close> panics, as they do at the log levels up to \<open>fatal\<close>.
\<close>

section \<open>The hub as a whole\<close>

text \<open>
  C1: From a new hub, every sequence of the three locked calls runs without a panic, and no
  job is lost, duplicated or made up: the jobs accepted by \<open>AddJobLocked\<close> are exactly the
  jobs still held together with those handed out by \<open>NextLocked\<close> and \<open>CancelJobLocked\<close>.
  A rejected add is an answer with an error, not the panic that the comment of \<open>AddJobLocked\<close>
  announces. The invariant, with the counters equal to the numbers of jobs and spokes, holds
  at the end.
\<close>

theorem hub_conserves_jobs:
  "\<exists>rs h. hub_run F ops (new_hub f width now1 now2) = Some (rs, h) \<and> hub_good h \<and>
     length rs = length ops \<and>
     hub_jobs h + (\<Sum>r\<leftarrow>rs. job_out r) = (\<Sum>(op, r)\<leftarrow>zip ops rs. job_in op r)"
  using hub_run_good [OF new_hub_good, of F ops f width now1 now2] by (simp add: new_hub_jobs)

text \<open>
  C2: With the cuckoo filter of the code: after every run in which no filter insertion fails
  and no unknown id is cancelled on a false positive, no two held jobs share an id, every
  held job is found and removed by \<open>CancelJobLocked\<close>, and \<open>AddJobLocked\<close> rejects a
  second job of its id.
\<close>

theorem hub_ids_unique:
  assumes "clean_run (cuckoo_ops hash tape) ops (new_hub (new_filter cap, p) width now1 now2)"
    and "hub_run (cuckoo_ops hash tape) ops (new_hub (new_filter cap, p) width now1 now2) = Some (rs, h)"
  shows "(\<forall>jid. count (hub_ids h) jid \<le> 1) \<and>
    (\<forall>jid rank. jid \<in># hub_ids h \<longrightarrow>
      (\<exists>j h'. hub_cancel (cuckoo_ops hash tape) rank jid h = Some (Inr (Some j), h') \<and>
         job_id j = jid \<and> hub_jobs h = add_mset j (hub_jobs h'))) \<and>
    (\<forall>j rank now. job_id j \<in># hub_ids h \<longrightarrow>
       hub_add (cuckoo_ops hash tape) rank now j h = (Some (ErrDuplicateJob (job_id j)), h))"
proof -
  obtain k where "cf_valid k (new_filter cap)" using new_filter_valid by blast
  then have "hub_filtered (cf_valid k \<circ> fst) (cf_content hash k \<circ> fst) (cf_class hash k \<circ> bytes_of)
      (new_hub (new_filter cap, p) width now1 now2)"
    by (intro ck.new_hub_filtered) simp
  from ck.clean_run_filtered [OF this assms]
  have f: "hub_filtered (cf_valid k \<circ> fst) (cf_content hash k \<circ> fst) (cf_class hash k \<circ> bytes_of) h" .
  show ?thesis
    using ck.filtered_distinct [OF f] ck.cancel_known [OF f] ck.add_known [OF f] by blast
qed

definition demo_hash :: hash64 where
  "demo_hash bs seed = seed + word_of_nat (length bs)"

definition demo_hub :: "(cuckoo \<times> nat) hub" where
  "demo_hub = new_hub (new_filter 4, 0) 10 1000 1000"

definition demo_ops :: "hub_op list" where
  "demo_ops = [OpAdd (\<lambda>_. 0) 1000 (new_job ''a'' 1015 []), OpAdd (\<lambda>_. 0) 1000 (new_job ''bb'' 1005 [])]"

theorem hub_ids_unique_witness:
  "\<exists>rs h. hub_run (cuckoo_ops demo_hash id) demo_ops demo_hub = Some (rs, h) \<and>
     rs = [AddReply None, AddReply None] \<and> (\<forall>jid. count (hub_ids h) jid \<le> 1)"
proof -
  have 1: "clean_run (cuckoo_ops demo_hash id) demo_ops demo_hub" by code_simp
  have "map_option fst (hub_run (cuckoo_ops demo_hash id) demo_ops demo_hub) =
      Some [AddReply None, AddReply None]" by code_simp
  then obtain h where 2: "hub_run (cuckoo_ops demo_hash id) demo_ops demo_hub =
      Some ([AddReply None, AddReply None], h)" by auto
  from hub_ids_unique [OF 1 [unfolded demo_hub_def] 2 [unfolded demo_hub_def]] 2
  show ?thesis by blast
qed

lemma demo_run:
  obtains h where "hub_run (cuckoo_ops demo_hash id) demo_ops
      (new_hub (new_filter 4, 0) 10 1000 1000) = Some ([AddReply None, AddReply None], h)"
proof -
  have "map_option fst (hub_run (cuckoo_ops demo_hash id) demo_ops demo_hub) =
      Some [AddReply None, AddReply None]" by code_simp
  then show ?thesis using that by (auto simp: demo_hub_def)
qed

text \<open>
  C3: The hub with the cuckoo filter is a map from ids to jobs: the replies of every run in
  which no filter insertion fails and no unknown id is cancelled on a false positive are the
  replies of a run of the map from the empty one, call by call (a new id is taken in, a known
  one rejected, \<open>Next\<close> takes out a job that is ready, a cancel the job of its id), and the
  jobs the hub holds in the end are the entries of the map.
\<close>

theorem hub_refines_map:
  assumes "clean_run (cuckoo_ops hash tape) ops (new_hub (new_filter cap, p) width now1 now2)"
    and "hub_run (cuckoo_ops hash tape) ops (new_hub (new_filter cap, p) width now1 now2) = Some (rs, h)"
  shows "\<exists>m. map_run width Map.empty ops rs m \<and> represents h m"
proof -
  obtain k where "cf_valid k (new_filter cap)" using new_filter_valid by blast
  then have "hub_filtered (cf_valid k \<circ> fst) (cf_content hash k \<circ> fst) (cf_class hash k \<circ> bytes_of)
      (new_hub (new_filter cap, p) width now1 now2)"
    by (intro ck.new_hub_filtered) simp
  from ck.run_simulated [OF this new_hub_good new_hub_represents assms]
  show ?thesis by (simp add: new_hub_def)
qed

theorem hub_refines_map_witness:
  "\<exists>rs h m. hub_run (cuckoo_ops demo_hash id) demo_ops demo_hub = Some (rs, h) \<and>
     rs = [AddReply None, AddReply None] \<and> map_run 10 Map.empty demo_ops rs m \<and> represents h m"
proof -
  have 1: "clean_run (cuckoo_ops demo_hash id) demo_ops demo_hub" by code_simp
  obtain h where 2: "hub_run (cuckoo_ops demo_hash id) demo_ops demo_hub = Some ([AddReply None, AddReply None], h)"
    using demo_run unfolding demo_hub_def by blast
  from hub_refines_map [OF 1 [unfolded demo_hub_def] 2 [unfolded demo_hub_def]] 2
  show ?thesis by blast
qed

text \<open>
  C4: Nothing gets stuck for ever: after every run from a new hub there is an instant from
  which on as many polls as there are jobs, each of at most one call more than there are
  waiting spokes, hand out every job of the hub exactly once and leave the hub empty.
\<close>

theorem hub_drains:
  assumes "hub_run F ops (new_hub f width now1 now2) = Some (rs, h)"
  shows "\<exists>t0. \<forall>now\<ge>t0. \<exists>js h'. drain_with (hub_take F now) (size (hub_jobs h)) h = (js, h') \<and>
    mset js = hub_jobs h \<and> hub_jobs h' = {#}"
proof -
  have "hub_good h" using hub_run_good [OF new_hub_good, of F ops f width now1 now2] assms by simp
  then obtain t0 where "\<forall>now\<ge>t0. hub_due now h"
    using hub_due_eventually by (auto simp: hub_good_def)
  then have "\<forall>now\<ge>t0. \<exists>js h'. drain_with (hub_take F now) (size (hub_jobs h)) h = (js, h') \<and>
      mset js = hub_jobs h \<and> hub_jobs h' = {#}"
    using hubq.drain_all by (metis order_refl surj_pair)
  then show ?thesis by blast
qed

theorem hub_drains_witness:
  "\<exists>rs h t0. hub_run (cuckoo_ops demo_hash id) demo_ops (new_hub (new_filter 4, 0) 10 1000 1000) =
      Some (rs, h) \<and>
    (\<forall>now\<ge>t0. \<exists>js h'. drain_with (hub_take (cuckoo_ops demo_hash id) now) (size (hub_jobs h)) h = (js, h') \<and>
      mset js = hub_jobs h \<and> hub_jobs h' = {#})"
proof -
  obtain h where h: "hub_run (cuckoo_ops demo_hash id) demo_ops
      (new_hub (new_filter 4, 0) 10 1000 1000) = Some ([AddReply None, AddReply None], h)"
    by (rule demo_run)
  from hub_drains [OF h] h show ?thesis by blast
qed

text \<open>
  Jobs come out ordered by trigger time: whatever future jobs are added to a new hub, in
  whatever order, polling late enough hands out all of them, sorted by trigger time.
\<close>

theorem hub_delivers_in_order:
  assumes "\<forall>(rank, now, j) \<in> set as. now < trigger_at j"
  shows "\<exists>t0. \<forall>now\<ge>t0. \<forall>js h'.
    (let h = hub_add_all F as (new_hub f width now1 now2)
     in drain_with (hub_take F now) (size (hub_jobs h)) h = (js, h') \<longrightarrow>
        sorted (map trigger_at js) \<and> mset js = hub_jobs h)"
proof -
  define h where "h = hub_add_all F as (new_hub f width now1 now2)"
  have u: "hub_untouched h" unfolding h_def by (rule add_all_untouched [OF new_hub_untouched assms(1)])
  then obtain t0 where "\<forall>now\<ge>t0. hub_due now h"
    using hub_due_eventually by (auto simp: hub_untouched_def hub_good_def)
  with untouched_ordered [OF u] have o: "\<forall>now\<ge>t0. hub_due_ordered now h"
    by (simp add: hub_due_ordered_def)
  have "sorted (map trigger_at js) \<and> mset js = hub_jobs h"
    if "t0 \<le> now" "drain_with (hub_take F now) (size (hub_jobs h)) h = (js, h')" for now js h'
    using huboq.drain_sorted huboq.drain_all o that by blast
  then show ?thesis unfolding Let_def h_def by blast
qed

theorem hub_delivers_in_order_witness:
  "\<exists>t0. \<forall>now\<ge>t0. \<forall>js h'.
     (let h = hub_add_all (cuckoo_ops demo_hash id) [(\<lambda>_. 0, 1000, new_job ''a'' 1015 []),
        (\<lambda>_. 0, 1000, new_job ''bb'' 1005 [])] (new_hub (new_filter 4, 0) 10 1000 1000)
      in drain_with (hub_take (cuckoo_ops demo_hash id) now) (size (hub_jobs h)) h = (js, h') \<longrightarrow>
         sorted (map trigger_at js) \<and> mset js = hub_jobs h)"
proof -
  have "\<forall>(rank :: bound \<Rightarrow> nat, now, j) \<in> set [(\<lambda>_. 0, 1000, new_job ''a'' 1015 []),
        (\<lambda>_. 0, 1000, new_job ''bb'' 1005 [])]. now < trigger_at j"
    by (simp add: new_job_def)
  from hub_delivers_in_order [OF this] show ?thesis unfolding Let_def .
qed

text \<open>
  C5: The order does not depend on when the hub is polled: after future jobs have been added to
  a new hub, any number of calls of \<open>NextLocked\<close>, whatever the clock reads in each, hand out jobs
  sorted by trigger time, none of which triggers later than a job still held, and no job is lost.
\<close>

theorem hub_order_any_clock:
  assumes "\<forall>(rank, now, j) \<in> set as. now < trigger_at j"
  shows "\<exists>rs h. hub_run F (map OpNext clks) (hub_add_all F as (new_hub f width now1 now2)) = Some (rs, h) \<and>
    sorted (map trigger_at (handed_out rs)) \<and>
    mset (handed_out rs) + hub_jobs h = hub_jobs (hub_add_all F as (new_hub f width now1 now2)) \<and>
    (\<forall>j \<in> set (handed_out rs). \<forall>k \<in># hub_jobs h. trigger_at j \<le> trigger_at k)"
proof -
  let ?h = "hub_add_all F as (new_hub f width now1 now2)"
  have u: "hub_untouched ?h" by (rule add_all_untouched [OF new_hub_untouched assms])
  then have good: "hub_good ?h" by (simp add: hub_untouched_def)
  obtain rs h where run: "hub_run F (map OpNext clks) ?h = Some (rs, h)"
    using hub_run_good [OF good, of F "map OpNext clks"] by auto
  from hub_run_ordered [OF good untouched_ordered [OF u] run] run show ?thesis by blast
qed

text \<open>The first poll comes before either trigger time; the jobs were added in the other order.\<close>

theorem hub_order_any_clock_witness:
  "\<exists>rs h. hub_run (cuckoo_ops demo_hash id) (map OpNext [\<lambda>_. 1001, \<lambda>_. 1006, \<lambda>_. 1030])
      (hub_add_all (cuckoo_ops demo_hash id) [(\<lambda>_. 0, 1000, new_job ''a'' 1015 []),
        (\<lambda>_. 0, 1000, new_job ''bb'' 1005 [])] (new_hub (new_filter 4, 0) 10 1000 1000)) = Some (rs, h) \<and>
    sorted (map trigger_at (handed_out rs))"
proof -
  have "\<forall>(rank :: bound \<Rightarrow> nat, now, j) \<in> set [(\<lambda>_. 0, 1000, new_job ''a'' 1015 []),
        (\<lambda>_. 0, 1000, new_job ''bb'' 1005 [])]. now < trigger_at j"
    by (simp add: new_job_def)
  from hub_order_any_clock [OF this, of "cuckoo_ops demo_hash id" "[\<lambda>_. 1001, \<lambda>_. 1006, \<lambda>_. 1030]"] show ?thesis by blast
qed

text \<open>
  C6: What \<open>NextLocked\<close> answers, in every hub reached from a new one: a job that was ready
  when the clock was read and leaves the hub, with nothing else changed; or nothing, and then
  no job of the past spoke and none of the spoke that is current afterwards is ready.
\<close>

theorem hub_next_answer:
  assumes "hub_run F ops (new_hub f width now1 now2) = Some (rs, h)"
  shows "\<exists>r h'. hub_next F clk h = Some (r, h') \<and>
    (case r of
       None \<Rightarrow> hub_jobs h' = hub_jobs h \<and> next_quiet clk h h'
     | Some j \<Rightarrow> hub_jobs h = add_mset j (hub_jobs h') \<and> (trigger_at j \<le> clk 0 \<or> trigger_at j \<le> clk 5))"
proof -
  have "hub_wf h"
    using hub_run_good [OF new_hub_good, of F ops f width now1 now2] assms by (simp add: hub_good_def)
  then show ?thesis
    by (cases rule: hub_next_cases [where F = F and clk = clk]) (auto simp: jobs_kept_def)
qed

theorem hub_next_answer_witness:
  "\<exists>rs h r h'. hub_run (cuckoo_ops demo_hash id) demo_ops (new_hub (new_filter 4, 0) 10 1000 1000) =
      Some (rs, h) \<and> hub_next (cuckoo_ops demo_hash id) (\<lambda>_. 1006) h = Some (r, h') \<and>
    (case r of
       None \<Rightarrow> hub_jobs h' = hub_jobs h \<and> next_quiet (\<lambda>_. 1006) h h'
     | Some j \<Rightarrow> hub_jobs h = add_mset j (hub_jobs h') \<and> (trigger_at j \<le> 1006 \<or> trigger_at j \<le> 1006))"
proof -
  obtain h where h: "hub_run (cuckoo_ops demo_hash id) demo_ops
      (new_hub (new_filter 4, 0) 10 1000 1000) = Some ([AddReply None, AddReply None], h)"
    by (rule demo_run)
  from hub_next_answer [OF h, of "\<lambda>_. 1006"] h show ?thesis by blast
qed

text \<open>
  C23: A filter hit that is not a job of the hub. If \<open>d\<close> is not held but its entry in the
  cuckoo filter collides with the only entry of a held job, then cancelling \<open>d\<close> answers
  like every idempotent cancel, and afterwards the held job can no longer be cancelled by its
  id, and a second job of the same id is accepted.
\<close>

theorem cancel_collision_loses_job:
  assumes "hub_filtered (cf_valid k \<circ> fst) (cf_content hash k \<circ> fst) (cf_class hash k \<circ> bytes_of) h"
    and "job_id j \<in># hub_ids h" and "d \<notin># hub_ids h"
    and "cf_class hash k (bytes_of d) = cf_class hash k (bytes_of (job_id j))"
    and "count (cf_content hash k (fst (job_filter_state h))) (cf_class hash k (bytes_of (job_id j))) = 1"
    and "accepts now j h"
  shows "\<exists>h1. hub_cancel (cuckoo_ops hash tape) rank d h = Some (Inr None, h1) \<and>
    hub_jobs h1 = hub_jobs h \<and>
    hub_cancel (cuckoo_ops hash tape) rank (job_id j) h1 = Some (Inr None, h1) \<and>
    (\<exists>h2. hub_add (cuckoo_ops hash tape) rank now j h1 = (None, h2) \<and>
       hub_jobs h2 = add_mset j (hub_jobs h))"
  by (rule ck.cancel_breaks [OF assms(1-3)]) (use assms(4-6) in simp_all)

definition collide_hash :: hash64 where
  "collide_hash bs seed = 7"

definition one_op :: "hub_op list" where
  "one_op = [OpAdd (\<lambda>_. 0) 1000 (new_job ''a'' 1015 [])]"

text \<open>The jobs of a spoke as a list in heap order, for evaluation.\<close>

definition spoke_list :: "spoke \<Rightarrow> job list" where
  "spoke_list s = map (queue_job s) (pq_arr (job_queue s))"

definition hub_list :: "'f hub \<Rightarrow> job list" where
  "hub_list h = concat (map (\<lambda>a. spoke_list (spoke_at h a)) (live h))"

lemma spoke_list_jobs: "spoke_jobs s = mset (spoke_list s)"
  by (simp add: spoke_jobs_def spoke_list_def)

lemma hub_list_jobs: "hub_jobs h = mset (hub_list h)"
  by (simp add: hub_jobs_def hub_list_def spoke_list_jobs mset_concat comp_def sum_mset_sum_list
      flip: mset_map)

theorem cancel_collision_loses_job_witness:
  "\<exists>h h1 h2. hub_run (cuckoo_ops collide_hash id) one_op (new_hub (new_filter 4, 0) 10 1000 1000) =
      Some ([AddReply None], h) \<and>
    hub_cancel (cuckoo_ops collide_hash id) (\<lambda>_. 0) ''b'' h = Some (Inr None, h1) \<and>
    hub_cancel (cuckoo_ops collide_hash id) (\<lambda>_. 0) ''a'' h1 = Some (Inr None, h1) \<and>
    hub_add (cuckoo_ops collide_hash id) (\<lambda>_. 0) 1000 (new_job ''a'' 1015 []) h1 = (None, h2) \<and>
    hub_jobs h2 = {#new_job ''a'' 1015 [], new_job ''a'' 1015 []#}"
proof -
  let ?F = "cuckoo_ops collide_hash id" and ?h0 = "new_hub (new_filter 4, 0 :: nat) 10 1000 1000"
    and ?j = "new_job ''a'' 1015 []" and ?c = "cf_class collide_hash 0"
  have "map_option (\<lambda>(rs, h). (rs, hub_list h, ck_buckets (fst (job_filter_state h)), sint (spoke_span h)))
      (hub_run ?F one_op ?h0) = Some ([AddReply None], [?j], [[8, 0, 0, 0]], 10)"
    by code_simp
  then obtain h where h: "hub_run ?F one_op ?h0 = Some ([AddReply None], h)" "hub_list h = [?j]"
    "ck_buckets (fst (job_filter_state h)) = [[8, 0, 0, 0]]" "sint (spoke_span h) = 10" by auto
  have clean: "clean_run ?F one_op ?h0" by code_simp
  have "cf_valid 0 (new_filter 4)" by (simp add: cf_valid_def new_filter_def get_next_pow2_def bucket_size_def)
  then have "hub_filtered (cf_valid 0 \<circ> fst) (cf_content collide_hash 0 \<circ> fst) (?c \<circ> bytes_of) ?h0"
    by (intro ck.new_hub_filtered) simp
  from ck.clean_run_filtered [OF this clean h(1)]
  have f: "hub_filtered (cf_valid 0 \<circ> fst) (cf_content collide_hash 0 \<circ> fst) (?c \<circ> bytes_of) h" .
  have c: "?c (bytes_of d) = (8, {0})" for d
    by (simp add: cf_class_def get_indices_and_fingerprint_def get_fingerprint_def collide_hash_def
        place_def get_alt_index_def)
  have one: "count (cf_content collide_hash 0 (fst (job_filter_state h))) (?c (bytes_of (job_id ?j))) = 1"
    unfolding c by (simp add: cf_content_def slot_classes_def entries_def h(3) place_def get_alt_index_def)
  have jobs: "hub_jobs h = {#?j#}" by (simp add: hub_list_jobs h(2))
  have "\<exists>h1. hub_cancel ?F (\<lambda>_. 0) ''b'' h = Some (Inr None, h1) \<and> hub_jobs h1 = hub_jobs h \<and>
    hub_cancel ?F (\<lambda>_. 0) (job_id ?j) h1 = Some (Inr None, h1) \<and>
    (\<exists>h2. hub_add ?F (\<lambda>_. 0) 1000 ?j h1 = (None, h2) \<and> hub_jobs h2 = add_mset ?j (hub_jobs h))"
    by (rule cancel_collision_loses_job [OF f _ _ _ one])
      (simp_all add: hub_ids_def jobs c accepts_def h(4), simp_all add: new_job_def)
  then show ?thesis using h(1) jobs by (auto simp: new_job_def)
qed

text \<open>
  C22: A current spoke that has not expired holds the whole queue up: while it has jobs and
  none of them is ready, \<open>NextLocked\<close> answers nothing, whatever ready jobs the waiting
  spokes hold. A future spoke becomes current as soon as it is the earliest one
  (\<open>AsTemporalState\<close> of a spoke never answers \<open>Future\<close>), so a job added afterwards
  with an earlier trigger time is not handed out in time.
\<close>

theorem current_spoke_starves_others:
  assumes "hub_run F ops (new_hub f width now1 now2) = Some (rs, h)" and "current_spoke h = Some c"
    and "\<forall>j \<in># spoke_jobs (spoke_at h (past_spoke h)). clk 0 < trigger_at j"
    and "spoke_jobs (spoke_at h c) \<noteq> {#}"
    and "\<forall>j \<in># spoke_jobs (spoke_at h c). clk 5 < trigger_at j"
  shows "hub_next F clk h = Some (None, h)"
proof -
  have "hub_wf h"
    using hub_run_good [OF new_hub_good, of F ops f width now1 now2] assms(1) by (simp add: hub_good_def)
  from current_spoke_holds [OF this assms(2-5)] show ?thesis .
qed

definition starve_ops :: "hub_op list" where
  "starve_ops = [OpAdd (\<lambda>_. 0) 1000 (new_job ''year'' 9000 []), OpNext (\<lambda>_. 1001),
     OpAdd (\<lambda>_. 0) 1002 (new_job ''soon'' 1005 [])]"

text \<open>The job due at 1005 is not handed out at 8000.\<close>

theorem current_spoke_starves_others_witness:
  "\<exists>h. hub_run (cuckoo_ops demo_hash id) starve_ops (new_hub (new_filter 4, 0) 10 1000 1000) =
      Some ([AddReply None, NextReply None, AddReply None], h) \<and>
    new_job ''soon'' 1005 [] \<in># hub_jobs h \<and>
    hub_next (cuckoo_ops demo_hash id) (\<lambda>_. 8000) h = Some (None, h)"
proof -
  let ?F = "cuckoo_ops demo_hash id" and ?h0 = "new_hub (new_filter 4, 0) 10 1000 1000"
  have "map_option (\<lambda>(rs, h). (rs, current_spoke h, past_spoke h, spoke_list (spoke_at h 1),
        spoke_list (spoke_at h 0), hub_list h)) (hub_run ?F starve_ops ?h0) =
      Some ([AddReply None, NextReply None, AddReply None], Some 1, 0, [new_job ''year'' 9000 []], [],
        [new_job ''year'' 9000 [], new_job ''soon'' 1005 []])"
    by code_simp
  then obtain h where h: "hub_run ?F starve_ops ?h0 = Some ([AddReply None, NextReply None, AddReply None], h)"
    "current_spoke h = Some 1" "past_spoke h = 0" "spoke_list (spoke_at h 1) = [new_job ''year'' 9000 []]"
    "spoke_list (spoke_at h 0) = []" "hub_list h = [new_job ''year'' 9000 [], new_job ''soon'' 1005 []]"
    by auto
  have "hub_next ?F (\<lambda>_. 8000) h = Some (None, h)"
    by (rule current_spoke_starves_others [OF h(1,2)])
      (simp_all add: spoke_list_jobs h new_job_def del: One_nat_def)
  with h(1) show ?thesis by (auto simp: hub_list_jobs h(6))
qed

text \<open>
  \<open>Prune\<close> reports the number of all spokes of the map, not of the pruned ones.
\<close>

theorem prune_counts_all_spokes: "fst (hub_prune rank clk h) = length (spoke_map h)"
proof -
  have "fst (prune_loop clk n as h) = n + length as" for n as and h :: "'a hub"
    by (induction clk n as h rule: prune_loop.induct) simp_all
  then show ?thesis by (simp add: hub_prune_def map_range_def)
qed

section \<open>Inspection\<close>

text \<open>
  C36: \<open>GetNJobs\<close>, when no other call overlaps it (it takes the locks of the spokes one after
  the other, and not the hub's), only shows jobs of the hub, each at most once, and all of
  them when the number asked for is large enough.
\<close>

theorem inspect_shows_jobs:
  assumes "hub_run F ops (new_hub f width now1 now2) = Some (rs, h)"
  shows "mset (get_n_jobs rank n h) \<subseteq># hub_jobs h \<and>
    (int (size (hub_jobs h)) \<le> sint n \<longrightarrow> mset (get_n_jobs rank n h) = hub_jobs h)"
proof -
  have "hub_wf h"
    using hub_run_good [OF new_hub_good, of F ops f width now1 now2] assms by (simp add: hub_good_def)
  then show ?thesis using get_n_jobs_sub get_n_jobs_all by blast
qed

lemma demo_jobs:
  obtains h where "hub_run (cuckoo_ops demo_hash id) demo_ops
      (new_hub (new_filter 4, 0 :: nat) 10 1000 1000) = Some ([AddReply None, AddReply None], h)"
    "hub_list h = [new_job ''a'' 1015 [], new_job ''bb'' 1005 []]" "length (spoke_map h) = 2"
    "map job_id (get_n_jobs (\<lambda>_. 0) 1 h) = [''a'', ''bb'']"
proof -
  have "map_option (\<lambda>(rs, h). (rs, hub_list h, length (spoke_map h), map job_id (get_n_jobs (\<lambda>_. 0) 1 h)))
      (hub_run (cuckoo_ops demo_hash id) demo_ops demo_hub) =
      Some ([AddReply None, AddReply None], [new_job ''a'' 1015 [], new_job ''bb'' 1005 []], 2,
        [''a'', ''bb''])"
    by code_simp
  then show ?thesis using that by (auto simp: demo_hub_def)
qed

theorem inspect_shows_jobs_witness:
  "\<exists>rs h. hub_run (cuckoo_ops demo_hash id) demo_ops (new_hub (new_filter 4, 0 :: nat) 10 1000 1000) =
      Some (rs, h) \<and>
    mset (get_n_jobs (\<lambda>_. 0) 2 h) = {#new_job ''a'' 1015 [], new_job ''bb'' 1005 []#}"
proof -
  obtain h where h: "hub_run (cuckoo_ops demo_hash id) demo_ops
      (new_hub (new_filter 4, 0 :: nat) 10 1000 1000) = Some ([AddReply None, AddReply None], h)"
    "hub_list h = [new_job ''a'' 1015 [], new_job ''bb'' 1005 []]" by (rule demo_jobs)
  from inspect_shows_jobs [OF h(1), of "\<lambda>_. 0" 2] h show ?thesis by (auto simp: hub_list_jobs)
qed

text \<open>
  C37: \<open>GetNJobs\<close>, asked for a positive number and overlapped by no other call, may return
  more: the \<open>break\<close> at the number only leaves the inner loop. When the number is reached in the
  spoke \<open>a\<close> of the map, each spoke with jobs that the iteration comes to afterwards sends one
  more, so exactly that many too many come; never more than there are spokes in the map.
\<close>

theorem inspect_limit:
  assumes "0 < sint n" and "int (length (spoke_map h)) < 2 ^ 63"
  shows "(\<forall>as a bs. map_range rank h = as @ a # bs \<and> int (jobs_in h (past_spoke h # as)) < sint n \<and>
      sint n \<le> int (jobs_in h (past_spoke h # as @ [a])) \<longrightarrow>
      int (length (get_n_jobs rank n h)) =
        sint n + int (length (filter (\<lambda>b. spoke_jobs (spoke_at h b) \<noteq> {#}) bs))) \<and>
    int (length (get_n_jobs rank n h)) \<le> sint n + int (length (spoke_map h))"
  using get_n_jobs_count [OF assms] get_n_jobs_length [OF assms] by blast

text \<open>One job is asked for, and two are returned.\<close>

theorem inspect_limit_witness:
  "\<exists>rs h. hub_run (cuckoo_ops demo_hash id) demo_ops (new_hub (new_filter 4, 0 :: nat) 10 1000 1000) =
      Some (rs, h) \<and> int (length (get_n_jobs (\<lambda>_. 0) 1 h)) = 1 + 1"
proof -
  have "map_option (\<lambda>(rs, h). (rs, map_range (\<lambda>_. 0) h, past_spoke h, spoke_list (spoke_at h 0),
        spoke_list (spoke_at h 1), spoke_list (spoke_at h 2), length (spoke_map h)))
      (hub_run (cuckoo_ops demo_hash id) demo_ops demo_hub) =
      Some ([AddReply None, AddReply None], [1, 2], 0, [], [new_job ''a'' 1015 []], [new_job ''bb'' 1005 []], 2)"
    by code_simp
  then obtain h where h: "hub_run (cuckoo_ops demo_hash id) demo_ops
      (new_hub (new_filter 4, 0 :: nat) 10 1000 1000) = Some ([AddReply None, AddReply None], h)"
    "map_range (\<lambda>_. 0) h = [1, 2]" "past_spoke h = 0" "spoke_list (spoke_at h 0) = []"
    "spoke_list (spoke_at h 1) = [new_job ''a'' 1015 []]" "spoke_list (spoke_at h 2) = [new_job ''bb'' 1005 []]"
    "length (spoke_map h) = 2"
    by (auto simp: demo_hub_def simp del: One_nat_def)
  have "0 < sint (1 :: 64 word)" "int (length (spoke_map h)) < 2 ^ 63" by (simp_all add: h(7))
  from inspect_limit [OF this, of "\<lambda>_. 0", THEN conjunct1, THEN spec, of "[]", THEN spec, of 1, THEN spec, of "[2]"] h
  show ?thesis by (auto simp: spoke_list_jobs simp del: One_nat_def)
qed

section \<open>Saving and restoring\<close>

text \<open>
  \<open>PersistLocked\<close> hands every job of the hub to the persister exactly once, whatever
  the persister answers, and finalizes it at the end.
\<close>

theorem persist_saves_every_job:
  assumes "hub_run F ops (new_hub f width now1 now2) = Some (rs, h)"
  shows "\<exists>js. mset js = hub_jobs h \<and>
    hub_persist P h st = (let (es, st1) = persist_jobs P js st in (es, p_finalize P st1))"
proof -
  have "hub_wf h"
    using hub_run_good [OF new_hub_good, of F ops f width now1 now2] assms by (simp add: hub_good_def)
  from persist_order_mset [OF this] hub_persist_eq [of P h st] show ?thesis
    by (intro exI [of _ "persist_order h"]) simp
qed

text \<open>A persister that keeps the ids, in order, and marks the end.\<close>

definition id_persister :: "(string list, unit) persister_ops" where
  "id_persister = \<lparr>p_persist = \<lambda>j st. (None, st @ [job_id j]), p_finalize = \<lambda>st. st @ [[]],
     p_recover = \<lambda>st. Inl ()\<rparr>"

theorem persist_saves_every_job_witness:
  "\<exists>rs h js. hub_run (cuckoo_ops demo_hash id) demo_ops (new_hub (new_filter 4, 0 :: nat) 10 1000 1000) =
      Some (rs, h) \<and> mset js = {#new_job ''a'' 1015 [], new_job ''bb'' 1005 []#} \<and>
    hub_persist id_persister h [] =
      (let (es, st1) = persist_jobs id_persister js [] in (es, p_finalize id_persister st1))"
proof -
  obtain h where h: "hub_run (cuckoo_ops demo_hash id) demo_ops
      (new_hub (new_filter 4, 0 :: nat) 10 1000 1000) = Some ([AddReply None, AddReply None], h)"
    "hub_list h = [new_job ''a'' 1015 [], new_job ''bb'' 1005 []]" by (rule demo_jobs)
  have "hub_jobs h = {#new_job ''a'' 1015 [], new_job ''bb'' 1005 []#}" by (simp add: hub_list_jobs h(2))
  with persist_saves_every_job [OF h(1), of id_persister "[]"] h(1) obtain js where
    "mset js = {#new_job ''a'' 1015 [], new_job ''bb'' 1005 []#}"
    "hub_persist id_persister h [] =
      (let (es, st1) = persist_jobs id_persister js [] in (es, p_finalize id_persister st1))"
    by auto
  with h(1) show ?thesis by blast
qed

text \<open>
  A snapshot brings every job back: take the encodings of the jobs of a hub in the order
  in which they are saved, and restore them into a new hub. If no two jobs share an id and
  every trigger time lies within the range of \<open>UnixNano\<close> and the bound of the new past
  spoke, all jobs are recovered without an error, and the new hub holds the same jobs.
\<close>

theorem snapshot_restores_hub:
  assumes "hub_run F ops (new_hub f width now1 now2) = Some (rs, h)"
    and "\<forall>x. count (hub_ids h) x \<le> 1"
    and "\<forall>j \<in># hub_jobs h. restorable (past_bound (new_hub f' width' now1' now2')) j"
    and "list_all2 (\<lambda>j b. gob_encode j = Inr b) (persist_order h) bufs"
    and "0 < sint width'" and "p_recover P st = Inr bufs"
  shows "\<exists>h'. hub_restore P F' ranks clk st (new_hub f' width' now1' now2') = (None, h') \<and>
    hub_jobs h' = hub_jobs h"
proof -
  let ?h0 = "new_hub f' width' now1' now2'"
  have wf: "hub_wf h"
    using hub_run_good [OF new_hub_good, of F ops f width now1 now2] assms(1) by (simp add: hub_good_def)
  note order = persist_order_mset [OF wf]
  have ids: "distinct (map job_id (persist_order h))"
    by (rule distinct_ids [OF order]) (use assms(2) in \<open>simp add: hub_ids_def\<close>)
  have "\<forall>j \<in> set (persist_order h). restorable (past_bound ?h0) j"
    using assms(3) unfolding order [symmetric] by simp
  then show ?thesis
    by (rule restore_snapshot [OF ids _ assms(4-6)]) (auto simp: order)
qed

text \<open>A persister whose state is what it recovers.\<close>

definition list_persister :: "(bytes list, unit) persister_ops" where
  "list_persister = \<lparr>p_persist = \<lambda>j st. (None, st), p_finalize = \<lambda>st. st, p_recover = \<lambda>st. Inr st\<rparr>"

definition epoch_job :: job where
  "epoch_job = new_job ''a'' (unix_epoch + 15) [1]"

definition epoch_ops :: "hub_op list" where
  "epoch_ops = [OpAdd (\<lambda>_. 0) unix_epoch epoch_job]"

lemma epoch_hub:
  obtains h b where "hub_run (cuckoo_ops demo_hash id) epoch_ops
      (new_hub (new_filter 4, 0 :: nat) 10 unix_epoch unix_epoch) = Some ([AddReply None], h)"
    "hub_jobs h = {#epoch_job#}" "persist_order h = [epoch_job]" "gob_encode epoch_job = Inr b"
    "saveable (new_hub (new_filter 4, 0 :: nat) 10 unix_epoch unix_epoch) h"
proof -
  let ?F = "cuckoo_ops demo_hash id" and ?h0 = "new_hub (new_filter 4, 0 :: nat) 10 unix_epoch unix_epoch"
  have "map_option (\<lambda>(rs, h). (rs, hub_list h, persist_order h)) (hub_run ?F epoch_ops ?h0) =
      Some ([AddReply None], [epoch_job], [epoch_job])" by code_simp
  then obtain h where h: "hub_run ?F epoch_ops ?h0 = Some ([AddReply None], h)"
    "hub_list h = [epoch_job]" "persist_order h = [epoch_job]" by auto
  have j: "hub_jobs h = {#epoch_job#}" by (simp add: hub_list_jobs h(2))
  have "hub_wf h" using hub_run_good [OF new_hub_good, of ?F epoch_ops "(new_filter 4, 0)" 10 unix_epoch unix_epoch] h
    by (auto simp: hub_good_def)
  moreover have "past_bound ?h0 = new_bound (t_add unix_epoch (- 1 * hundred_years)) (t_add unix_epoch hundred_years)"
    by (simp add: past_bound_def new_hub_def spoke_at_def spoke_simps)
  then have "restorable (past_bound ?h0) epoch_job"
    by (simp add: restorable_def unix_range_def epoch_job_def new_job_def contains_time_iff t_add_def
        hundred_years_def hour_def)
  moreover have g: "gob_small epoch_job" by (simp add: gob_small_def epoch_job_def new_job_def too_big_def)
  ultimately have "saveable ?h0 h" by (simp add: saveable_def j hub_ids_def)
  moreover obtain b where "gob_encode epoch_job = Inr b" using gob_encode_ok [OF g] by blast
  ultimately show ?thesis using that h(1,3) j by blast
qed

theorem snapshot_restores_hub_witness:
  "\<exists>rs h b h'. hub_run (cuckoo_ops demo_hash id) epoch_ops
       (new_hub (new_filter 4, 0 :: nat) 10 unix_epoch unix_epoch) = Some (rs, h) \<and>
     gob_encode epoch_job = Inr b \<and>
     hub_restore list_persister (cuckoo_ops demo_hash id) (\<lambda>_ _. 0) (\<lambda>_. unix_epoch) [b]
       (new_hub (new_filter 4, 0 :: nat) 10 unix_epoch unix_epoch) = (None, h') \<and>
     hub_jobs h' = {#epoch_job#}"
proof -
  let ?F = "cuckoo_ops demo_hash id" and ?h0 = "new_hub (new_filter 4, 0 :: nat) 10 unix_epoch unix_epoch"
  obtain h b where h: "hub_run ?F epoch_ops ?h0 = Some ([AddReply None], h)" "hub_jobs h = {#epoch_job#}"
    "persist_order h = [epoch_job]" "gob_encode epoch_job = Inr b" "saveable ?h0 h"
    by (rule epoch_hub)
  have r: "\<forall>x. count (hub_ids h) x \<le> 1" "\<forall>j \<in># hub_jobs h. restorable (past_bound ?h0) j"
    using h(5) by (simp_all add: saveable_def)
  have e: "list_all2 (\<lambda>j b. gob_encode j = Inr b) (persist_order h) [b]" by (simp add: h(3,4))
  have s: "0 < sint (10 :: duration)" "p_recover list_persister [b] = Inr [b]"
    by (simp_all add: list_persister_def)
  from snapshot_restores_hub [OF h(1) r e s, of ?F "\<lambda>_ _. 0" "\<lambda>_. unix_epoch"] h(1,2,4)
  show ?thesis by auto
qed

section \<open>Shutdown and restart\<close>

text \<open>
  C7: A shutdown and a restart through the journal and the blob store keep every job:
  \<open>Stop(true)\<close> of a hub with jobs saves them without an error, and \<open>Restore\<close> into a new hub,
  by a new persister on the same store, reports none and gives the same jobs.
\<close>

theorem shutdown_and_restart:
  assumes "blob_bucket B blobs pend writing" and "saveable (new_hub f width now1 now2) h"
    and "hub_jobs h \<noteq> {#}" and "0 < sint width"
  shows "\<exists>lp h'. hub_stop (journal_ops (blob_storage B now) sizes) True h (new_journal_persister s) = (0, lp) \<and>
    hub_restore (journal_ops (blob_storage B now') sizes') F ranks clk (new_journal_persister (jp_storage lp))
      (new_hub f width now1 now2) = (None, h') \<and> hub_jobs h' = hub_jobs h"
  by (rule stop_and_restore [OF assms, of now sizes s]) (use assms(2) in blast)

theorem shutdown_and_restart_witness:
  "\<exists>rs h lp h'. hub_run (cuckoo_ops demo_hash id) epoch_ops
       (new_hub (new_filter 4, 0 :: nat) 10 unix_epoch unix_epoch) = Some (rs, h) \<and>
     hub_stop (journal_ops (blob_storage journal_bucket []) (\<lambda>_ _. 0)) True h (new_journal_persister empty_store) = (0, lp) \<and>
     hub_restore (journal_ops (blob_storage journal_bucket []) (\<lambda>_ _. 511)) (cuckoo_ops demo_hash id) (\<lambda>_ _. 0)
       (\<lambda>_. unix_epoch) (new_journal_persister (jp_storage lp)) (new_hub (new_filter 4, 0 :: nat) 10 unix_epoch unix_epoch) =
       (None, h') \<and> hub_jobs h' = {#epoch_job#}"
proof -
  obtain h where h: "hub_run (cuckoo_ops demo_hash id) epoch_ops
      (new_hub (new_filter 4, 0 :: nat) 10 unix_epoch unix_epoch) = Some ([AddReply None], h)"
    "hub_jobs h = {#epoch_job#}" "saveable (new_hub (new_filter 4, 0 :: nat) 10 unix_epoch unix_epoch) h"
    using epoch_hub by metis
  have "hub_jobs h \<noteq> {#}" "0 < sint (10 :: duration)" by (simp_all add: h(2))
  from shutdown_and_restart [OF jmem.blob_bucket_axioms, OF h(3) this,
      of "[]" "\<lambda>_ _. 0" empty_store "[]" "\<lambda>_ _. 511" "cuckoo_ops demo_hash id" "\<lambda>_ _. 0" "\<lambda>_. unix_epoch"] h(1,2)
  show ?thesis by auto
qed

text \<open>
  C21: Jobs that were handed out come back: save a hub, restart from the snapshot, hand out
  every job, and stop again. A hub without jobs writes nothing, so the old snapshot stays,
  and the next restart restores every one of the jobs once more.
\<close>

theorem delivered_jobs_come_back:
  assumes "blob_bucket B blobs pend writing" and "saveable (new_hub (f :: 'f) width now1 now2) h1"
    and "hub_jobs h1 \<noteq> {#}" and "0 < sint width"
    and "hub_stop (journal_ops (blob_storage B now) sizes) True h1 (new_journal_persister s) = (n, lp1)"
    and "hub_restore (journal_ops (blob_storage B now) sizes) F ranks clk (new_journal_persister (jp_storage lp1))
      (new_hub f width now1 now2) = (err, h2)"
    and "hub_run F ops h2 = Some (rs, h3)" and "hub_jobs h3 = {#}"
    and "hub_stop (journal_ops (blob_storage B now) sizes) True h3 (new_journal_persister (jp_storage lp1)) = (m, lp3)"
    and "hub_restore (journal_ops (blob_storage B now) sizes) F ranks' clk' (new_journal_persister (jp_storage lp3))
      (new_hub f width now1 now2) = (err', h4)"
  shows "hub_jobs h4 = hub_jobs h1"
proof (rule stop_and_restore [OF assms(1-4), of now sizes s])
  fix lp
  assume l: "hub_stop (journal_ops (blob_storage B now) sizes) True h1 (new_journal_persister s) = (0, lp)"
    "\<And>F ranks clk now' sizes' f' now1' now2'. saveable (new_hub (f' :: 'f) width now1' now2') h1 \<Longrightarrow>
      \<exists>h'. hub_restore (journal_ops (blob_storage B now') sizes') F ranks clk
        (new_journal_persister (jp_storage lp)) (new_hub f' width now1' now2') = (None, h') \<and> hub_jobs h' = hub_jobs h1"
  have "hub_good h2" by (rule hub_restore_good [OF new_hub_good assms(6)])
  then have "hub_wf h3" using hub_run_good [of h2 F ops] assms(7) by (auto simp: hub_good_def)
  from stop_empty [OF this assms(8), of "blob_storage B now" sizes "jp_storage lp1"] assms(9)
  have "lp3 = new_journal_persister (jp_storage lp1)" by simp
  then have "jp_storage lp3 = jp_storage lp1" by (simp add: new_journal_persister_def)
  with l(1) l(2) [OF assms(2), of now sizes F ranks' clk'] assms(5,10) show ?thesis by auto
qed

text \<open>The first restart of the witness, up to the bytes of the snapshot.\<close>

lemma epoch_restore:
  assumes "gob_encode epoch_job = Inr b" and "p_recover P st = Inr [b]"
  obtains h where "hub_restore P (cuckoo_ops demo_hash id) (\<lambda>_ _. 0) (\<lambda>_. unix_epoch) st
      (new_hub (new_filter 4, 0 :: nat) 10 unix_epoch unix_epoch) = (None, h)"
    "\<exists>h'. hub_run (cuckoo_ops demo_hash id) [OpNext (\<lambda>_. unix_epoch + 100)] h =
      Some ([NextReply (Some epoch_job)], h') \<and> hub_jobs h' = {#}"
proof -
  let ?F = "cuckoo_ops demo_hash id" and ?h0 = "new_hub (new_filter 4, 0 :: nat) 10 unix_epoch unix_epoch"
  have "gob_decode b zero_job = (None, epoch_job)"
    by (rule gob_round_trip [OF assms(1)]) (simp add: unix_range_def epoch_job_def new_job_def)
  moreover obtain r h where a: "hub_add ?F (\<lambda>_. 0) unix_epoch epoch_job ?h0 = (r, h)" by fastforce
  have "(case hub_add ?F (\<lambda>_. 0) unix_epoch epoch_job ?h0 of (r, h) \<Rightarrow>
      (r, map_option (\<lambda>(rs, h). (rs, hub_list h)) (hub_run ?F [OpNext (\<lambda>_. unix_epoch + 100)] h))) =
      (None, Some ([NextReply (Some epoch_job)], []))" by code_simp
  then have "r = None" "\<exists>h'. hub_run ?F [OpNext (\<lambda>_. unix_epoch + 100)] h =
      Some ([NextReply (Some epoch_job)], h') \<and> hub_jobs h' = {#}"
    by (auto simp: a hub_list_jobs)
  ultimately show ?thesis using assms(2) a by (intro that [of h]) (simp_all add: hub_restore_def)
qed

theorem delivered_jobs_come_back_witness:
  "\<exists>rs h1 lp1 h2 h3 lp3 e h4. hub_run (cuckoo_ops demo_hash id) epoch_ops
       (new_hub (new_filter 4, 0 :: nat) 10 unix_epoch unix_epoch) = Some (rs, h1) \<and>
     hub_stop (journal_ops (blob_storage journal_bucket []) (\<lambda>_ _. 0)) True h1 (new_journal_persister empty_store) =
       (0, lp1) \<and>
     hub_restore (journal_ops (blob_storage journal_bucket []) (\<lambda>_ _. 0)) (cuckoo_ops demo_hash id) (\<lambda>_ _. 0)
       (\<lambda>_. unix_epoch) (new_journal_persister (jp_storage lp1)) (new_hub (new_filter 4, 0 :: nat) 10 unix_epoch unix_epoch) =
       (None, h2) \<and>
     hub_run (cuckoo_ops demo_hash id) [OpNext (\<lambda>_. unix_epoch + 100)] h2 =
       Some ([NextReply (Some epoch_job)], h3) \<and> hub_jobs h3 = {#} \<and>
     hub_stop (journal_ops (blob_storage journal_bucket []) (\<lambda>_ _. 0)) True h3
       (new_journal_persister (jp_storage lp1)) = (0, lp3) \<and>
     hub_restore (journal_ops (blob_storage journal_bucket []) (\<lambda>_ _. 0)) (cuckoo_ops demo_hash id) (\<lambda>_ _. 0)
       (\<lambda>_. unix_epoch) (new_journal_persister (jp_storage lp3)) (new_hub (new_filter 4, 0 :: nat) 10 unix_epoch unix_epoch) =
       (e, h4) \<and> hub_jobs h4 = {#epoch_job#}"
proof -
  let ?F = "cuckoo_ops demo_hash id" and ?h0 = "new_hub (new_filter 4, 0 :: nat) 10 unix_epoch unix_epoch"
    and ?P = "journal_ops (blob_storage journal_bucket []) (\<lambda>_ _. 0)"
  obtain h1 b where h1: "hub_run ?F epoch_ops ?h0 = Some ([AddReply None], h1)" "hub_jobs h1 = {#epoch_job#}"
    "persist_order h1 = [epoch_job]" "gob_encode epoch_job = Inr b" "saveable ?h0 h1"
    by (rule epoch_hub)
  have n: "hub_jobs h1 \<noteq> {#}" "0 < sint (10 :: duration)" by (simp_all add: h1(2))
  obtain lp1 bufs where lp1: "hub_stop ?P True h1 (new_journal_persister empty_store) = (0, lp1)"
    "p_recover ?P (new_journal_persister (jp_storage lp1)) = Inr bufs"
    "list_all2 (\<lambda>j b. gob_encode j = Inr b) (persist_order h1) bufs"
    using stop_saves [OF jmem.blob_bucket_axioms h1(5) n(1), of "[]" "\<lambda>_ _. 0" empty_store] by metis
  then have "bufs = [b]" using h1(3,4) by (auto simp: list_all2_Cons1)
  then obtain h2 h3 where h2: "hub_restore ?P ?F (\<lambda>_ _. 0) (\<lambda>_. unix_epoch)
      (new_journal_persister (jp_storage lp1)) ?h0 = (None, h2)"
    and h3: "hub_run ?F [OpNext (\<lambda>_. unix_epoch + 100)] h2 = Some ([NextReply (Some epoch_job)], h3)" "hub_jobs h3 = {#}"
    using epoch_restore [OF h1(4), of ?P "new_journal_persister (jp_storage lp1)"] lp1(2) by metis
  have "hub_good h3"
    using hub_run_good [OF hub_restore_good [OF new_hub_good h2], of ?F "[OpNext (\<lambda>_. unix_epoch + 100)]"] h3(1) by auto
  then have "hub_stop ?P True h3 (new_journal_persister (jp_storage lp1)) =
      (0, new_journal_persister (jp_storage lp1))"
    by (intro stop_empty [OF _ h3(2)]) (simp add: hub_good_def)
  then obtain lp3 where lp3: "hub_stop ?P True h3 (new_journal_persister (jp_storage lp1)) = (0, lp3)" by blast
  obtain e h4 where h4: "hub_restore ?P ?F (\<lambda>_ _. 0) (\<lambda>_. unix_epoch)
      (new_journal_persister (jp_storage lp3)) ?h0 = (e, h4)" by fastforce
  have "hub_jobs h4 = hub_jobs h1"
    by (rule delivered_jobs_come_back [OF jmem.blob_bucket_axioms h1(5) n lp1(1) h2 h3 lp3 h4])
  with h1(1,2) lp1(1) h2 h3 lp3 h4 show ?thesis by (metis (no_types, lifting))
qed

text \<open>
  C24: The jobs of a snapshot are not reported to the memory monitor: after a restore with the
  monitor on, the first \<open>Next\<close> that takes a job out of the hub panics, and so does the first
  \<open>Cancel\<close> that finds one.
\<close>

theorem restored_jobs_panic:
  assumes "hub_restore P F ranks clk st (new_hub f width now1 now2) = (e, h)"
    and "\<forall>j \<in># hub_jobs h. gob_small j" and "w \<noteq> 0"
  shows "(\<forall>clk' j h'. hub_next F clk' h = Some (Some j, h') \<longrightarrow> next_attempt F clk' (new_server h w) = Panicked) \<and>
    (\<forall>rank jid j h'. hub_cancel F rank jid h = Some (Inr (Some j), h') \<longrightarrow>
      rpc_cancel F rank jid (new_server h w) = Panicked)"
proof -
  have good: "hub_good h" by (rule hub_restore_good [OF new_hub_good assms(1)])
  have n: "j \<in># hub_jobs h" if "hub_next F clk' h = Some (Some j, h')" for clk' j h'
    using hub_do_goodD [OF good, of F "OpNext clk'" "NextReply (Some j)" h'] that
    by (simp add: union_single_eq_member flip: add_mset_add_single) (metis union_single_eq_member)
  have c: "j \<in># hub_jobs h" if "hub_cancel F rank jid h = Some (Inr (Some j), h')" for rank jid j h'
    using hub_do_goodD [OF good, of F "OpCancel rank jid" "CancelReply (Inr (Some j))" h'] that
    by (simp add: union_single_eq_member flip: add_mset_add_single) (metis union_single_eq_member)
  have h: "srv_hub (new_server h w) = h" by (simp add: new_server_def)
  have "next_attempt F clk' (new_server h w) = Panicked" if "hub_next F clk' h = Some (Some j, h')" for clk' j h'
    using small_release [OF assms(2) [rule_format, OF n [OF that]] assms(3), of h' h] that by (simp add: next_attempt_def h)
  moreover have "rpc_cancel F rank jid (new_server h w) = Panicked"
    if "hub_cancel F rank jid h = Some (Inr (Some j), h')" for rank jid j h'
    using small_release [OF assms(2) [rule_format, OF c [OF that]] assms(3), of h' h] that by (simp add: rpc_cancel_def h)
  ultimately show ?thesis by blast
qed

theorem restored_jobs_panic_witness:
  "\<exists>b h. gob_encode epoch_job = Inr b \<and>
     hub_restore list_persister (cuckoo_ops demo_hash id) (\<lambda>_ _. 0) (\<lambda>_. unix_epoch) [b]
       (new_hub (new_filter 4, 0 :: nat) 10 unix_epoch unix_epoch) = (None, h) \<and>
     next_attempt (cuckoo_ops demo_hash id) (\<lambda>_. unix_epoch + 100) (new_server h 1000) = Panicked"
proof -
  have g: "gob_small epoch_job" by (simp add: gob_small_def epoch_job_def new_job_def too_big_def)
  obtain b where b: "gob_encode epoch_job = Inr b" using gob_encode_ok [OF g] by blast
  obtain h where h: "hub_restore list_persister (cuckoo_ops demo_hash id) (\<lambda>_ _. 0) (\<lambda>_. unix_epoch) [b]
      (new_hub (new_filter 4, 0 :: nat) 10 unix_epoch unix_epoch) = (None, h)"
    "\<exists>h'. hub_run (cuckoo_ops demo_hash id) [OpNext (\<lambda>_. unix_epoch + 100)] h =
      Some ([NextReply (Some epoch_job)], h') \<and> hub_jobs h' = {#}"
    using epoch_restore [OF b, of list_persister "[b]"] by (metis list_persister_def persister_ops.simps(3))
  from h(2) obtain h' where n: "hub_next (cuckoo_ops demo_hash id) (\<lambda>_. unix_epoch + 100) h = Some (Some epoch_job, h')"
    and e: "hub_jobs h' = {#}" by (auto split: option.splits)
  have "hub_jobs h = {#epoch_job#}"
    using hub_do_goodD [OF hub_restore_good [OF new_hub_good h(1)], of "cuckoo_ops demo_hash id"
        "OpNext (\<lambda>_. unix_epoch + 100)" "NextReply (Some epoch_job)" h'] n e by simp
  then have "\<forall>j \<in># hub_jobs h. gob_small j" by (simp add: g)
  from restored_jobs_panic [OF h(1) this, of 1000] n b h(1) show ?thesis by auto
qed

text \<open>
  C16: A restart sees the hub as it was when it was saved, if it held jobs then, all of which
  can be encoded, have ids of their own and lie in the range of the new hub (\<open>saveable\<close>), and the
  new hub has a positive span: whatever the process did before, whatever the restore had still to read, and
  whatever is put or handed out on an open RPC connection between the save and the end of
  the process, the next start restores exactly the jobs the hub held at the save. (Of a hub
  without jobs nothing is saved, and the old snapshot stays: C21.)
\<close>

theorem restart_sees_the_save:
  assumes "blob_bucket B blobs pend writing"
    and "start_app (blob_storage B now) sizes opts m tape now1 now2 (Inr st) = Inr a0"
    and "app_reach F (blob_storage B now) a0 a" and "app_phase a = Grpc_Stopped"
    and "app_step F (blob_storage B now) a b" and "app_phase b = Saved"
    and "app_reach F (blob_storage B now) b c"
    and "saveable (new_hub_opts opts' tape' now1' now2') (srv_hub (app_server a))"
    and "hub_jobs (srv_hub (app_server a)) \<noteq> {#}" and "0 < sint (ho_spoke_span opts')"
  shows "\<exists>h. hub_restore (journal_ops (blob_storage B now') sizes') F' ranks clk
      (new_journal_persister (jp_storage (app_persister c))) (new_hub_opts opts' tape' now1' now2') = (None, h) \<and>
    hub_jobs h = hub_jobs (srv_hub (app_server a))"
proof -
  have "app_ok st a" by (rule app_reach_ok [OF assms(3) start_app_ok [OF assms(2)]])
  then have fresh: "app_persister a = new_journal_persister st" using assms(4) by (simp add: app_ok_def)
  obtain n lp sz where l: "hub_stop (journal_ops (blob_storage B now) sz) True (srv_hub (app_server a))
      (new_journal_persister st) = (n, lp)" "app_persister b = lp"
    using app_step_save [OF assms(5,4,6)] unfolding fresh by metis
  have c: "app_persister c = lp" using app_reach_over [OF assms(7)] assms(6) l(2) by (simp add: app_over_def)
  show ?thesis
    by (rule stop_and_restore [OF assms(1) assms(8) [unfolded new_hub_opts_def] assms(9,10), of now sz st])
      (use l(1) c assms(8) in \<open>auto simp: new_hub_opts_def\<close>)
qed

definition late_job :: job where
  "late_job = new_job ''b'' (unix_epoch + 25) []"

definition epoch_opts :: hub_opts where
  "epoch_opts = \<lparr>ho_attempt_restore = False, ho_spoke_span = 10, ho_max_cf_size = 4\<rparr>"

lemma epoch_opts_hub: "new_hub_opts epoch_opts tape unix_epoch unix_epoch =
    new_hub (new_filter 4, tape) 10 unix_epoch unix_epoch"
  by (simp add: new_hub_opts_def epoch_opts_def)

text \<open>A put of the first job, and one of the late job after it.\<close>

lemma epoch_puts:
  assumes "srv_hub s = new_hub (new_filter 4, 0 :: nat) 10 unix_epoch unix_epoch" and "srv_mem s = Noop_Monitor"
  obtains s1 s2 where "rpc_put_with_id (cuckoo_ops demo_hash id) (\<lambda>_. 0) unix_epoch unix_epoch
       \<lparr>aj_body = [1], aj_id = ''a'', aj_delay = 15\<rparr> s = Done (None, None, s1)"
    "hub_jobs (srv_hub s1) = {#epoch_job#}"
    "saveable (new_hub (new_filter 4, 0 :: nat) 10 unix_epoch unix_epoch) (srv_hub s1)"
    "rpc_put_with_id (cuckoo_ops demo_hash id) (\<lambda>_. 0) unix_epoch unix_epoch
       \<lparr>aj_body = [], aj_id = ''b'', aj_delay = 25\<rparr> s1 = Done (None, None, s2)"
    "hub_jobs (srv_hub s2) = {#epoch_job, late_job#}"
proof -
  let ?F = "cuckoo_ops demo_hash id" and ?h0 = "new_hub (new_filter 4, 0 :: nat) 10 unix_epoch unix_epoch"
  obtain h where h: "hub_run ?F epoch_ops ?h0 = Some ([AddReply None], h)" "hub_jobs h = {#epoch_job#}"
    "saveable ?h0 h" using epoch_hub by metis
  have a: "hub_add ?F (\<lambda>_. 0) unix_epoch epoch_job ?h0 = (None, h)"
    using h(1) by (auto simp: epoch_ops_def split: prod.splits)
  have "map_option (\<lambda>(rs, h). (rs, hub_list h)) (hub_run ?F [OpAdd (\<lambda>_. 0) unix_epoch epoch_job,
      OpAdd (\<lambda>_. 0) unix_epoch late_job] ?h0) = Some ([AddReply None, AddReply None], [epoch_job, late_job])"
    by code_simp
  then obtain h2 where b: "hub_add ?F (\<lambda>_. 0) unix_epoch late_job h = (None, h2)" "hub_list h2 = [epoch_job, late_job]"
    by (auto simp: a split: prod.splits)
  let ?s1 = "s\<lparr>srv_hub := h\<rparr>" and ?s2 = "s\<lparr>srv_hub := h2\<rparr>"
  have "rpc_put_with_id ?F (\<lambda>_. 0) unix_epoch unix_epoch \<lparr>aj_body = [1], aj_id = ''a'', aj_delay = 15\<rparr> s =
      Done (None, None, ?s1)"
    using a assms by (simp add: rpc_put_eq put_job_def put_effect_def mm_fence_open_def mm_increment_def t_add_def epoch_job_def)
  moreover have "rpc_put_with_id ?F (\<lambda>_. 0) unix_epoch unix_epoch \<lparr>aj_body = [], aj_id = ''b'', aj_delay = 25\<rparr> ?s1 =
      Done (None, None, ?s2)"
    using b assms by (simp add: rpc_put_eq put_job_def put_effect_def mm_fence_open_def mm_increment_def t_add_def late_job_def)
  moreover have "hub_jobs h2 = {#epoch_job, late_job#}" by (simp add: hub_list_jobs b(2))
  ultimately show ?thesis
    by (intro that [of ?s1 ?s2]) (auto simp: h(2,3))
qed

text \<open>A process with one connection that has put the first job; \<open>l\<close> is the gRPC listener's error.\<close>

lemma epoch_serving:
  obtains a0 a s where "start_app (blob_storage journal_bucket []) (\<lambda>_ _. 0) epoch_opts Noop_Monitor (0 :: nat)
      unix_epoch unix_epoch (Inr empty_store) = Inr a0"
    "app_reach (cuckoo_ops demo_hash id) (blob_storage journal_bucket []) a0 a"
    "app_phase a = Serving" "app_rpc a = Listening" "app_grpc a = Server_App.serve_grpc l" "0 < app_conns a"
    "app_grpc_calls a = {#}" "hub_jobs (srv_hub (app_server a)) = {#epoch_job#}"
    "saveable (new_hub_opts epoch_opts (0 :: nat) unix_epoch unix_epoch) (srv_hub (app_server a))"
    "rpc_put_with_id (cuckoo_ops demo_hash id) (\<lambda>_. 0) unix_epoch unix_epoch
       \<lparr>aj_body = [], aj_id = ''b'', aj_delay = 25\<rparr> (app_server a) = Done (None, None, s)"
    "hub_jobs (srv_hub s) = {#epoch_job, late_job#}"
proof -
  let ?S = "blob_storage journal_bucket []" and ?F = "cuckoo_ops demo_hash id"
  obtain a0 where a0: "start_app ?S (\<lambda>_ _. 0) epoch_opts Noop_Monitor (0 :: nat) unix_epoch unix_epoch
      (Inr empty_store) = Inr a0" by (simp add: start_app_def Let_def)
  have s0: "srv_hub (app_server a0) = new_hub (new_filter 4, 0 :: nat) 10 unix_epoch unix_epoch"
    "srv_mem (app_server a0) = Noop_Monitor" "app_phase a0 = Serving" "app_rpc a0 = Starting" "app_grpc a0 = Starting" "app_grpc_calls a0 = {#}"
    using a0 by (auto simp: start_app_def Let_def epoch_opts_hub)
  obtain s1 s2 where s: "rpc_put_with_id ?F (\<lambda>_. 0) unix_epoch unix_epoch
      \<lparr>aj_body = [1], aj_id = ''a'', aj_delay = 15\<rparr> (app_server a0) = Done (None, None, s1)"
    "hub_jobs (srv_hub s1) = {#epoch_job#}"
    "saveable (new_hub (new_filter 4, 0 :: nat) 10 unix_epoch unix_epoch) (srv_hub s1)"
    "rpc_put_with_id ?F (\<lambda>_. 0) unix_epoch unix_epoch \<lparr>aj_body = [], aj_id = ''b'', aj_delay = 25\<rparr> s1 = Done (None, None, s2)"
    "hub_jobs (srv_hub s2) = {#epoch_job, late_job#}"
    by (rule epoch_puts [OF s0(1,2)])
  let ?a1 = "a0\<lparr>app_rpc := Server_App.serve_rpc None\<rparr>"
  let ?a2 = "?a1\<lparr>app_grpc := Server_App.serve_grpc l\<rparr>"
  let ?a3 = "?a2\<lparr>app_conns := app_conns ?a2 + 1\<rparr>"
  let ?a = "?a3\<lparr>app_server := s1\<rparr>"
  have "app_reach ?F ?S a0 ?a1" by (rule reach_step [OF reach_start listen_rpc]) (simp_all add: s0)
  then have "app_reach ?F ?S a0 ?a2" by (rule reach_step) (rule listen_grpc, simp_all add: s0)
  then have 3: "app_reach ?F ?S a0 ?a3" by (rule reach_step) (rule connect, simp_all add: s0 serve_rpc_def)
  have "app_reach ?F ?S ?a3 ?a"
    by (rule rpc_call_alone [OF _ _ rpc_put_begins]) (use rpc_put_runs [OF s(1)] in \<open>simp_all add: s0\<close>)
  from app_reach_trans [OF this 3] show ?thesis
    by (rule that [OF a0 _ _ _ _ _ _ _ _ _ s(5)]) (simp_all add: s(2-4) s0 serve_rpc_def epoch_opts_hub)
qed

text \<open>The late job is accepted without an error, and it is not there after the restart.\<close>

theorem restart_sees_the_save_witness:
  "\<exists>a0 a b c s h. start_app (blob_storage journal_bucket []) (\<lambda>_ _. 0) epoch_opts Noop_Monitor (0 :: nat)
       unix_epoch unix_epoch (Inr empty_store) = Inr a0 \<and>
     app_reach (cuckoo_ops demo_hash id) (blob_storage journal_bucket []) a0 a \<and>
     app_step (cuckoo_ops demo_hash id) (blob_storage journal_bucket []) a b \<and> app_phase b = Saved \<and>
     rpc_put_with_id (cuckoo_ops demo_hash id) (\<lambda>_. 0) unix_epoch unix_epoch
       \<lparr>aj_body = [], aj_id = ''b'', aj_delay = 25\<rparr> (app_server b) = Done (None, None, s) \<and>
     app_reach (cuckoo_ops demo_hash id) (blob_storage journal_bucket []) b c \<and>
     app_server c = s \<and> hub_jobs (srv_hub s) = {#epoch_job, late_job#} \<and>
     hub_restore (journal_ops (blob_storage journal_bucket []) (\<lambda>_ _. 0)) (cuckoo_ops demo_hash id) (\<lambda>_ _. 0)
       (\<lambda>_. unix_epoch) (new_journal_persister (jp_storage (app_persister c)))
       (new_hub_opts epoch_opts (0 :: nat) unix_epoch unix_epoch) = (None, h) \<and> hub_jobs h = {#epoch_job#}"
proof -
  let ?S = "blob_storage journal_bucket []" and ?F = "cuckoo_ops demo_hash id"
  obtain a0 a s where a: "start_app ?S (\<lambda>_ _. 0) epoch_opts Noop_Monitor (0 :: nat) unix_epoch unix_epoch
      (Inr empty_store) = Inr a0" "app_reach ?F ?S a0 a" "app_phase a = Serving" "app_rpc a = Listening"
    "app_grpc a = Server_App.serve_grpc None" "0 < app_conns a" "app_grpc_calls a = {#}"
    "hub_jobs (srv_hub (app_server a)) = {#epoch_job#}"
    "saveable (new_hub_opts epoch_opts (0 :: nat) unix_epoch unix_epoch) (srv_hub (app_server a))"
    "rpc_put_with_id ?F (\<lambda>_. 0) unix_epoch unix_epoch \<lparr>aj_body = [], aj_id = ''b'', aj_delay = 25\<rparr> (app_server a) =
      Done (None, None, s)" "hub_jobs (srv_hub s) = {#epoch_job, late_job#}"
    by (rule epoch_serving)
  let ?a1 = "a\<lparr>app_phase := Rpc_Closed\<rparr>"
  let ?a2 = "?a1\<lparr>app_phase := Grpc_Stopped\<rparr>"
  obtain n lp where stop: "hub_stop (journal_ops ?S (\<lambda>_ _. 0)) True (srv_hub (app_server ?a2)) (app_persister ?a2) = (n, lp)"
    by fastforce
  let ?b = "?a2\<lparr>app_phase := Saved, app_persister := lp\<rparr>"
  let ?c = "?b\<lparr>app_server := s\<rparr>"
  from a(2) have "app_reach ?F ?S a0 ?a1"
    by (rule reach_step) (use close_rpc [of a ?F ?S] a(3,4) in simp)
  then have r: "app_reach ?F ?S a0 ?a2"
    by (rule reach_step) (use stop_grpc [of ?a1 ?F ?S] a(5,7) in \<open>simp add: serve_grpc_def\<close>)
  have b: "app_step ?F ?S ?a2 ?b" by (rule save [OF _ stop]) simp
  have c: "app_reach ?F ?S ?b ?c"
    by (rule rpc_call_alone [OF _ _ rpc_put_begins]) (use rpc_put_runs [OF a(10)] a(6) in simp_all)
  have sv: "saveable (new_hub_opts epoch_opts (0 :: nat) unix_epoch unix_epoch) (srv_hub (app_server ?a2))"
    "hub_jobs (srv_hub (app_server ?a2)) \<noteq> {#}" "0 < sint (ho_spoke_span epoch_opts)"
    using a(8,9) by (simp_all add: epoch_opts_def)
  have p: "app_phase ?a2 = Grpc_Stopped" "app_phase ?b = Saved" by simp_all
  obtain h where "hub_restore (journal_ops ?S (\<lambda>_ _. 0)) ?F (\<lambda>_ _. 0) (\<lambda>_. unix_epoch)
      (new_journal_persister (jp_storage (app_persister ?c))) (new_hub_opts epoch_opts (0 :: nat) unix_epoch unix_epoch) =
      (None, h)" "hub_jobs h = {#epoch_job#}"
    using restart_sees_the_save [OF jmem.blob_bucket_axioms, OF a(1) r p(1) b p(2) c sv,
      of "[]" "\<lambda>_ _. 0" ?F "\<lambda>_ _. 0" "\<lambda>_. unix_epoch"] a(8) by auto
  with a(1,10,11) r b c p(2) show ?thesis
    by (intro exI [of _ a0] exI [of _ ?a2] exI [of _ ?b] exI [of _ ?c] exI [of _ s] exI [of _ h]) simp
qed

text \<open>
  C8: The command \<open>server\<close> restores what the command \<open>server\<close> saved: in every run from one
  set of flags that saves a hub with jobs, a later start with the same store URL, the same
  prefix (with or without a slash at its end), \<open>--restore\<close> and a positive span reads exactly
  the jobs that were saved, through the prefixed bucket, the store, the journal and the gob
  encoding, as steps of the new process.
\<close>

theorem server_restores_by_flags:
  assumes "blob_bucket B blobs pend writing"
    and "pre_run (parse (cfg_url cfg)) (cfg_prefix cfg) = Inr (u, p)"
    and "server_run bad_key B parse render open_url now sizes m tape now1 now2 cfg = Inr a0"
    and "app_reach F (blob_storage (store_bucket bad_key B u) now) a0 a" and "app_phase a = Grpc_Stopped"
    and "app_step F (blob_storage (store_bucket bad_key B u) now) a b" and "app_phase b = Saved"
    and "app_reach F (blob_storage (store_bucket bad_key B u) now) b c"
    and "saveable (new_hub_opts (app_opts cfg') tape' now1' now2') (srv_hub (app_server a))"
    and "hub_jobs (srv_hub (app_server a)) \<noteq> {#}"
    and "cfg_url cfg' = cfg_url cfg" and "with_slash (cfg_prefix cfg') = with_slash (cfg_prefix cfg)"
    and "cfg_restore cfg'" and "0 < sint (cfg_spoke_span cfg')"
    and "open_url' u = Inr (bs_bucket (jp_storage (app_persister c)))"
  shows "\<exists>a'. server_run bad_key B parse render open_url' now' sizes' m' tape' now1' now2' cfg' = Inr a' \<and>
    (\<forall>F' ranks clk. app_reach F' (blob_storage (store_bucket bad_key B u) now') a' (restored_app F' ranks clk 0 a') \<and>
       app_restoring (restored_app F' ranks clk 0 a') = [] \<and>
       hub_jobs (srv_hub (app_server (restored_app F' ranks clk 0 a'))) = hub_jobs (srv_hub (app_server a)))"
proof -
  obtain pend' writing' where ok: "blob_bucket (store_bucket bad_key B u)
      (\<lambda>b k. blobs b (bucket_prefix u @ ''journal/'' @ k)) pend' writing'"
    by (rule blob_bucket.store_bucket_ok [OF assms(1)])
  obtain st where st: "start_app (blob_storage (store_bucket bad_key B u) now) sizes (app_opts cfg) m tape now1 now2
      (Inr st) = Inr a0"
    by (rule server_run_starts [OF assms(3,2)])
  have "app_ok st a" by (rule app_reach_ok [OF assms(4) start_app_ok [OF st]])
  then have fresh: "app_persister a = new_journal_persister st" using assms(5) by (simp add: app_ok_def)
  obtain n lp sz where l: "hub_stop (journal_ops (blob_storage (store_bucket bad_key B u) now) sz) True
      (srv_hub (app_server a)) (new_journal_persister st) = (n, lp)" "app_persister b = lp"
    using app_step_save [OF assms(6,5,7)] unfolding fresh by metis
  have c: "app_persister c = lp" using app_reach_over [OF assms(8)] assms(7) l(2) by (simp add: app_over_def)
  have pre: "pre_run (parse (cfg_url cfg')) (cfg_prefix cfg') = Inr (u, p)"
    using pre_run_slash [OF assms(12), of "parse (cfg_url cfg)"] assms(2,11) by simp
  obtain st' a' where a': "server_run bad_key B parse render open_url' now' sizes' m' tape' now1' now2' cfg' = Inr a'"
    "start_app (blob_storage (store_bucket bad_key B u) now') sizes' (app_opts cfg') m' tape' now1' now2'
       (Inr st') = Inr a'"
    "blobs (bs_bucket st') (snapshot_key u) = blobs (bs_bucket (jp_storage (app_persister c))) (snapshot_key u)"
    by (rule server_run_ok [where parse = parse and cfg = cfg' and open_url = open_url' and blobs = blobs, OF assms(1) pre assms(15)])
  have "hub_jobs (srv_hub (app_server (restored_app F' ranks clk 0 a'))) = hub_jobs (srv_hub (app_server a))"
    for F' ranks clk
    by (rule start_restores [OF ok assms(9,10) _ _ l(1) _ a'(2)])
      (use assms(13,14) a'(3) c in \<open>simp_all add: app_opts_def snapshot_key_def\<close>)
  moreover have "app_phase a' \<noteq> Crashed" using a'(2) by (auto simp: start_app_def Let_def)
  ultimately show ?thesis using a'(1) restore_steps by (auto simp: restored_app_def)
qed

definition demo_config :: "string \<Rightarrow> bool \<Rightarrow> config" where
  "demo_config prefix restore =
     (default_config ''/data'')\<lparr>cfg_prefix := prefix, cfg_restore := restore, cfg_spoke_span := 10\<rparr>"

definition demo_parse :: "string \<Rightarrow> string + url" where
  "demo_parse s = Inr \<lparr>u_scheme = '''', u_rest = s, u_query = \<lambda>_. []\<rparr>"

text \<open>A put into a new hub, with any filter.\<close>

lemma new_hub_opts_past:
  "past_bound (new_hub_opts opts tape unix_epoch unix_epoch) =
     new_bound (t_add unix_epoch (- 1 * hundred_years)) (t_add unix_epoch hundred_years)"
  by (simp add: new_hub_opts_def past_bound_def new_hub_def spoke_at_def spoke_simps)

lemma epoch_first_put:
  assumes "0 < sint (ho_spoke_span opts)"
    and "srv_hub s = new_hub_opts opts tape unix_epoch unix_epoch" and "srv_mem s = Noop_Monitor"
  obtains s1 where "call_runs F (Rpc_Put \<lparr>aj_body = [1], aj_id = ''a'', aj_delay = 15\<rparr>) s s1" "hub_jobs (srv_hub s1) = {#epoch_job#}"
    "saveable (new_hub_opts opts' tape' unix_epoch unix_epoch) (srv_hub s1)"
proof -
  have in_past: "contains_time (new_bound (t_add unix_epoch (- 1 * hundred_years)) (t_add unix_epoch hundred_years))
      (trigger_at epoch_job)"
    by (simp add: epoch_job_def new_job_def contains_time_iff t_add_def hundred_years_def hour_def)
  have empty: "hub_jobs (srv_hub s) = {#}" by (simp add: assms(2) new_hub_opts_def new_hub_jobs)
  have "hub_wf (srv_hub s)" "spoke_span (srv_hub s) = ho_spoke_span opts"
    by (simp_all add: assms(2) new_hub_opts_def new_hub_wf) (simp add: new_hub_def)
  then obtain h where h: "hub_add F (\<lambda>_. 0) unix_epoch epoch_job (srv_hub s) = (None, h)" "hub_wf h"
    "hub_jobs h = add_mset epoch_job (hub_jobs (srv_hub s))"
    using hub_add_fresh [of "srv_hub s" epoch_job F "\<lambda>_. 0" unix_epoch] in_past empty assms(1)
    by (metis assms(2) new_hub_opts_past hub_ids_def image_mset_empty count_empty not_in_iff)
  have "rpc_put_with_id F (\<lambda>_. 0) unix_epoch unix_epoch \<lparr>aj_body = [1], aj_id = ''a'', aj_delay = 15\<rparr> s =
      Done (None, None, s\<lparr>srv_hub := h\<rparr>)"
    using h(1) assms(3) by (simp add: rpc_put_eq put_job_def put_effect_def mm_fence_open_def mm_increment_def t_add_def epoch_job_def)
  note rpc_put_runs [OF this]
  moreover have "unix_range (trigger_at epoch_job)" "gob_small epoch_job"
    by (simp_all add: unix_range_def gob_small_def epoch_job_def new_job_def too_big_def)
  then have "saveable (new_hub_opts opts' tape' unix_epoch unix_epoch) h"
    using in_past h(2,3) empty by (simp add: saveable_def hub_ids_def restorable_def new_hub_opts_past)
  ultimately show ?thesis using that [of "s\<lparr>srv_hub := h\<rparr>"] h(3) empty by simp
qed

definition demo_url :: url where
  "demo_url = \<lparr>u_scheme = ''file'', u_rest = ''/data'', u_query = (\<lambda>_. [])(''prefix'' := [''jobs/''])\<rparr>"

lemma demo_pre_run:
  "pre_run (demo_parse (cfg_url (demo_config p r))) p = Inr (demo_url, ''jobs/'')" if "p = ''jobs'' \<or> p = ''jobs/''"
  using that by (auto simp: pre_run_def demo_parse_def demo_url_def demo_config_def default_config_def slash_def Let_def fun_eq_iff)

text \<open>Saved under the prefix \<open>jobs\<close>, restored with the prefix \<open>jobs/\<close>.\<close>

theorem server_restores_by_flags_witness:
  "\<exists>a0 a b a'. server_run Invalid_Key mem_bucket demo_parse u_rest (\<lambda>_. Inr (\<lambda>_. None)) [] (\<lambda>_ _. 0) Noop_Monitor (0 :: nat)
       unix_epoch unix_epoch (demo_config ''jobs'' False) = Inr a0 \<and>
     app_reach (cuckoo_ops demo_hash id) (blob_storage (store_bucket Invalid_Key mem_bucket demo_url) []) a0 a \<and>
     app_step (cuckoo_ops demo_hash id) (blob_storage (store_bucket Invalid_Key mem_bucket demo_url) []) a b \<and>
     app_phase b = Saved \<and>
     server_run Invalid_Key mem_bucket demo_parse u_rest (\<lambda>_. Inr (bs_bucket (jp_storage (app_persister b)))) []
       (\<lambda>_ _. 0) Noop_Monitor (0 :: nat) unix_epoch unix_epoch (demo_config ''jobs/'' True) = Inr a' \<and>
     hub_jobs (srv_hub (app_server (restored_app (cuckoo_ops demo_hash id) (\<lambda>_ _. 0) (\<lambda>_. unix_epoch) 0 a'))) = {#epoch_job#}"
proof -
  let ?S = "blob_storage (store_bucket Invalid_Key mem_bucket demo_url) []" and ?F = "cuckoo_ops demo_hash id"
    and ?c = "demo_config ''jobs'' False" and ?c' = "demo_config ''jobs/'' True"
  have pre: "pre_run (demo_parse (cfg_url ?c)) (cfg_prefix ?c) = Inr (demo_url, ''jobs/'')"
    using demo_pre_run [of "''jobs''" False] by (simp add: demo_config_def)
  have open0: "(\<lambda>_ :: url. Inr (\<lambda>_. None) :: mem_error + mem_blobs) demo_url = Inr (\<lambda>_. None)" by simp
  obtain st a0 where a0: "server_run Invalid_Key mem_bucket demo_parse u_rest (\<lambda>_. Inr (\<lambda>_. None)) [] (\<lambda>_ _. 0)
      Noop_Monitor (0 :: nat) unix_epoch unix_epoch ?c = Inr a0"
    "start_app ?S (\<lambda>_ _. 0) (app_opts ?c) Noop_Monitor (0 :: nat) unix_epoch unix_epoch (Inr st) = Inr a0"
    by (rule server_run_ok [where parse = demo_parse and cfg = ?c and open_url = "\<lambda>_. Inr (\<lambda>_. None)",
          OF mem.blob_bucket_axioms pre open0])
  then have s0: "app_phase a0 = Serving" "app_rpc a0 = Starting" "app_grpc a0 = Starting"
    "srv_hub (app_server a0) = new_hub_opts (app_opts ?c) (0 :: nat) unix_epoch unix_epoch"
    "srv_mem (app_server a0) = Noop_Monitor" "app_grpc_calls a0 = {#}"
    by (auto simp: start_app_def Let_def)
  have width: "0 < sint (ho_spoke_span (app_opts ?c))" "0 < sint (cfg_spoke_span ?c')"
    by (simp_all add: app_opts_def demo_config_def)
  obtain s1 where s1: "call_runs ?F (Rpc_Put \<lparr>aj_body = [1], aj_id = ''a'', aj_delay = 15\<rparr>) (app_server a0) s1" "hub_jobs (srv_hub s1) = {#epoch_job#}"
    "saveable (new_hub_opts (app_opts ?c') (0 :: nat) unix_epoch unix_epoch) (srv_hub s1)"
    by (rule epoch_first_put [OF width(1) s0(4,5)])
  obtain a where a: "app_reach ?F ?S a0 a" "app_phase a = Grpc_Stopped" "app_server a = s1"
    by (rule run_to_save [OF s0(1-3,6) rpc_put_begins s1(1)])
  obtain n lp where stop: "hub_stop (journal_ops ?S (\<lambda>_ _. 0)) True (srv_hub (app_server a)) (app_persister a) = (n, lp)"
    by fastforce
  let ?b = "a\<lparr>app_phase := Saved, app_persister := lp\<rparr>"
  have b: "app_step ?F ?S a ?b" by (rule save [OF a(2) stop])
  have saved: "app_phase ?b = Saved" "hub_jobs (srv_hub (app_server a)) \<noteq> {#}" by (simp_all add: a(3) s1(2))
  have flags: "cfg_url ?c' = cfg_url ?c" "with_slash (cfg_prefix ?c') = with_slash (cfg_prefix ?c)" "cfg_restore ?c'"
    by (simp_all add: demo_config_def with_slash_def slash_def)
  have opened: "(\<lambda>_ :: url. Inr (bs_bucket (jp_storage (app_persister ?b))) :: mem_error + mem_blobs) demo_url =
      Inr (bs_bucket (jp_storage (app_persister ?b)))" by simp
  obtain a' where "server_run Invalid_Key mem_bucket demo_parse u_rest (\<lambda>_. Inr (bs_bucket (jp_storage (app_persister ?b)))) []
       (\<lambda>_ _. 0) Noop_Monitor (0 :: nat) unix_epoch unix_epoch ?c' = Inr a'"
    "hub_jobs (srv_hub (app_server (restored_app ?F (\<lambda>_ _. 0) (\<lambda>_. unix_epoch) 0 a'))) = {#epoch_job#}"
    using server_restores_by_flags [OF mem.blob_bucket_axioms pre a0(1) a(1,2) b saved(1) reach_start
        s1(3) [folded a(3)] saved(2) flags width(2), where open_url' = "\<lambda>_. Inr (bs_bucket (jp_storage (app_persister ?b)))" and now' = "[]"
          and sizes' = "\<lambda>_ _. 0" and m' = Noop_Monitor] a(3) s1(2) by auto
  with a0(1) a(1) b saved(1) show ?thesis by blast
qed

text \<open>
  C17: A port that is taken costs the jobs: when one of the two listeners could not be opened, the
  server runs on with the other, and no run ever saves the hub; the store stays as it was at the
  start, and the shutdown ends in the panic of closing a listener that is nil.
\<close>

theorem failed_listener_never_saves:
  assumes "start_app S sizes opts m tape now1 now2 (Inr st) = Inr a0" and "app_reach F S a0 a"
    and "app_rpc a = Failed \<or> app_grpc a = Failed"
  shows "app_phase a \<noteq> Saved \<and> jp_storage (app_persister a) = st \<and>
    (\<forall>b. app_step F S a b \<longrightarrow> app_phase b \<notin> {Grpc_Stopped, Saved}) \<and>
    (app_phase a = Rpc_Closed \<longrightarrow> app_step F S a (a\<lparr>app_phase := Crashed\<rparr>))"
proof -
  have ok: "app_ok st a" by (rule app_reach_ok [OF assms(2) start_app_ok [OF assms(1)]])
  have "app_phase b \<notin> {Grpc_Stopped, Saved}" if "app_step F S a b" for b
  proof -
    have "app_rpc b = Failed \<or> app_grpc b = Failed" using app_step_failed [OF that] assms(3) by blast
    with app_failed_ok [OF app_step_ok [OF that ok]] show ?thesis by blast
  qed
  moreover have "app_step F S a (a\<lparr>app_phase := Crashed\<rparr>)" if "app_phase a = Rpc_Closed"
    using stop_grpc [OF that, of F S] app_failed_ok [OF ok assms(3)] that by simp
  ultimately show ?thesis using app_failed_ok [OF ok assms(3)] by (simp add: new_journal_persister_def)
qed

text \<open>A job is put and accepted, the signal comes, and the store is as empty as before.\<close>

theorem failed_listener_never_saves_witness:
  "\<exists>a0 a b. start_app (blob_storage journal_bucket []) (\<lambda>_ _. 0) epoch_opts Noop_Monitor (0 :: nat)
       unix_epoch unix_epoch (Inr empty_store) = Inr a0 \<and>
     app_reach (cuckoo_ops demo_hash id) (blob_storage journal_bucket []) a0 a \<and>
     hub_jobs (srv_hub (app_server a)) = {#epoch_job#} \<and> app_phase a = Rpc_Closed \<and>
     app_step (cuckoo_ops demo_hash id) (blob_storage journal_bucket []) a b \<and>
     app_phase b = Crashed \<and> jp_storage (app_persister b) = empty_store"
proof -
  let ?S = "blob_storage journal_bucket []" and ?F = "cuckoo_ops demo_hash id"
  obtain a0 a s where a: "start_app ?S (\<lambda>_ _. 0) epoch_opts Noop_Monitor (0 :: nat) unix_epoch unix_epoch
      (Inr empty_store) = Inr a0" "app_reach ?F ?S a0 a" "app_phase a = Serving" "app_rpc a = Listening"
    "app_grpc a = Server_App.serve_grpc (Some ''address already in use'')" "0 < app_conns a" "app_grpc_calls a = {#}"
    "hub_jobs (srv_hub (app_server a)) = {#epoch_job#}"
    "saveable (new_hub_opts epoch_opts (0 :: nat) unix_epoch unix_epoch) (srv_hub (app_server a))"
    "rpc_put_with_id ?F (\<lambda>_. 0) unix_epoch unix_epoch \<lparr>aj_body = [], aj_id = ''b'', aj_delay = 25\<rparr> (app_server a) =
      Done (None, None, s)" "hub_jobs (srv_hub s) = {#epoch_job, late_job#}"
    by (rule epoch_serving)
  let ?a = "a\<lparr>app_phase := Rpc_Closed\<rparr>"
  from a(2) have r: "app_reach ?F ?S a0 ?a"
    by (rule reach_step) (use close_rpc [of a ?F ?S] a(3,4) in simp)
  have f: "app_rpc ?a = Failed \<or> app_grpc ?a = Failed" using a(5) by (simp add: serve_grpc_def)
  from failed_listener_never_saves [OF a(1) r f] a(1,8) r show ?thesis
    by (intro exI [of _ a0] exI [of _ ?a] exI [of _ "?a\<lparr>app_phase := Crashed\<rparr>"]) simp
qed

section \<open>Servers\<close>

text \<open>
  C34: Rejected puts can close the RPC server for good: once the bytes accounted for jobs that
  no hub holds reach the watermark, every RPC put blocks; and this stays so whatever calls come
  then, one after the other: a poll of \<open>Next\<close>, \<open>Cancel\<close>, and gRPC puts within a tebibyte in all,
  which do not check the fence and still get in, leave the leak as it is or add to it.
\<close>

theorem leak_blocks_for_good:
  assumes "stuck leak s"
  shows "rpc_put_with_id F rank now1 now2 aj s = Blocked \<and>
    (\<exists>jo s'. next_attempt F clk s = Done (jo, s') \<and> stuck leak s') \<and>
    (\<exists>s'. rpc_cancel F rank jid s = Done (None, s') \<and> stuck leak s') \<and>
    (\<forall>pj j s1. put_job (pb_id pj) (t_add now1 (millisecond * pb_delay_millis pj)) (pb_body pj) s = (j, s1) \<and>
      usage (hub_jobs (srv_hub s)) + leak + unat (size_of j) \<le> 2 ^ 40 \<longrightarrow>
      (\<exists>err s' leak'. grpc_put_with_id F rank now1 now2 (Some pj) s = Done (err, job_id j, s') \<and>
        stuck leak' s' \<and> leak \<le> leak'))"
  using stuck_fence [OF assms] stuck_next [OF assms] stuck_cancel [OF assms] stuck_grpc_put [OF assms]
  by (auto simp: rpc_put_with_id_def)

text \<open>
  The way there: a put of a job, a second one with the same id and a larger body, which is
  rejected, and a \<open>Next\<close> that takes the job out.
\<close>

definition leak_run :: "'f filter_ops \<Rightarrow> 'f server \<Rightarrow> 'f server option" where
  "leak_run F s =
     (case rpc_put_with_id F (\<lambda>_. 0) 1000 1000 \<lparr>aj_body = [], aj_id = ''a'', aj_delay = 0\<rparr> s of
        Done (None, _, s1) \<Rightarrow>
          (case rpc_put_with_id F (\<lambda>_. 0) 1000 1000
                  \<lparr>aj_body = replicate 99 0, aj_id = ''a'', aj_delay = 0\<rparr> s1 of
             Done (Some e, _, s2) \<Rightarrow>
               (case next_attempt F (\<lambda>_. 1001) s2 of Done (Some j, s3) \<Rightarrow> Some s3 | _ \<Rightarrow> None)
           | _ \<Rightarrow> None)
      | _ \<Rightarrow> None)"

lemma leak_run_good: "leak_run F s = Some s' \<Longrightarrow> hub_good (srv_hub s) \<Longrightarrow> hub_good (srv_hub s')"
  unfolding leak_run_def
  by (auto split: outcome.splits option.splits prod.splits dest!: rpc_put_runs next_runs dest: call_runs_good)

definition leak_server :: "(cuckoo \<times> nat) server" where
  "leak_server = new_server (new_hub (new_filter 4, 0) 10 1000 1000) 150"

text \<open>The hub is empty afterwards, and the 180 bytes of the rejected job are still counted.\<close>

theorem leak_blocks_for_good_witness:
  "\<exists>s. leak_run (cuckoo_ops demo_hash id) leak_server = Some s \<and> hub_jobs (srv_hub s) = {#} \<and>
     rpc_put_with_id (cuckoo_ops demo_hash id) (\<lambda>_. 0) 1000 1000 \<lparr>aj_body = [], aj_id = ''b'', aj_delay = 0\<rparr> s = Blocked \<and>
     (\<exists>jo s'. next_attempt (cuckoo_ops demo_hash id) (\<lambda>_. 2000) s = Done (jo, s') \<and> stuck 180 s')"
proof -
  let ?F = "cuckoo_ops demo_hash id"
  have "map_option (\<lambda>s. (hub_list (srv_hub s), srv_mem s)) (leak_run ?F leak_server) =
      Some ([], Mem_Monitor \<lparr>mm_current = 180, mm_watermark = 150, mm_recovery = 150\<rparr>)" by code_simp
  then obtain s where s: "leak_run ?F leak_server = Some s" "hub_list (srv_hub s) = []"
    "srv_mem s = Mem_Monitor \<lparr>mm_current = 180, mm_watermark = 150, mm_recovery = 150\<rparr>" by auto
  have e: "hub_jobs (srv_hub s) = {#}" by (simp add: hub_list_jobs s(2))
  have "hub_good (srv_hub s)"
    by (rule leak_run_good [OF s(1)]) (simp add: leak_server_def new_server_def new_hub_good)
  then have "stuck 180 s" by (simp add: stuck_def srv_ok_def mem_counts_def s(3) e)
  from leak_blocks_for_good [OF this] s(1) e show ?thesis by blast
qed

text \<open>
  C38: Generated ids start again at 1 in every process. When a hub that holds a job of the
  generated id 1 is saved and a new process restores it, with no insertion into the filter
  failing on the way, then the first put without an id in the new process is rejected
  as a duplicate of a job that it never saw.
\<close>

theorem auto_id_clashes_after_restart:
  assumes "blob_bucket B blobs pend writing" and "saveable (new_hub_opts opts tape now1 now2) h"
    and "''1'' \<in># hub_ids h"
    and "hub_stop (journal_ops (blob_storage B t) sz) True h (new_journal_persister st) = (n, lp)"
    and "start_app (blob_storage B now) sizes opts m tape now1 now2 (Inr (jp_storage lp)) = Inr a"
    and "ho_attempt_restore opts" and "0 < sint (ho_spoke_span opts)"
    and "clean_run (cuckoo_ops hash tp) (restore_ops ranks clk 0 (persist_order h)) (new_hub_opts opts tape now1 now2)"
    and "mm_fence_open m" and "aj_id aj = []"
  shows "job_id (fst (new_job_auto_id 0 t0 b0)) = ''1'' \<and>
    hub_jobs (srv_hub (app_server (restored_app (cuckoo_ops hash tp) ranks clk 0 a))) = hub_jobs h \<and>
    (\<exists>s'. rpc_put_with_id (cuckoo_ops hash tp) rank now1' now2' aj
        (app_server (restored_app (cuckoo_ops hash tp) ranks clk 0 a)) =
        Done (Some (ErrDuplicateJob ''1''), Some ''1'', s') \<and> hub_jobs (srv_hub s') = hub_jobs h)"
proof -
  let ?F = "cuckoo_ops hash tp"
  let ?s = "app_server (restored_app ?F ranks clk 0 a)"
  have id1: "job_id (fst (new_job_auto_id 0 u b)) = ''1''" for u b
  proof -
    have "sprintf_d 1 = ''1''" by code_simp
    then show ?thesis by (simp add: new_job_auto_id_def next_id_def)
  qed
  have ne: "hub_jobs h \<noteq> {#}" using assms(3) by (auto simp: hub_ids_def)
  have jobs: "hub_jobs (srv_hub ?s) = hub_jobs h"
    by (rule start_restores [OF assms(1,2) ne assms(7,6,4) refl assms(5)])
  obtain rs where run: "hub_run ?F (restore_ops ranks clk 0 (persist_order h)) (new_hub_opts opts tape now1 now2) =
      Some (rs, srv_hub ?s)"
    using start_restores_run [OF assms(1,2) ne assms(6,4) refl assms(5)] by blast
  obtain k where "cf_valid k (new_filter (if ho_max_cf_size opts \<noteq> 0 then ho_max_cf_size opts else test_max_cf_size))"
    using new_filter_valid by blast
  then have "hub_filtered (cf_valid k \<circ> fst) (cf_content hash k \<circ> fst) (cf_class hash k \<circ> bytes_of)
      (new_hub_opts opts tape now1 now2)"
    unfolding new_hub_opts_def by (intro ck.new_hub_filtered) simp
  from ck.clean_run_filtered [OF this assms(8) run]
  have f: "hub_filtered (cf_valid k \<circ> fst) (cf_content hash k \<circ> fst) (cf_class hash k \<circ> bytes_of) (srv_hub ?s)" .
  have s: "srv_ids ?s = 0" "srv_mem ?s = m" using assms(5) by (auto simp: restored_app_def start_app_def Let_def)
  obtain j ids where j: "new_job_auto_id 0 (t_add now1' (aj_delay aj)) (aj_body aj) = (j, ids)" by fastforce
  then have jid: "job_id j = ''1''" using id1 [of "t_add now1' (aj_delay aj)" "aj_body aj"] by simp
  then have "job_id j \<in># hub_ids (srv_hub ?s)" using assms(3) by (simp add: hub_ids_def jobs)
  from ck.add_known [OF f this, of tp rank now2']
  have "rpc_put_with_id ?F rank now1' now2' aj ?s =
      Done (Some (ErrDuplicateJob ''1''), Some ''1'', ?s\<lparr>srv_ids := ids, srv_mem := mm_increment (size_of j) m\<rparr>)"
    using assms(9,10) s j jid by (simp add: rpc_put_eq put_job_def put_effect_def)
  then show ?thesis using jobs id1 by simp
qed

definition auto_request :: api_job where
  "auto_request = \<lparr>aj_body = [], aj_id = [], aj_delay = 15\<rparr>"

definition restore_opts :: hub_opts where
  "restore_opts = \<lparr>ho_attempt_restore = True, ho_spoke_span = 10, ho_max_cf_size = 4\<rparr>"

text \<open>
  A first process takes a job without an id in, and gives it the id 1; it is stopped, and a
  second one started on the same store: there the same request is rejected.
\<close>

theorem auto_id_clashes_after_restart_witness:
  "\<exists>s1 lp a s2. rpc_put_with_id (cuckoo_ops demo_hash id) (\<lambda>_. 0) unix_epoch unix_epoch auto_request
       (new_server (new_hub_opts restore_opts (0 :: nat) unix_epoch unix_epoch) 4096) = Done (None, Some ''1'', s1) \<and>
     hub_stop (journal_ops (blob_storage journal_bucket []) (\<lambda>_ _. 0)) True (srv_hub s1) (new_journal_persister empty_store) =
       (0, lp) \<and>
     start_app (blob_storage journal_bucket []) (\<lambda>_ _. 0) restore_opts Noop_Monitor (0 :: nat) unix_epoch unix_epoch
       (Inr (jp_storage lp)) = Inr a \<and>
     rpc_put_with_id (cuckoo_ops demo_hash id) (\<lambda>_. 0) unix_epoch unix_epoch auto_request
       (app_server (restored_app (cuckoo_ops demo_hash id) (\<lambda>_ _. 0) (\<lambda>_. unix_epoch) 0 a)) =
       Done (Some (ErrDuplicateJob ''1''), Some ''1'', s2)"
proof -
  let ?F = "cuckoo_ops demo_hash id" and ?new = "new_hub_opts restore_opts (0 :: nat) unix_epoch unix_epoch"
    and ?j = "new_job ''1'' (unix_epoch + 15) []" and ?S = "blob_storage journal_bucket []"
  have "(case rpc_put_with_id ?F (\<lambda>_. 0) unix_epoch unix_epoch auto_request (new_server ?new 4096) of
      Done (e, r, s) \<Rightarrow> Some (e, r, hub_list (srv_hub s)) | _ \<Rightarrow> None) = Some (None, Some ''1'', [?j])" by code_simp
  then obtain s1 where s1: "rpc_put_with_id ?F (\<lambda>_. 0) unix_epoch unix_epoch auto_request (new_server ?new 4096) =
      Done (None, Some ''1'', s1)" "hub_list (srv_hub s1) = [?j]" by (auto split: outcome.splits)
  let ?h = "srv_hub s1"
  have jobs: "hub_jobs ?h = {#?j#}" by (simp add: hub_list_jobs s1(2))
  have "hub_good ?h"
    using call_runs_good [OF rpc_put_runs [OF s1(1)]] by (simp add: new_server_def new_hub_opts_def new_hub_good)
  then have wf: "hub_wf ?h" by (simp add: hub_good_def)
  have "contains_time (past_bound ?new) (trigger_at ?j)"
    by (simp add: new_hub_opts_past new_job_def contains_time_iff t_add_def hundred_years_def hour_def)
  moreover have "unix_range (trigger_at ?j)" "gob_small ?j"
    by (simp_all add: unix_range_def gob_small_def new_job_def too_big_def)
  ultimately have sv: "saveable ?new ?h" using wf jobs by (simp add: saveable_def hub_ids_def restorable_def)
  have id: "''1'' \<in># hub_ids ?h" by (simp add: hub_ids_def jobs) (simp add: new_job_def)
  have ne: "hub_jobs ?h \<noteq> {#}" by (simp add: jobs)
  obtain lp bufs where lp: "hub_stop (journal_ops ?S (\<lambda>_ _. 0)) True ?h (new_journal_persister empty_store) = (0, lp)"
    using stop_saves [OF jmem.blob_bucket_axioms sv ne, of "[]" "\<lambda>_ _. 0" empty_store] by metis
  obtain a where a: "start_app ?S (\<lambda>_ _. 0) restore_opts Noop_Monitor (0 :: nat) unix_epoch unix_epoch
      (Inr (jp_storage lp)) = Inr a" by (simp add: start_app_def Let_def)
  have "persist_order ?h = [?j]" using persist_order_mset [OF wf] jobs by simp
  moreover have "clean_run ?F (restore_ops (\<lambda>_ _. 0) (\<lambda>_. unix_epoch) 0 [?j]) ?new" by code_simp
  ultimately have clean: "clean_run ?F (restore_ops (\<lambda>_ _. 0) (\<lambda>_. unix_epoch) 0 (persist_order ?h)) ?new" by simp
  have o: "ho_attempt_restore restore_opts" "0 < sint (ho_spoke_span restore_opts)" "mm_fence_open Noop_Monitor"
    "aj_id auto_request = []"
    by (simp_all add: restore_opts_def mm_fence_open_def auto_request_def)
  from auto_id_clashes_after_restart [OF jmem.blob_bucket_axioms sv id lp a o(1,2) clean o(3,4), of 0 "[]" "\<lambda>_. 0"
      unix_epoch unix_epoch] s1(1) lp a show ?thesis by blast
qed

end
